(* ===== verification/Prelude.thy ===== *)
theory Prelude
  imports Main "HOL-Library.Word"
begin

text \<open>
  Shared vocabulary of the maruswap development: the machine types of the C sources, the
  faults a C operation can run into, the result type of operations that can fault, and the
  byte-addressed memory on which pages are copied.

  \<^item> Machine integers are words of their width (\<open>u8\<close>, \<open>u32\<close>, \<open>u64\<close>); an \<open>addr\<close> is a
    64-bit pointer and \<open>NULL\<close> is address 0.
  \<^item> An operation that can crash or hang returns \<open>fault + 'a\<close>: \<open>Inl\<close> says which fault
    (a NULL dereference, an array index outside its array, a failed \<open>assert\<close>, or a busy-wait
    loop that is still waiting after all events of its environment are consumed).
  \<^item> \<open>memory\<close> maps addresses to bytes; \<open>memcpy\<close> and \<open>page_at\<close> move and read 4096-byte pages.
\<close>

unbundle bit_operations_syntax

section \<open>Machine types\<close>

type_synonym u8 = "8 word"
type_synonym u16 = "16 word"
type_synonym u32 = "32 word"
type_synonym u64 = "64 word"
type_synonym addr = "64 word"

abbreviation (input) NULL :: addr where "NULL \<equiv> 0"

named_theorems header_simps \<open>bit-level evaluation of the message headers\<close>
named_theorems frame_simps \<open>parts of the state an operation leaves alone\<close>

section \<open>Faults and results\<close>

datatype fault =
    Null_Pointer    \<comment> \<open>a NULL (or error) pointer is dereferenced\<close>
  | Out_Of_Bounds   \<comment> \<open>an array is indexed outside its declared size\<close>
  | Assert_Failed   \<comment> \<open>an \<open>assert\<close> does not hold\<close>
  | Bad_Pointer     \<comment> \<open>a pointer that names no object of its type is dereferenced\<close>
  | Spinning        \<comment> \<open>a busy-wait loop has not ended\<close>

type_synonym 'a result = "fault + 'a"

definition rbind :: "'a result \<Rightarrow> ('a \<Rightarrow> 'b result) \<Rightarrow> 'b result" where
  "rbind m f = (case m of Inl e \<Rightarrow> Inl e | Inr x \<Rightarrow> f x)"

lemma rbind_simps [simp]:
  "rbind (Inl e) f = Inl e"
  "rbind (Inr x) f = f x"
  by (simp_all add: rbind_def)

lemma rbind_Inr_iff: "rbind m f = Inr y \<longleftrightarrow> (\<exists>x. m = Inr x \<and> f x = Inr y)"
  by (cases m) auto

lemma rbind_Inl_iff: "rbind m f = Inl e \<longleftrightarrow> m = Inl e \<or> (\<exists>x. m = Inr x \<and> f x = Inl e)"
  by (cases m) auto

section \<open>Byte-addressed memory\<close>

type_synonym memory = "addr \<Rightarrow> u8"

text \<open>A page is 4096 bytes: a function on 12-bit offsets.\<close>

type_synonym page = "12 word \<Rightarrow> u8"

abbreviation (input) PAGE_SIZE :: u64 where "PAGE_SIZE \<equiv> 0x1000"

definition memcpy :: "memory \<Rightarrow> addr \<Rightarrow> addr \<Rightarrow> u64 \<Rightarrow> memory" where
  "memcpy m dst src n = (\<lambda>a. if a - dst < n then m (src + (a - dst)) else m a)"

definition page_at :: "memory \<Rightarrow> addr \<Rightarrow> page" where
  "page_at m a = (\<lambda>i. m (a + ucast i))"

definition put_page :: "memory \<Rightarrow> addr \<Rightarrow> page \<Rightarrow> memory" where
  "put_page m a p = (\<lambda>x. if x - a < PAGE_SIZE then p (ucast (x - a)) else m x)"

lemma ucast_page_less: "(ucast (i :: 12 word) :: u64) < 0x1000"
proof -
  have "unat i < 4096"
    using unsigned_less [of i] by simp
  then show ?thesis
    by (simp add: word_less_nat_alt unsigned_ucast_eq take_bit_nat_eq_self)
qed

lemma page_at_memcpy [simp]: "page_at (memcpy m dst src PAGE_SIZE) dst = page_at m src"
  by (rule ext) (simp add: page_at_def memcpy_def ucast_page_less)

lemma page_at_put_page [simp]: "page_at (put_page m a p) a = p"
proof (rule ext)
  fix i :: "12 word"
  have "ucast (ucast i :: u64) = i"
    by (rule bit_word_eqI) (simp add: bit_simps)
  then show "page_at (put_page m a p) a i = p i"
    by (simp add: page_at_def put_page_def ucast_page_less)
qed

text \<open>Two 4096-byte windows are apart when neither start lies in the other window.\<close>

definition apart :: "addr \<Rightarrow> addr \<Rightarrow> bool" where
  "apart a b \<longleftrightarrow> (\<forall>i j. a + ucast (i :: 12 word) \<noteq> b + ucast (j :: 12 word))"

lemma window_offset: "x - a < (0x1000 :: u64) \<Longrightarrow> \<exists>j. x = a + ucast (j :: 12 word)"
proof -
  assume h: "x - a < 0x1000"
  have "unat (x - a) < 4096"
    using h by (simp add: word_less_nat_alt)
  then have "unat (ucast (ucast (x - a) :: 12 word) :: u64) = unat (x - a)"
    by (simp add: unsigned_ucast_eq unsigned_take_bit_eq take_bit_nat_eq_self)
  then have "ucast (ucast (x - a) :: 12 word) = x - a"
    by (simp only: word_unat_eq_iff)
  then have "x = a + ucast (ucast (x - a) :: 12 word)"
    by simp
  then show ?thesis ..
qed

lemma apart_outside: "apart a b \<Longrightarrow> \<not> (b + ucast (i :: 12 word)) - a < (0x1000 :: u64)"
  using window_offset unfolding apart_def by metis

lemma apart_sym: "apart a b \<Longrightarrow> apart b a"
  unfolding apart_def by metis

lemma apart_neq: "apart a b \<Longrightarrow> a \<noteq> b"
  unfolding apart_def by blast

lemma page_at_memcpy_apart: "apart dst a \<Longrightarrow> page_at (memcpy m dst src PAGE_SIZE) a = page_at m a"
  by (rule ext) (simp add: page_at_def memcpy_def apart_outside)

lemma page_at_put_page_apart: "apart b a \<Longrightarrow> page_at (put_page m b p) a = page_at m a"
  by (rule ext) (simp add: page_at_def put_page_def apart_outside)

end
