(* ===== verification/List_Head.thy ===== *)
theory List_Head
  imports Prelude
begin

text \<open>
  The circular doubly linked lists of \<open>include/list_head.h\<close>, pointer by pointer: every
  operation is the sequence of stores the C code makes to the \<open>next\<close> and \<open>prev\<close> fields.

  \<open>ring h head xs\<close> says that in heap \<open>h\<close> the list head \<open>head\<close> and the entries \<open>xs\<close>, in this
  order, form one well-linked circle without repetition. Each operation is then shown to
  implement the operation on the HOL list \<open>xs\<close> its comment promises, and to touch only
  the nodes it names, so that other lists in the same heap keep their contents.
\<close>

section \<open>The heap of list nodes\<close>

record list_heap =
  nxt :: "addr \<Rightarrow> addr"
  prv :: "addr \<Rightarrow> addr"

definition set_nxt :: "addr \<Rightarrow> addr \<Rightarrow> list_heap \<Rightarrow> list_heap" where
  "set_nxt a v h = h\<lparr>nxt := (nxt h)(a := v)\<rparr>"

definition set_prv :: "addr \<Rightarrow> addr \<Rightarrow> list_heap \<Rightarrow> list_heap" where
  "set_prv a v h = h\<lparr>prv := (prv h)(a := v)\<rparr>"

lemma set_nxt_prv_simps [simp]:
  "nxt (set_nxt a v h) = (nxt h)(a := v)"
  "prv (set_nxt a v h) = prv h"
  "nxt (set_prv a v h) = nxt h"
  "prv (set_prv a v h) = (prv h)(a := v)"
  by (simp_all add: set_nxt_def set_prv_def)

section \<open>The operations\<close>

definition LIST_POISON1 :: addr where "LIST_POISON1 = 0xdeadbeef"
definition LIST_POISON2 :: addr where "LIST_POISON2 = 0xbadacafe"

definition INIT_LIST_HEAD :: "addr \<Rightarrow> list_heap \<Rightarrow> list_heap" where
  "INIT_LIST_HEAD l h = set_prv l l (set_nxt l l h)"

definition raw_list_add :: "addr \<Rightarrow> addr \<Rightarrow> addr \<Rightarrow> list_heap \<Rightarrow> list_heap" where
  "raw_list_add new before after h =
     set_nxt before new (set_prv new before (set_nxt new after (set_prv after new h)))"

definition list_add :: "addr \<Rightarrow> addr \<Rightarrow> list_heap \<Rightarrow> list_heap" where
  "list_add new head h = raw_list_add new head (nxt h head) h"

definition list_add_tail :: "addr \<Rightarrow> addr \<Rightarrow> list_heap \<Rightarrow> list_heap" where
  "list_add_tail new head h = raw_list_add new (prv h head) head h"

definition raw_list_del :: "addr \<Rightarrow> addr \<Rightarrow> list_heap \<Rightarrow> list_heap" where
  "raw_list_del before after h = set_nxt before after (set_prv after before h)"

definition raw_list_del_entry :: "addr \<Rightarrow> list_heap \<Rightarrow> list_heap" where
  "raw_list_del_entry e h = raw_list_del (prv h e) (nxt h e) h"

definition list_del :: "addr \<Rightarrow> list_heap \<Rightarrow> list_heap" where
  "list_del e h =
     set_prv e LIST_POISON2 (set_nxt e LIST_POISON1 (raw_list_del_entry e h))"

definition list_replace :: "addr \<Rightarrow> addr \<Rightarrow> list_heap \<Rightarrow> list_heap" where
  "list_replace old new h =
     (let h1 = set_nxt new (nxt h old) h;
          h2 = set_prv (nxt h1 new) new h1;
          h3 = set_prv new (prv h2 old) h2
      in set_nxt (prv h3 new) new h3)"

definition list_replace_init :: "addr \<Rightarrow> addr \<Rightarrow> list_heap \<Rightarrow> list_heap" where
  "list_replace_init old new h = INIT_LIST_HEAD old (list_replace old new h)"

definition list_del_init :: "addr \<Rightarrow> list_heap \<Rightarrow> list_heap" where
  "list_del_init e h = INIT_LIST_HEAD e (raw_list_del_entry e h)"

definition list_move :: "addr \<Rightarrow> addr \<Rightarrow> list_heap \<Rightarrow> list_heap" where
  "list_move e head h = list_add e head (raw_list_del_entry e h)"

definition list_move_tail :: "addr \<Rightarrow> addr \<Rightarrow> list_heap \<Rightarrow> list_heap" where
  "list_move_tail e head h = list_add_tail e head (raw_list_del_entry e h)"

definition list_is_last :: "addr \<Rightarrow> addr \<Rightarrow> list_heap \<Rightarrow> bool" where
  "list_is_last e head h \<longleftrightarrow> nxt h e = head"

definition list_empty :: "addr \<Rightarrow> list_heap \<Rightarrow> bool" where
  "list_empty head h \<longleftrightarrow> nxt h head = head"

definition list_empty_careful :: "addr \<Rightarrow> list_heap \<Rightarrow> bool" where
  "list_empty_careful head h \<longleftrightarrow> (let n = nxt h head in n = head \<and> n = prv h head)"

definition list_rotate_left :: "addr \<Rightarrow> list_heap \<Rightarrow> list_heap" where
  "list_rotate_left head h =
     (if \<not> list_empty head h then list_move_tail (nxt h head) head h else h)"

definition list_is_singular :: "addr \<Rightarrow> list_heap \<Rightarrow> bool" where
  "list_is_singular head h \<longleftrightarrow> \<not> list_empty head h \<and> nxt h head = prv h head"

definition raw_list_cut_position :: "addr \<Rightarrow> addr \<Rightarrow> addr \<Rightarrow> list_heap \<Rightarrow> list_heap" where
  "raw_list_cut_position l head e h =
     (let new_first = nxt h e;
          h1 = set_nxt l (nxt h head) h;
          h2 = set_prv (nxt h1 l) l h1;
          h3 = set_prv l e h2;
          h4 = set_nxt e l h3;
          h5 = set_nxt head new_first h4
      in set_prv new_first head h5)"

definition list_cut_position :: "addr \<Rightarrow> addr \<Rightarrow> addr \<Rightarrow> list_heap \<Rightarrow> list_heap" where
  "list_cut_position l head e h =
     (if list_empty head h then h
      else if list_is_singular head h \<and> (nxt h head \<noteq> e \<and> head \<noteq> e) then h
      else if e = head then INIT_LIST_HEAD l h
      else raw_list_cut_position l head e h)"

definition list_cut_before :: "addr \<Rightarrow> addr \<Rightarrow> addr \<Rightarrow> list_heap \<Rightarrow> list_heap" where
  "list_cut_before l head e h =
     (if nxt h head = e then INIT_LIST_HEAD l h
      else
        let h1 = set_nxt l (nxt h head) h;
            h2 = set_prv (nxt h1 l) l h1;
            h3 = set_prv l (prv h2 e) h2;
            h4 = set_nxt (prv h3 l) l h3;
            h5 = set_nxt head e h4
        in set_prv e head h5)"

definition raw_list_splice :: "addr \<Rightarrow> addr \<Rightarrow> addr \<Rightarrow> list_heap \<Rightarrow> list_heap" where
  "raw_list_splice l before after h =
     (let first = nxt h l; last = prv h l;
          h1 = set_prv first before h;
          h2 = set_nxt before first h1;
          h3 = set_nxt last after h2
      in set_prv after last h3)"

definition list_splice :: "addr \<Rightarrow> addr \<Rightarrow> list_heap \<Rightarrow> list_heap" where
  "list_splice l head h = (if \<not> list_empty l h then raw_list_splice l head (nxt h head) h else h)"

definition list_splice_tail :: "addr \<Rightarrow> addr \<Rightarrow> list_heap \<Rightarrow> list_heap" where
  "list_splice_tail l head h = (if \<not> list_empty l h then raw_list_splice l (prv h head) head h else h)"

definition list_splice_init :: "addr \<Rightarrow> addr \<Rightarrow> list_heap \<Rightarrow> list_heap" where
  "list_splice_init l head h =
     (if \<not> list_empty l h then INIT_LIST_HEAD l (raw_list_splice l head (nxt h head) h) else h)"

definition list_splice_tail_init :: "addr \<Rightarrow> addr \<Rightarrow> list_heap \<Rightarrow> list_heap" where
  "list_splice_tail_init l head h =
     (if \<not> list_empty l h then INIT_LIST_HEAD l (raw_list_splice l (prv h head) head h) else h)"

text \<open>
  \<open>list_for_each\<close> and its \<open>entry\<close> forms: follow \<open>next\<close> from \<open>pos\<close> until the head comes
  round. The loop need not end on a heap that is not a ring, so it takes fuel; the visited
  nodes are the result.
\<close>

fun list_for_each :: "nat \<Rightarrow> list_heap \<Rightarrow> addr \<Rightarrow> addr \<Rightarrow> addr list option" where
  "list_for_each 0 h pos head = None"
| "list_for_each (Suc fuel) h pos head =
     (if pos = head then Some []
      else map_option (Cons pos) (list_for_each fuel h (nxt h pos) head))"

fun list_for_each_prev :: "nat \<Rightarrow> list_heap \<Rightarrow> addr \<Rightarrow> addr \<Rightarrow> addr list option" where
  "list_for_each_prev 0 h pos head = None"
| "list_for_each_prev (Suc fuel) h pos head =
     (if pos = head then Some []
      else map_option (Cons pos) (list_for_each_prev fuel h (prv h pos) head))"

text \<open>
  \<open>list_for_each_entry_safe\<close>: the successor \<open>n\<close> is read before the body runs, the body may
  change the heap, and the following successor is read from \<open>n\<close> in the changed heap.
\<close>

fun list_for_each_safe ::
  "nat \<Rightarrow> (addr \<Rightarrow> list_heap \<times> 's \<Rightarrow> list_heap \<times> 's) \<Rightarrow> addr \<Rightarrow> addr \<Rightarrow> addr
   \<Rightarrow> list_heap \<times> 's \<Rightarrow> (list_heap \<times> 's) option" where
  "list_for_each_safe 0 body pos n head s = None"
| "list_for_each_safe (Suc fuel) body pos n head s =
     (if pos = head then Some s
      else let s' = body pos s in list_for_each_safe fuel body n (nxt (fst s') n) head s')"

definition list_for_each_entry_safe ::
  "nat \<Rightarrow> (addr \<Rightarrow> list_heap \<times> 's \<Rightarrow> list_heap \<times> 's) \<Rightarrow> addr
   \<Rightarrow> list_heap \<times> 's \<Rightarrow> (list_heap \<times> 's) option" where
  "list_for_each_entry_safe fuel body head s =
     (let pos = nxt (fst s) head in list_for_each_safe fuel body pos (nxt (fst s) pos) head s)"

lemmas list_op_defs =
  INIT_LIST_HEAD_def raw_list_add_def list_add_def list_add_tail_def raw_list_del_def
  raw_list_del_entry_def list_del_def list_replace_def list_replace_init_def
  list_del_init_def list_move_def list_move_tail_def raw_list_cut_position_def
  raw_list_splice_def Let_def

section \<open>Segments and rings\<close>

text \<open>\<open>seg h p xs q\<close>: from node \<open>p\<close> through the entries \<open>xs\<close> to node \<open>q\<close>, linked both ways.\<close>

fun seg :: "list_heap \<Rightarrow> addr \<Rightarrow> addr list \<Rightarrow> addr \<Rightarrow> bool" where
  "seg h p [] q \<longleftrightarrow> nxt h p = q \<and> prv h q = p"
| "seg h p (x # xs) q \<longleftrightarrow> nxt h p = x \<and> prv h x = p \<and> seg h x xs q"

definition ring :: "list_heap \<Rightarrow> addr \<Rightarrow> addr list \<Rightarrow> bool" where
  "ring h head xs \<longleftrightarrow> distinct (head # xs) \<and> seg h head xs head"

lemma seg_append: "seg h p (xs @ y # ys) q \<longleftrightarrow> seg h p xs y \<and> seg h y ys q"
  by (induction xs arbitrary: p) auto

lemma seg_cong:
  assumes "\<And>a. a \<in> insert p (set xs) \<Longrightarrow> nxt h' a = nxt h a"
    and "\<And>a. a \<in> insert q (set xs) \<Longrightarrow> prv h' a = prv h a"
  shows "seg h' p xs q = seg h p xs q"
  using assms by (induction xs arbitrary: p) auto

lemma seg_set_nxt [simp]:
  "a \<noteq> p \<Longrightarrow> a \<notin> set xs \<Longrightarrow> seg (set_nxt a v h) p xs q = seg h p xs q"
  by (rule seg_cong) auto

lemma seg_set_prv [simp]:
  "a \<noteq> q \<Longrightarrow> a \<notin> set xs \<Longrightarrow> seg (set_prv a v h) p xs q = seg h p xs q"
  by (rule seg_cong) auto

lemma seg_nxt: "seg h p xs q \<Longrightarrow> nxt h p = (case xs of [] \<Rightarrow> q | x # _ \<Rightarrow> x)"
  by (cases xs) auto

lemma seg_prv: "seg h p xs q \<Longrightarrow> prv h q = (if xs = [] then p else last xs)"
  by (induction xs arbitrary: p) auto

lemma seg_entry:
  assumes "seg h p (xs @ e # ys) q"
  shows "prv h e = (if xs = [] then p else last xs)" "nxt h e = (case ys of [] \<Rightarrow> q | y # _ \<Rightarrow> y)"
  using assms by (auto simp: seg_append dest: seg_prv seg_nxt)

text \<open>A ring is determined by its \<open>next\<close> pointers.\<close>

lemma ring_nxt: "ring h head xs \<Longrightarrow> nxt h head = (case xs of [] \<Rightarrow> head | x # _ \<Rightarrow> x)"
  unfolding ring_def using seg_nxt by blast

lemma ring_prv: "ring h head xs \<Longrightarrow> prv h head = (if xs = [] then head else last xs)"
  unfolding ring_def using seg_prv by blast

lemma ring_distinct: "ring h head xs \<Longrightarrow> distinct (head # xs)"
  by (simp add: ring_def)

lemma ring_cong:
  assumes "\<And>a. a \<in> set (head # xs) \<Longrightarrow> nxt h' a = nxt h a \<and> prv h' a = prv h a"
  shows "ring h' head xs = ring h head xs"
proof -
  have "seg h' head xs head = seg h head xs head"
    using assms by (intro seg_cong) auto
  then show ?thesis by (simp add: ring_def)
qed

section \<open>Every operation implements its list operation\<close>

lemma ring_INIT_LIST_HEAD: "ring (INIT_LIST_HEAD l h) l []"
  by (simp add: ring_def list_op_defs)

lemma ring_list_empty: "ring h head xs \<Longrightarrow> list_empty head h \<longleftrightarrow> xs = []"
  by (cases xs) (auto simp: list_empty_def ring_def)

lemma ring_list_empty_careful: "ring h head xs \<Longrightarrow> list_empty_careful head h \<longleftrightarrow> xs = []"
  by (cases xs) (auto simp: list_empty_careful_def ring_def)

lemma ring_list_is_last:
  assumes "ring h head (xs @ e # ys)"
  shows "list_is_last e head h \<longleftrightarrow> ys = []"
  using assms seg_entry(2) [of h head xs e ys head]
  by (cases ys) (auto simp: list_is_last_def ring_def)

lemma ring_list_is_singular:
  assumes "ring h head xs"
  shows "list_is_singular head h \<longleftrightarrow> length xs = 1"
  using assms ring_nxt [OF assms] ring_prv [OF assms] ring_list_empty [OF assms]
  by (cases xs) (auto simp: list_is_singular_def ring_def split: if_splits)

lemma ring_list_add:
  assumes "ring h head xs" "new \<notin> set (head # xs)"
  shows "ring (list_add new head h) head (new # xs)"
  using assms by (cases xs) (auto simp: ring_def list_op_defs)

lemma ring_list_add_tail:
  assumes "ring h head xs" "new \<notin> set (head # xs)"
  shows "ring (list_add_tail new head h) head (xs @ [new])"
  using assms by (cases xs rule: rev_cases) (auto simp: ring_def list_op_defs seg_append)

lemma seg_del:
  assumes "seg h p (xs @ e # ys) q" "distinct (xs @ e # ys)"
    "p \<notin> set (xs @ e # ys)" "q \<notin> set (xs @ e # ys)"
  shows "seg (raw_list_del_entry e h) p (xs @ ys) q"
  using assms seg_entry [OF assms(1)]
  by (cases xs rule: rev_cases; cases ys) (auto simp: list_op_defs seg_append)

lemma ring_raw_list_del_entry:
  assumes "ring h head (xs @ e # ys)"
  shows "ring (raw_list_del_entry e h) head (xs @ ys)"
  using assms seg_del [of h head xs e ys head] by (auto simp: ring_def)

lemma ring_list_del:
  assumes "ring h head (xs @ e # ys)"
  shows "ring (list_del e h) head (xs @ ys)"
proof -
  have "ring (raw_list_del_entry e h) head (xs @ ys)"
    using assms by (rule ring_raw_list_del_entry)
  moreover have "e \<notin> set (head # xs @ ys)"
    using assms by (auto simp: ring_def)
  ultimately show ?thesis
    by (subst ring_cong [of _ _ _ "raw_list_del_entry e h"]) (auto simp: list_del_def)
qed

lemma ring_list_del_init:
  assumes "ring h head (xs @ e # ys)"
  shows "ring (list_del_init e h) head (xs @ ys)" "ring (list_del_init e h) e []"
proof -
  have "ring (raw_list_del_entry e h) head (xs @ ys)"
    using assms by (rule ring_raw_list_del_entry)
  moreover have "e \<notin> set (head # xs @ ys)"
    using assms by (auto simp: ring_def)
  ultimately show "ring (list_del_init e h) head (xs @ ys)"
    by (subst ring_cong [of _ _ _ "raw_list_del_entry e h"])
      (auto simp: list_del_init_def INIT_LIST_HEAD_def)
  show "ring (list_del_init e h) e []"
    by (simp add: list_del_init_def ring_INIT_LIST_HEAD)
qed

lemma ring_list_move:
  assumes "ring h head (xs @ e # ys)"
  shows "ring (list_move e head h) head (e # xs @ ys)"
    and "ring (list_move_tail e head h) head (xs @ ys @ [e])"
proof -
  have r: "ring (raw_list_del_entry e h) head (xs @ ys)"
    using assms by (rule ring_raw_list_del_entry)
  have "e \<notin> set (head # xs @ ys)"
    using assms by (auto simp: ring_def)
  then show "ring (list_move e head h) head (e # xs @ ys)"
    and "ring (list_move_tail e head h) head (xs @ ys @ [e])"
    using ring_list_add [OF r] ring_list_add_tail [OF r]
    by (auto simp: list_move_def list_move_tail_def)
qed

lemma ring_list_rotate_left:
  assumes "ring h head xs"
  shows "ring (list_rotate_left head h) head (rotate1 xs)"
proof (cases xs)
  case Nil
  with assms show ?thesis by (simp add: list_rotate_left_def ring_list_empty)
next
  case (Cons x xs')
  with assms have "nxt h head = x" "\<not> list_empty head h"
    by (simp_all add: ring_list_empty ring_nxt)
  with assms Cons show ?thesis
    using ring_list_move(2) [of h head "[]" x xs'] by (simp add: list_rotate_left_def)
qed

lemma list_replace_eq:
  assumes "nxt h old \<noteq> old" "new \<noteq> old"
  shows "list_replace old new h =
    set_nxt (prv h old) new
      (set_prv new (prv h old) (set_prv (nxt h old) new (set_nxt new (nxt h old) h)))"
  using assms by (simp add: list_replace_def Let_def)

lemma seg_replace:
  assumes "seg h p (xs @ old # ys) q" "distinct (xs @ old # ys)"
    "p \<notin> set (xs @ old # ys)" "q \<notin> set (xs @ old # ys)"
    "new \<notin> set (xs @ old # ys)" "new \<noteq> p" "new \<noteq> q"
  shows "seg (list_replace old new h) p (xs @ new # ys) q"
proof -
  have "nxt h old \<noteq> old"
    using assms seg_entry(2) [OF assms(1)] by (cases ys) auto
  then have eq: "list_replace old new h =
      set_nxt (prv h old) new
        (set_prv new (prv h old) (set_prv (nxt h old) new (set_nxt new (nxt h old) h)))"
    using assms by (intro list_replace_eq) auto
  have left: "seg h p xs old" and right: "seg h old ys q"
    using assms(1) by (simp_all add: seg_append)
  have "seg (list_replace old new h) p xs new"
    unfolding eq using left right assms(2-) seg_nxt [OF right]
    by (cases xs rule: rev_cases; cases ys) (auto simp: seg_append)
  moreover have "seg (list_replace old new h) new ys q"
    unfolding eq using left right assms(2-) seg_prv [OF left]
    by (cases xs rule: rev_cases; cases ys) (auto simp: seg_append)
  ultimately show ?thesis by (simp add: seg_append)
qed

lemma ring_list_replace:
  assumes "ring h head (xs @ old # ys)" "new \<notin> set (head # xs @ old # ys)"
  shows "ring (list_replace old new h) head (xs @ new # ys)"
    and "ring (list_replace_init old new h) head (xs @ new # ys)"
proof -
  show r: "ring (list_replace old new h) head (xs @ new # ys)"
    using assms seg_replace [of h head xs old ys head new] by (auto simp: ring_def)
  have "old \<notin> set (head # xs @ new # ys)"
    using assms by (auto simp: ring_def)
  with r show "ring (list_replace_init old new h) head (xs @ new # ys)"
    by (subst ring_cong [of _ _ _ "list_replace old new h"])
      (auto simp: list_replace_init_def INIT_LIST_HEAD_def)
qed

lemma ring_list_replace_head:
  assumes "ring h old xs" "new \<notin> set (old # xs)"
  shows "ring (list_replace old new h) new xs"
proof (cases "xs = []")
  case True
  with assms show ?thesis by (auto simp: ring_def list_replace_def Let_def)
next
  case False
  then obtain x xs' where xs: "xs = x # xs'" by (cases xs) auto
  have s: "seg h old xs old" "distinct (old # xs)" using assms by (auto simp: ring_def)
  have p: "prv h old = last xs" "nxt h old = x" and x: "prv h x = old"
    using seg_prv [OF s(1)] s xs by auto
  have eq: "list_replace old new h =
      set_nxt (last xs) new (set_prv new (last xs) (set_prv x new (set_nxt new x h)))"
    using list_replace_eq [of h old new] s assms(2) p xs by auto
  have "seg (list_replace old new h) new xs new"
  proof (cases xs' rule: rev_cases)
    case Nil
    with s xs assms(2) show ?thesis unfolding eq by auto
  next
    case (snoc ys y)
    with s xs assms(2) show ?thesis unfolding eq by (auto simp: seg_append)
  qed
  with s(2) assms(2) show ?thesis by (auto simp: ring_def)
qed

lemma raw_list_splice_eq:
  assumes "ring h l xs" "xs \<noteq> []"
  shows "raw_list_splice l before after h =
    set_prv after (last xs) (set_nxt (last xs) after (set_nxt before (hd xs) (set_prv (hd xs) before h)))"
  using assms ring_nxt [OF assms(1)] ring_prv [OF assms(1)]
  by (cases xs) (auto simp: raw_list_splice_def Let_def)

lemma seg_splice:
  assumes "ring h l (x # xs)" "nxt h p = q" "prv h q = p"
    "p \<notin> set (l # x # xs)" "q \<notin> set (l # x # xs)"
  shows "seg (raw_list_splice l p q h) p (x # xs) q"
proof -
  have s: "seg h l (x # xs) l" "distinct (l # x # xs)" using assms(1) by (auto simp: ring_def)
  have eq: "raw_list_splice l p q h =
      set_prv q (last (x # xs)) (set_nxt (last (x # xs)) q (set_nxt p x (set_prv x p h)))"
    using raw_list_splice_eq [OF assms(1)] by simp
  show ?thesis
    unfolding eq using s assms(2-)
    by (cases xs rule: rev_cases) (auto simp: seg_append)
qed

text \<open>
  Splicing between \<open>p\<close> and \<open>q\<close> rewrites \<open>next\<close> only at \<open>p\<close> and the last spliced entry,
  and \<open>prev\<close> only at \<open>q\<close> and the first one.
\<close>

lemma seg_splice_frame:
  assumes "ring h l (x # xs)"
    and "{p, last (x # xs)} \<inter> insert u (set zs) = {}"
    and "{q, x} \<inter> insert v (set zs) = {}"
  shows "seg (raw_list_splice l p q h) u zs v = seg h u zs v"
  using assms raw_list_splice_eq [OF assms(1), of p q] by (intro seg_cong) auto

lemma ring_list_splice:
  assumes l: "ring h l xs" and r: "ring h head ys"
    and dis: "set (l # xs) \<inter> set (head # ys) = {}"
  shows "ring (list_splice l head h) head (xs @ ys)"
    and "ring (list_splice_init l head h) head (xs @ ys)"
    and "ring (list_splice_init l head h) l []"
proof -
  have e: "list_empty l h \<longleftrightarrow> xs = []" using ring_list_empty [OF l] .
  show 1: "ring (list_splice l head h) head (xs @ ys)"
  proof (cases xs)
    case Nil
    with e r show ?thesis by (simp add: list_splice_def)
  next
    case (Cons x xs')
    let ?q = "nxt h head" and ?h' = "raw_list_splice l head (nxt h head) h"
    have q: "?q = (case ys of [] \<Rightarrow> head | y # _ \<Rightarrow> y)" using ring_nxt [OF r] .
    have pq: "prv h ?q = head" using r q by (cases ys) (auto simp: ring_def)
    have qn: "?q \<in> set (head # ys)" using q by (cases ys) auto
    have s: "seg ?h' head (x # xs') ?q"
      by (rule seg_splice) (use l Cons pq qn dis in auto)
    have lx: "last (x # xs') \<in> set (x # xs')" by (rule last_in_set) simp
    have "ring ?h' head (xs @ ys)"
    proof (cases ys)
      case Nil
      with s q l r Cons dis show ?thesis by (auto simp: ring_def)
    next
      case (Cons y ys')
      have "seg ?h' y ys' head = seg h y ys' head"
      proof (rule seg_splice_frame [of h l x xs'])
        show "ring h l (x # xs')" using l \<open>xs = x # xs'\<close> by simp
        show "{head, last (x # xs')} \<inter> insert y (set ys') = {}"
          using r dis \<open>xs = x # xs'\<close> Cons lx unfolding ring_def by auto
        show "{?q, x} \<inter> insert head (set ys') = {}"
          using r q dis \<open>xs = x # xs'\<close> Cons unfolding ring_def by auto
      qed
      with s q l r \<open>xs = x # xs'\<close> Cons dis show ?thesis by (auto simp: ring_def seg_append)
    qed
    with e Cons show ?thesis by (simp add: list_splice_def)
  qed
  show "ring (list_splice_init l head h) head (xs @ ys)"
  proof (cases "xs = []")
    case True
    with 1 e show ?thesis by (simp add: list_splice_init_def list_splice_def)
  next
    case False
    with 1 e have "ring (raw_list_splice l head (nxt h head) h) head (xs @ ys)"
      by (simp add: list_splice_def)
    moreover have "l \<notin> set (head # xs @ ys)" using l dis by (auto simp: ring_def)
    ultimately show ?thesis using False e
      by (subst ring_cong [of _ _ _ "raw_list_splice l head (nxt h head) h"])
        (auto simp: list_splice_init_def INIT_LIST_HEAD_def)
  qed
  show "ring (list_splice_init l head h) l []"
    using e l by (auto simp: list_splice_init_def ring_INIT_LIST_HEAD)
qed

lemma ring_list_splice_tail:
  assumes l: "ring h l xs" and r: "ring h head ys"
    and dis: "set (l # xs) \<inter> set (head # ys) = {}"
  shows "ring (list_splice_tail l head h) head (ys @ xs)"
    and "ring (list_splice_tail_init l head h) head (ys @ xs)"
    and "ring (list_splice_tail_init l head h) l []"
proof -
  have e: "list_empty l h \<longleftrightarrow> xs = []" using ring_list_empty [OF l] .
  show 1: "ring (list_splice_tail l head h) head (ys @ xs)"
  proof (cases xs)
    case Nil
    with e r show ?thesis by (simp add: list_splice_tail_def)
  next
    case (Cons x xs')
    let ?p = "prv h head" and ?h' = "raw_list_splice l (prv h head) head h"
    have p: "?p = (if ys = [] then head else last ys)" using ring_prv [OF r] .
    have np: "nxt h ?p = head"
      using r p by (cases ys rule: rev_cases) (auto simp: ring_def seg_append)
    have pn: "?p \<in> set (head # ys)" using p by auto
    have s: "seg ?h' ?p (x # xs') head"
      by (rule seg_splice) (use l Cons np pn dis in auto)
    have lx: "last (x # xs') \<in> set (x # xs')" by (rule last_in_set) simp
    have "ring ?h' head (ys @ xs)"
    proof (cases ys rule: rev_cases)
      case Nil
      with s p l r Cons dis show ?thesis by (auto simp: ring_def)
    next
      case (snoc zs z)
      have "seg ?h' head zs z = seg h head zs z"
      proof (rule seg_splice_frame [of h l x xs'])
        show "ring h l (x # xs')" using l Cons by simp
        show "{?p, last (x # xs')} \<inter> insert head (set zs) = {}"
          using r p dis Cons snoc lx unfolding ring_def by auto
        show "{head, x} \<inter> insert z (set zs) = {}"
          using r dis Cons snoc unfolding ring_def by auto
      qed
      with s p l r Cons snoc dis show ?thesis by (auto simp: ring_def seg_append)
    qed
    with e Cons show ?thesis by (simp add: list_splice_tail_def)
  qed
  show "ring (list_splice_tail_init l head h) head (ys @ xs)"
  proof (cases "xs = []")
    case True
    with 1 e show ?thesis by (simp add: list_splice_tail_init_def list_splice_tail_def)
  next
    case False
    with 1 e have "ring (raw_list_splice l (prv h head) head h) head (ys @ xs)"
      by (simp add: list_splice_tail_def)
    moreover have "l \<notin> set (head # ys @ xs)" using l dis by (auto simp: ring_def)
    ultimately show ?thesis using False e
      by (subst ring_cong [of _ _ _ "raw_list_splice l (prv h head) head h"])
        (auto simp: list_splice_tail_init_def INIT_LIST_HEAD_def)
  qed
  show "ring (list_splice_tail_init l head h) l []"
    using e l by (auto simp: list_splice_tail_init_def ring_INIT_LIST_HEAD)
qed

lemma ring_raw_list_cut_position:
  assumes "ring h head (xs @ e # ys)" "l \<notin> set (head # xs @ e # ys)"
  shows "ring (raw_list_cut_position l head e h) l (xs @ [e])"
    and "ring (raw_list_cut_position l head e h) head ys"
proof -
  have s: "seg h head (xs @ e # ys) head" "distinct (head # xs @ e # ys)"
    using assms(1) by (auto simp: ring_def)
  show "ring (raw_list_cut_position l head e h) l (xs @ [e])"
    using s assms(2) seg_entry [OF s(1)]
    by (cases xs; cases ys) (auto simp: ring_def raw_list_cut_position_def Let_def seg_append)
  show "ring (raw_list_cut_position l head e h) head ys"
    using s assms(2) seg_entry [OF s(1)]
    by (cases xs; cases ys) (auto simp: ring_def raw_list_cut_position_def Let_def seg_append)
qed

lemma ring_list_cut_position:
  assumes "ring h head (xs @ e # ys)" "l \<notin> set (head # xs @ e # ys)"
  shows "ring (list_cut_position l head e h) l (xs @ [e])"
    and "ring (list_cut_position l head e h) head ys"
proof -
  have ne: "\<not> list_empty head h" "e \<noteq> head"
    using assms ring_list_empty [OF assms(1)] by (auto simp: ring_def)
  have "list_is_singular head h \<Longrightarrow> nxt h head = e"
    using ring_list_is_singular [OF assms(1)] ring_nxt [OF assms(1)] by (cases xs) auto
  with ne have "list_cut_position l head e h = raw_list_cut_position l head e h"
    by (auto simp: list_cut_position_def)
  with ring_raw_list_cut_position [OF assms]
  show "ring (list_cut_position l head e h) l (xs @ [e])"
    and "ring (list_cut_position l head e h) head ys" by simp_all
qed

lemma ring_list_cut_position_head:
  assumes "ring h head xs" "xs \<noteq> []" "l \<notin> set (head # xs)"
  shows "ring (list_cut_position l head head h) l []"
    and "ring (list_cut_position l head head h) head xs"
proof -
  have eq: "list_cut_position l head head h = INIT_LIST_HEAD l h"
    using assms ring_list_empty [OF assms(1)] by (auto simp: list_cut_position_def)
  show "ring (list_cut_position l head head h) l []"
    unfolding eq by (rule ring_INIT_LIST_HEAD)
  show "ring (list_cut_position l head head h) head xs"
    unfolding eq using assms
    by (subst ring_cong [of _ _ _ h]) (auto simp: INIT_LIST_HEAD_def)
qed

lemma ring_list_cut_before:
  assumes "ring h head (xs @ e # ys)" "l \<notin> set (head # xs @ e # ys)"
  shows "ring (list_cut_before l head e h) l xs"
    and "ring (list_cut_before l head e h) head (e # ys)"
proof -
  have s: "seg h head (xs @ e # ys) head" "distinct (head # xs @ e # ys)"
    using assms(1) by (auto simp: ring_def)
  show "ring (list_cut_before l head e h) l xs"
  proof (cases xs)
    case Nil
    with s show ?thesis by (auto simp: list_cut_before_def ring_INIT_LIST_HEAD)
  next
    case (Cons x xs')
    with s assms(2) seg_entry [OF s(1)] show ?thesis
      by (cases xs' rule: rev_cases)
        (auto simp: ring_def list_cut_before_def Let_def seg_append)
  qed
  show "ring (list_cut_before l head e h) head (e # ys)"
  proof (cases xs)
    case Nil
    with s assms(2) show ?thesis
      by (auto simp: list_cut_before_def INIT_LIST_HEAD_def ring_def)
  next
    case (Cons x xs')
    with s assms(2) seg_entry [OF s(1)] show ?thesis
      by (cases xs' rule: rev_cases)
        (auto simp: ring_def list_cut_before_def Let_def seg_append)
  qed
qed

section \<open>Locality\<close>

text \<open>
  An operation on one list changes no node outside it, so every other list of the heap
  keeps its entries and their order.
\<close>

definition same_outside :: "addr set \<Rightarrow> list_heap \<Rightarrow> list_heap \<Rightarrow> bool" where
  "same_outside A h h' \<longleftrightarrow> (\<forall>a. a \<notin> A \<longrightarrow> nxt h' a = nxt h a \<and> prv h' a = prv h a)"

lemma ring_same_outside:
  assumes "ring h other zs" "same_outside A h h'" "set (other # zs) \<inter> A = {}"
  shows "ring h' other zs"
  using assms by (subst ring_cong [of _ _ _ h]) (auto simp: same_outside_def)

lemma ring_links_in:
  assumes "ring h head (xs @ e # ys)"
  shows "nxt h e \<in> set (head # xs @ e # ys)" "prv h e \<in> set (head # xs @ e # ys)"
  using assms seg_entry [of h head xs e ys head] unfolding ring_def
  by (cases ys; auto)+

lemma ring_head_links_in:
  assumes "ring h head xs"
  shows "nxt h head \<in> set (head # xs)" "prv h head \<in> set (head # xs)"
  using ring_nxt [OF assms] ring_prv [OF assms] by (cases xs; auto)+

lemma same_outside_list_add:
  assumes "ring h head xs"
  shows "same_outside (set (new # head # xs)) h (list_add new head h)"
    and "same_outside (set (new # head # xs)) h (list_add_tail new head h)"
  using ring_head_links_in [OF assms] by (auto simp: same_outside_def list_op_defs)

lemma same_outside_list_del:
  assumes "ring h head (xs @ e # ys)"
  shows "same_outside (set (head # xs @ e # ys)) h (list_del e h)"
    and "same_outside (set (head # xs @ e # ys)) h (list_del_init e h)"
  using ring_links_in [OF assms] by (auto simp: same_outside_def list_op_defs)

section \<open>Iteration\<close>

lemma seg_for_each:
  assumes "seg h p xs head" "head \<notin> set xs" "length xs < fuel"
  shows "list_for_each fuel h (nxt h p) head = Some xs"
  using assms
proof (induction xs arbitrary: p fuel)
  case Nil
  then show ?case by (cases fuel) auto
next
  case (Cons x xs)
  then show ?case by (cases fuel) auto
qed

lemma ring_for_each:
  assumes "ring h head xs" "length xs < fuel"
  shows "list_for_each fuel h (nxt h head) head = Some xs"
  using assms by (intro seg_for_each) (auto simp: ring_def)

lemma seg_for_each_prev:
  assumes "seg h head xs q" "head \<notin> set xs" "length xs < fuel"
  shows "list_for_each_prev fuel h (prv h q) head = Some (rev xs)"
  using assms
proof (induction xs arbitrary: q fuel rule: rev_induct)
  case Nil
  then show ?case by (cases fuel) auto
next
  case (snoc x xs)
  then obtain f where f: "fuel = Suc f" by (cases fuel) auto
  have "seg h head xs x" "prv h q = x" using snoc.prems(1) by (simp_all add: seg_append)
  with snoc f show ?case by auto
qed

lemma ring_for_each_prev:
  assumes "ring h head xs" "length xs < fuel"
  shows "list_for_each_prev fuel h (prv h head) head = Some (rev xs)"
  using assms by (intro seg_for_each_prev) (auto simp: ring_def)

text \<open>
  The removal loop of the handlers: when the body takes its entry off the list, the safe
  iteration visits every entry once, in order, and ends with the list empty.
\<close>

lemma for_each_safe_drain:
  assumes body: "\<And>e ys h s. ring h head (e # ys) \<Longrightarrow>
      ring (fst (body e (h, s))) head ys \<and> snd (body e (h, s)) = g e s"
    and "ring h head xs" "length xs < fuel"
  shows "\<exists>h'. list_for_each_entry_safe fuel body head (h, s) = Some (h', fold g xs s)
           \<and> ring h' head []"
  using assms(2,3)
proof (induction xs arbitrary: h s fuel)
  case Nil
  then have "nxt h head = head" by (simp add: ring_nxt)
  with Nil show ?case by (cases fuel) (auto simp: list_for_each_entry_safe_def Let_def)
next
  case (Cons x xs)
  then obtain f where f: "fuel = Suc f" by (cases fuel) auto
  have x: "nxt h head = x" "x \<noteq> head"
    using Cons.prems(1) by (auto simp: ring_def)
  obtain h1 s1 where b: "body x (h, s) = (h1, s1)" by (cases "body x (h, s)")
  have r1: "ring h1 head xs" and s1: "s1 = g x s"
    using body [OF Cons.prems(1), of s] b by auto
  have n: "nxt h x = nxt h1 head"
    using Cons.prems(1) r1 by (cases xs) (auto simp: ring_def)
  have "list_for_each_entry_safe fuel body head (h, s) =
      list_for_each_entry_safe f body head (h1, s1)"
    using x b n f by (simp add: list_for_each_entry_safe_def Let_def)
  with Cons.IH [OF r1, of f s1] Cons.prems(2) f s1 show ?case by simp
qed

section \<open>The interface the handlers use\<close>

text \<open>
  The server keeps received work requests and connections on such lists. What it relies
  on: a new entry goes to the front (\<open>list_add\<close>) or the back (\<open>list_add_tail\<close>), a removed
  entry leaves the others in order and is itself an empty list again, the emptiness test is
  exact, and other lists are untouched.
\<close>

locale entry_list =
  fixes holds :: "'h \<Rightarrow> 'a \<Rightarrow> 'a list \<Rightarrow> bool"
    and init :: "'a \<Rightarrow> 'h \<Rightarrow> 'h"
    and add :: "'a \<Rightarrow> 'a \<Rightarrow> 'h \<Rightarrow> 'h"
    and add_tail :: "'a \<Rightarrow> 'a \<Rightarrow> 'h \<Rightarrow> 'h"
    and del_init :: "'a \<Rightarrow> 'h \<Rightarrow> 'h"
    and is_empty :: "'a \<Rightarrow> 'h \<Rightarrow> bool"
  assumes holds_init: "holds (init l h) l []"
    and holds_distinct: "holds h l xs \<Longrightarrow> distinct (l # xs)"
    and holds_add: "holds h l xs \<Longrightarrow> e \<notin> set (l # xs) \<Longrightarrow> holds (add e l h) l (e # xs)"
    and holds_add_tail:
      "holds h l xs \<Longrightarrow> e \<notin> set (l # xs) \<Longrightarrow> holds (add_tail e l h) l (xs @ [e])"
    and holds_del_init: "holds h l (xs @ e # ys) \<Longrightarrow> holds (del_init e h) l (xs @ ys)"
    and holds_del_init_entry: "holds h l (xs @ e # ys) \<Longrightarrow> holds (del_init e h) e []"
    and holds_is_empty: "holds h l xs \<Longrightarrow> is_empty l h \<longleftrightarrow> xs = []"
    and other_add:
      "holds h l xs \<Longrightarrow> holds h l' zs \<Longrightarrow> set (l' # zs) \<inter> set (e # l # xs) = {} \<Longrightarrow>
       holds (add e l h) l' zs"
    and other_del_init:
      "holds h l (xs @ e # ys) \<Longrightarrow> holds h l' zs \<Longrightarrow>
       set (l' # zs) \<inter> set (l # xs @ e # ys) = {} \<Longrightarrow> holds (del_init e h) l' zs"
begin

lemma add_all:
  assumes "holds h l xs" "distinct es" "set es \<inter> set (l # xs) = {}"
  shows "holds (fold (\<lambda>e. add e l) es h) l (rev es @ xs)"
  using assms
proof (induction es arbitrary: h xs)
  case Nil
  then show ?case by simp
next
  case (Cons e es)
  then have "holds (add e l h) l (e # xs)" by (intro holds_add) auto
  from Cons.IH [OF this] Cons.prems show ?case by auto
qed

lemma add_tail_all:
  assumes "holds h l xs" "distinct es" "set es \<inter> set (l # xs) = {}"
  shows "holds (fold (\<lambda>e. add_tail e l) es h) l (xs @ es)"
  using assms
proof (induction es arbitrary: h xs)
  case Nil
  then show ?case by simp
next
  case (Cons e es)
  then have "holds (add_tail e l h) l (xs @ [e])" by (intro holds_add_tail) auto
  from Cons.IH [OF this] Cons.prems show ?case by auto
qed

lemma del_all: "holds h l (es @ xs) \<Longrightarrow> holds (fold del_init es h) l xs"
proof (induction es arbitrary: h)
  case Nil
  then show ?case by simp
next
  case (Cons e es)
  then have "holds (del_init e h) l ([] @ es @ xs)" by (intro holds_del_init) simp
  with Cons.IH show ?case by simp
qed

lemma add_del: "holds h l xs \<Longrightarrow> e \<notin> set (l # xs) \<Longrightarrow> holds (del_init e (add e l h)) l xs"
  using holds_add holds_del_init [of "add e l h" l "[]" e xs] by simp

end

interpretation rings: entry_list ring INIT_LIST_HEAD list_add list_add_tail list_del_init list_empty
proof unfold_locales
  fix h l xs e l' zs
  show "ring h l xs \<Longrightarrow> ring h l' zs \<Longrightarrow> set (l' # zs) \<inter> set (e # l # xs) = {} \<Longrightarrow>
      ring (list_add e l h) l' zs"
    using ring_same_outside [OF _ same_outside_list_add(1)] by blast
next
  fix h l xs e ys l' zs
  show "ring h l (xs @ e # ys) \<Longrightarrow> ring h l' zs \<Longrightarrow> set (l' # zs) \<inter> set (l # xs @ e # ys) = {} \<Longrightarrow>
      ring (list_del_init e h) l' zs"
    using ring_same_outside [OF _ same_outside_list_del(2)] by blast
qed (fact ring_INIT_LIST_HEAD ring_distinct ring_list_add ring_list_add_tail
      ring_list_del_init ring_list_empty)+

section \<open>The list's main properties\<close>

text \<open>A ring of two entries, for the examples.\<close>

definition ex_ring :: list_heap where
  "ex_ring = list_add_tail 3 1 (list_add_tail 2 1 (INIT_LIST_HEAD 1 \<lparr>nxt = (\<lambda>_. 0), prv = (\<lambda>_. 0)\<rparr>))"

lemma ex_ring: "ring ex_ring 1 [2, 3]"
  unfolding ex_ring_def
  using ring_list_add_tail [OF ring_list_add_tail [OF ring_INIT_LIST_HEAD]] by simp

text \<open>
  \<open>list_cut_position\<close> moves the entries up to \<open>e\<close> onto the list \<open>l\<close> and keeps the others,
  both in their order, and \<open>list_splice_init\<close> puts them back: the list is what it was and \<open>l\<close>
  is empty.
\<close>

theorem cut_then_splice:
  assumes "ring h head (xs @ e # ys)" "l \<notin> set (head # xs @ e # ys)"
  shows "let h1 = list_cut_position l head e h; h2 = list_splice_init l head h1
    in ring h1 l (xs @ [e]) \<and> ring h1 head ys \<and> ring h2 head (xs @ e # ys) \<and> ring h2 l []"
proof -
  let ?h1 = "list_cut_position l head e h"
  have c: "ring ?h1 l (xs @ [e])" "ring ?h1 head ys"
    using ring_list_cut_position [OF assms(1,2)] by blast+
  have "set (l # xs @ [e]) \<inter> set (head # ys) = {}"
    using assms(2) ring_distinct [OF assms(1)] by auto
  from ring_list_splice [OF c this] c show ?thesis by (simp add: Let_def)
qed

theorem cut_then_splice_witness:
  "ring (list_splice_init 9 1 (list_cut_position 9 1 2 ex_ring)) 1 [2, 3]"
  using cut_then_splice [of ex_ring 1 "[]" 2 "[3]" 9] ex_ring by (simp add: Let_def)

text \<open>
  The loop that the program uses to empty its lists (\<open>list_for_each_entry_safe\<close> with
  \<open>list_del_init\<close> of the entry in its body) visits every entry once, in the list's order, ends
  after as many rounds as there are entries, and leaves the list empty.
\<close>

theorem safe_loop_drains:
  assumes "ring h head xs"
  shows "\<exists>h'. list_for_each_entry_safe (length xs + 1) (\<lambda>e (h, seen). (list_del_init e h, seen @ [e]))
      head (h, []) = Some (h', xs) \<and> ring h' head []"
proof -
  let ?body = "\<lambda>e (h, seen). (list_del_init e h, seen @ [e])"
  have "\<exists>h'. list_for_each_entry_safe (length xs + 1) ?body head (h, []) =
      Some (h', fold (\<lambda>e seen. seen @ [e]) xs []) \<and> ring h' head []"
    using ring_list_del_init(1) [of _ head "[]"] assms by (intro for_each_safe_drain) auto
  moreover have "fold (\<lambda>e seen. seen @ [e]) xs zs = zs @ xs" for zs
    by (induction xs arbitrary: zs) auto
  ultimately show ?thesis by simp
qed

theorem safe_loop_drains_witness:
  "\<exists>h'. list_for_each_entry_safe 3 (\<lambda>e (h, seen). (list_del_init e h, seen @ [e])) 1 (ex_ring, []) =
     Some (h', [2, 3]) \<and> ring h' 1 []"
  using safe_loop_drains [OF ex_ring] by (simp add: eval_nat_numeral)

text \<open>
  Appending a batch of fresh entries to a list one at a time and then unlinking the ones
  that were there before leaves exactly the batch, in order.
\<close>

theorem append_then_unlink:
  assumes "ring h head xs" "distinct es" "set es \<inter> set (head # xs) = {}"
  shows "ring (fold list_del_init xs (fold (\<lambda>e. list_add_tail e head) es h)) head es"
  using rings.del_all [OF rings.add_tail_all [OF assms]] .

theorem append_then_unlink_witness:
  "ring (fold list_del_init [2, 3] (fold (\<lambda>e. list_add_tail e 1) [5, 6] ex_ring)) 1 [5, 6]"
  by (rule append_then_unlink [OF ex_ring]) simp_all

end
