(* ===== verification/Hlist.thy ===== *)
theory Hlist
  imports List_Head
begin

text \<open>
  The hash lists of \<open>include/list_head.h\<close>: a head with one pointer, and nodes whose \<open>pprev\<close> points
  to the pointer that points to them. Both \<open>first\<close> of a head and \<open>next\<close> of a node are the
  first field, so the address of the field is that of the struct, and one function holds the
  cells of heads and nodes alike.

  \<open>hlist h head xs\<close> says that in heap \<open>h\<close> the nodes \<open>xs\<close> hang under \<open>head\<close> in this order. The lemmas
  show which operation on the HOL list each operation implements.
\<close>

section \<open>The operations\<close>

record hlist_heap =
  h_next :: "addr \<Rightarrow> addr"
  h_pprev :: "addr \<Rightarrow> addr"

definition set_next :: "addr \<Rightarrow> addr \<Rightarrow> hlist_heap \<Rightarrow> hlist_heap" where
  "set_next a v h = h\<lparr>h_next := (h_next h)(a := v)\<rparr>"

definition set_pprev :: "addr \<Rightarrow> addr \<Rightarrow> hlist_heap \<Rightarrow> hlist_heap" where
  "set_pprev a v h = h\<lparr>h_pprev := (h_pprev h)(a := v)\<rparr>"

definition INIT_HLIST_HEAD :: "addr \<Rightarrow> hlist_heap \<Rightarrow> hlist_heap" where
  "INIT_HLIST_HEAD p h = set_next p NULL h"

definition INIT_HLIST_NODE :: "addr \<Rightarrow> hlist_heap \<Rightarrow> hlist_heap" where
  "INIT_HLIST_NODE n h = set_pprev n NULL (set_next n NULL h)"

definition hlist_unhashed :: "addr \<Rightarrow> hlist_heap \<Rightarrow> bool" where
  "hlist_unhashed n h \<longleftrightarrow> h_pprev h n = NULL"

definition hlist_empty :: "addr \<Rightarrow> hlist_heap \<Rightarrow> bool" where
  "hlist_empty p h \<longleftrightarrow> h_next h p = NULL"

definition raw_hlist_del :: "addr \<Rightarrow> hlist_heap \<Rightarrow> hlist_heap" where
  "raw_hlist_del n h =
     (let nx = h_next h n; pprev = h_pprev h n;
          h1 = set_next pprev nx h
      in if nx \<noteq> NULL then set_pprev nx pprev h1 else h1)"

definition hlist_del :: "addr \<Rightarrow> hlist_heap \<Rightarrow> hlist_heap" where
  "hlist_del n h = set_pprev n LIST_POISON2 (set_next n LIST_POISON1 (raw_hlist_del n h))"

definition hlist_del_init :: "addr \<Rightarrow> hlist_heap \<Rightarrow> hlist_heap" where
  "hlist_del_init n h =
     (if \<not> hlist_unhashed n h then INIT_HLIST_NODE n (raw_hlist_del n h) else h)"

definition hlist_add_head :: "addr \<Rightarrow> addr \<Rightarrow> hlist_heap \<Rightarrow> hlist_heap" where
  "hlist_add_head n p h =
     (let first = h_next h p;
          h1 = set_next n first h;
          h2 = (if first \<noteq> NULL then set_pprev first n h1 else h1);
          h3 = set_next p n h2
      in set_pprev n p h3)"

definition hlist_add_before :: "addr \<Rightarrow> addr \<Rightarrow> hlist_heap \<Rightarrow> hlist_heap" where
  "hlist_add_before n nx h =
     (let h1 = set_pprev n (h_pprev h nx) h;
          h2 = set_next n nx h1;
          h3 = set_pprev nx n h2
      in set_next (h_pprev h3 n) n h3)"

definition hlist_add_behind :: "addr \<Rightarrow> addr \<Rightarrow> hlist_heap \<Rightarrow> hlist_heap" where
  "hlist_add_behind n pv h =
     (let h1 = set_next n (h_next h pv) h;
          h2 = set_next pv n h1;
          h3 = set_pprev n pv h2
      in if h_next h3 n \<noteq> NULL then set_pprev (h_next h3 n) n h3 else h3)"

definition hlist_add_fake :: "addr \<Rightarrow> hlist_heap \<Rightarrow> hlist_heap" where
  "hlist_add_fake n h = set_pprev n n h"

definition hlist_fake :: "addr \<Rightarrow> hlist_heap \<Rightarrow> bool" where
  "hlist_fake n h \<longleftrightarrow> h_pprev h n = n"

definition hlist_is_singular_node :: "addr \<Rightarrow> addr \<Rightarrow> hlist_heap \<Rightarrow> bool" where
  "hlist_is_singular_node n p h \<longleftrightarrow> h_next h n = NULL \<and> h_pprev h n = p"

definition hlist_move_list :: "addr \<Rightarrow> addr \<Rightarrow> hlist_heap \<Rightarrow> hlist_heap" where
  "hlist_move_list old new h =
     (let h1 = set_next new (h_next h old) h;
          h2 = (if h_next h1 new \<noteq> NULL then set_pprev (h_next h1 new) new h1 else h1)
      in set_next old NULL h2)"

text \<open>
  \<open>hlist_for_each\<close> and its entry form follow \<open>next\<close> until NULL; the safe form reads it before
  the body runs. \<open>fuel\<close> bounds the rounds; None is a walk that does not end within it.
\<close>

fun hlist_for_each :: "nat \<Rightarrow> addr \<Rightarrow> hlist_heap \<Rightarrow> addr list option" where
  "hlist_for_each fuel pos h =
     (if pos = NULL then Some []
      else case fuel of
             0 \<Rightarrow> None
           | Suc f \<Rightarrow> map_option ((#) pos) (hlist_for_each f (h_next h pos) h))"

declare hlist_for_each.simps [simp del]

fun hlist_for_each_safe ::
  "nat \<Rightarrow> (addr \<Rightarrow> hlist_heap \<Rightarrow> hlist_heap) \<Rightarrow> addr \<Rightarrow> hlist_heap \<Rightarrow> (addr list \<times> hlist_heap) option"
  where
  "hlist_for_each_safe fuel body pos h =
     (if pos = NULL then Some ([], h)
      else case fuel of
             0 \<Rightarrow> None
           | Suc f \<Rightarrow>
               let n = h_next h pos
               in map_option (\<lambda>(xs, h'). (pos # xs, h')) (hlist_for_each_safe f body n (body pos h)))"

declare hlist_for_each_safe.simps [simp del]

section \<open>The list a head stands for\<close>

text \<open>\<open>xs\<close> hang one after the other under the cell \<open>p\<close>; \<open>q\<close> is the cell behind the last.\<close>

fun hseg :: "hlist_heap \<Rightarrow> addr \<Rightarrow> addr list \<Rightarrow> addr \<Rightarrow> bool" where
  "hseg h p [] q \<longleftrightarrow> q = p"
| "hseg h p (x # xs) q \<longleftrightarrow> h_next h p = x \<and> x \<noteq> NULL \<and> h_pprev h x = p \<and> hseg h x xs q"

definition hlist :: "hlist_heap \<Rightarrow> addr \<Rightarrow> addr list \<Rightarrow> bool" where
  "hlist h p xs \<longleftrightarrow> (\<exists>q. hseg h p xs q \<and> h_next h q = NULL) \<and> distinct (p # xs) \<and> p \<noteq> NULL"

lemma hlistI: "hseg h p xs q \<Longrightarrow> h_next h q = NULL \<Longrightarrow> distinct (p # xs) \<Longrightarrow> p \<noteq> NULL \<Longrightarrow> hlist h p xs"
  unfolding hlist_def by blast

lemma set_next_simps [simp]:
  "h_next (set_next a v h) = (h_next h)(a := v)" "h_pprev (set_next a v h) = h_pprev h"
  "h_pprev (set_pprev a v h) = (h_pprev h)(a := v)" "h_next (set_pprev a v h) = h_next h"
  by (simp_all add: set_next_def set_pprev_def)

lemma hseg_append: "hseg h p (xs @ ys) q \<longleftrightarrow> (\<exists>r. hseg h p xs r \<and> hseg h r ys q)"
  by (induction xs arbitrary: p) auto

lemma hseg_end: "hseg h p xs q \<Longrightarrow> q \<in> set (p # xs)"
  by (induction xs arbitrary: p) auto

lemma hseg_cong:
  "hseg h p xs q \<Longrightarrow> distinct (p # xs) \<Longrightarrow> \<forall>a \<in> set (p # xs). a \<noteq> q \<longrightarrow> h_next h' a = h_next h a \<Longrightarrow>
   \<forall>x \<in> set xs. h_pprev h' x = h_pprev h x \<Longrightarrow> hseg h' p xs q"
proof (induction xs arbitrary: p)
  case (Cons x xs)
  then have "p \<noteq> q" using hseg_end [of h x xs q] by auto
  then show ?case using Cons by auto
qed simp

lemma hlist_split:
  "hlist h p (ys @ x # zs) \<longleftrightarrow>
     (\<exists>r q. hseg h p ys r \<and> h_next h r = x \<and> x \<noteq> NULL \<and> h_pprev h x = r
        \<and> hseg h x zs q \<and> h_next h q = NULL) \<and> distinct (p # ys @ x # zs) \<and> p \<noteq> NULL"
  by (auto simp: hlist_def hseg_append)

lemma hlist_splitE:
  assumes "hlist h p (ys @ x # zs)"
  obtains r q where "hseg h p ys r" "h_next h r = x" "x \<noteq> NULL" "h_pprev h x = r" "hseg h x zs q"
    "h_next h q = NULL" "distinct (p # ys @ x # zs)" "p \<noteq> NULL" "r \<in> set (p # ys)" "q \<in> set (x # zs)"
  using assms hseg_end unfolding hlist_split by metis

lemma hlist_nonnull: "hlist h p xs \<Longrightarrow> NULL \<notin> set (p # xs)"
proof -
  have "hseg h p xs q \<Longrightarrow> NULL \<notin> set xs" for p q by (induction xs arbitrary: p) auto
  then show "hlist h p xs \<Longrightarrow> NULL \<notin> set (p # xs)" by (auto simp: hlist_def)
qed

lemma hlist_first: "hlist h p xs \<Longrightarrow> h_next h p = (case xs of [] \<Rightarrow> NULL | x # _ \<Rightarrow> x)"
  by (auto simp: hlist_def split: list.split)

lemma hlist_frame:
  assumes "hlist h p xs" "\<forall>a \<in> set (p # xs). h_next h' a = h_next h a" "\<forall>x \<in> set xs. h_pprev h' x = h_pprev h x"
  shows "hlist h' p xs"
proof -
  obtain q where q: "hseg h p xs q" "h_next h q = NULL" using assms(1) by (auto simp: hlist_def)
  have "hseg h' p xs q" using assms q by (intro hseg_cong [OF q(1)]) (auto simp: hlist_def)
  moreover have "h_next h' q = NULL" using assms(2) hseg_end [OF q(1)] q(2) by auto
  ultimately show ?thesis using assms(1) by (auto simp: hlist_def)
qed

section \<open>What the operations do to it\<close>

lemma hlist_INIT: "p \<noteq> NULL \<Longrightarrow> hlist (INIT_HLIST_HEAD p h) p []"
  by (simp add: hlist_def INIT_HLIST_HEAD_def)

lemma hlist_empty_iff: "hlist h p xs \<Longrightarrow> hlist_empty p h \<longleftrightarrow> xs = []"
  by (auto simp: hlist_empty_def hlist_first dest: hlist_nonnull split: list.split)

lemma hlist_unhashed_node:
  assumes "hlist h p xs" "x \<in> set xs"
  shows "\<not> hlist_unhashed x h"
proof -
  obtain ys zs where xs: "xs = ys @ x # zs" using assms(2) by (auto simp: in_set_conv_decomp)
  obtain r where "h_pprev h x = r" "r \<in> set (p # ys)" using assms(1) unfolding xs by (rule hlist_splitE)
  then show ?thesis using hlist_nonnull [OF assms(1)] by (auto simp: hlist_unhashed_def xs)
qed

lemma hlist_singular_node:
  assumes "hlist h p xs" "x \<in> set xs"
  shows "hlist_is_singular_node x p h \<longleftrightarrow> xs = [x]"
proof -
  obtain ys zs where xs: "xs = ys @ x # zs" using assms(2) by (auto simp: in_set_conv_decomp)
  obtain r q where s: "hseg h p ys r" "h_pprev h x = r" "hseg h x zs q" "h_next h q = NULL"
      "distinct (p # ys @ x # zs)" using assms(1) unfolding xs by (rule hlist_splitE)
  have "h_next h x = NULL \<longleftrightarrow> zs = []" using s(3,4) by (cases zs) auto
  moreover have "r = p \<longleftrightarrow> ys = []"
  proof (cases ys)
    case (Cons y ys')
    then have "r \<in> set ys" using s(1) hseg_end [of h y ys' r] by simp
    then show ?thesis using s(5) Cons by auto
  qed (use s(1) in simp)
  ultimately show ?thesis using s(2) by (auto simp: hlist_is_singular_node_def xs append_eq_Cons_conv)
qed

text \<open>Unlinking a node joins what is before and behind it.\<close>

lemma hlist_raw_del:
  assumes "hlist h p (ys @ x # zs)"
  shows "hlist (raw_hlist_del x h) p (ys @ zs)"
proof -
  obtain r q where s: "hseg h p ys r" "h_pprev h x = r" "hseg h x zs q" "h_next h q = NULL" "p \<noteq> NULL"
      "distinct (p # ys @ x # zs)" "r \<in> set (p # ys)" using assms by (rule hlist_splitE)
  show ?thesis
  proof (cases zs)
    case Nil
    then have eq: "raw_hlist_del x h = set_next r NULL h" using s(2-4) by (simp add: raw_hlist_del_def)
    have "hseg (set_next r NULL h) p ys r" using s(6) by (intro hseg_cong [OF s(1)]) auto
    then show ?thesis using Nil s by (auto simp: hlist_def eq)
  next
    case (Cons z zs')
    have z: "h_next h x = z" "z \<noteq> NULL" "hseg h z zs' q" using s(3) Cons by auto
    have q: "q \<in> set (z # zs')" using z(3) by (rule hseg_end)
    let ?h = "set_pprev z r (set_next r z h)"
    have eq: "raw_hlist_del x h = ?h" using z s(2) by (simp add: raw_hlist_del_def Let_def)
    have "hseg ?h p ys r" using s(6) Cons by (intro hseg_cong [OF s(1)]) auto
    moreover have "hseg ?h z zs' q" using s(6,7) Cons by (intro hseg_cong [OF z(3)]) auto
    moreover have "h_next ?h q = NULL" using s(4,6,7) q Cons by auto
    ultimately have "hlist ?h p (ys @ z # zs')"
      unfolding hlist_split using s(5,6) z Cons by (intro conjI exI [of _ r] exI [of _ q]) auto
    then show ?thesis by (simp add: eq Cons)
  qed
qed

lemma hlist_del_list: "hlist h p (ys @ x # zs) \<Longrightarrow> hlist (hlist_del x h) p (ys @ zs)"
proof -
  assume h: "hlist h p (ys @ x # zs)"
  have "x \<notin> set (p # ys @ zs)" using h by (auto simp: hlist_def)
  then show ?thesis unfolding hlist_del_def by (intro hlist_frame [OF hlist_raw_del [OF h]]) auto
qed

lemma hlist_del_init_list:
  "hlist h p (ys @ x # zs) \<Longrightarrow> hlist (hlist_del_init x h) p (ys @ zs) \<and> hlist_unhashed x (hlist_del_init x h)"
proof -
  assume h: "hlist h p (ys @ x # zs)"
  have "x \<notin> set (p # ys @ zs)" using h by (auto simp: hlist_def)
  then have "hlist (INIT_HLIST_NODE x (raw_hlist_del x h)) p (ys @ zs)"
    unfolding INIT_HLIST_NODE_def by (intro hlist_frame [OF hlist_raw_del [OF h]]) auto
  then show ?thesis
    using hlist_unhashed_node [OF h] by (simp add: hlist_del_init_def INIT_HLIST_NODE_def hlist_unhashed_def)
qed

text \<open>A fresh node is put at the head, before a node, or behind one.\<close>

lemma hlist_add_head_list:
  assumes "hlist h p xs" "n \<notin> set (p # xs)" "n \<noteq> NULL"
  shows "hlist (hlist_add_head n p h) p (n # xs)"
proof (cases xs)
  case Nil
  then show ?thesis using assms by (simp add: hlist_add_head_def hlist_def Let_def)
next
  case (Cons x zs)
  then obtain q where s: "h_next h p = x" "x \<noteq> NULL" "hseg h x zs q" "h_next h q = NULL" "p \<noteq> NULL"
      "distinct (p # x # zs)" using assms(1) by (auto simp: hlist_def)
  let ?h = "hlist_add_head n p h"
  have n: "h_next ?h = (h_next h)(n := x, p := n)" "h_pprev ?h = (h_pprev h)(x := n, n := p)"
    using s(1,2) by (simp_all add: hlist_add_head_def Let_def)
  have "hseg ?h x zs q" using assms(2) s(6) Cons by (intro hseg_cong [OF s(3)]) (auto simp: n)
  moreover have "h_next ?h q = NULL" using hseg_end [OF s(3)] s(4,6) assms(2) Cons by (auto simp: n)
  moreover have "h_next ?h p = n" "h_next ?h n = x" "h_pprev ?h n = p" "h_pprev ?h x = n"
    using s(6) assms(2) Cons by (auto simp: n)
  ultimately show ?thesis using s(2,5,6) assms(2,3) Cons by (intro hlistI [where q = q]) auto
qed

lemma hlist_add_before_list:
  assumes "hlist h p (ys @ x # zs)" "n \<notin> set (p # ys @ x # zs)" "n \<noteq> NULL"
  shows "hlist (hlist_add_before n x h) p (ys @ n # x # zs)"
proof -
  let ?h = "hlist_add_before n x h"
  obtain r q where s: "hseg h p ys r" "h_pprev h x = r" "x \<noteq> NULL" "hseg h x zs q" "h_next h q = NULL" "p \<noteq> NULL"
      "distinct (p # ys @ x # zs)" "r \<in> set (p # ys)" "q \<in> set (x # zs)" using assms(1) by (rule hlist_splitE)
  have nx: "n \<noteq> x" using assms(2) by auto
  have h: "h_next ?h = (h_next h)(n := x, r := n)" "h_pprev ?h = (h_pprev h)(n := r, x := n)"
    using s(2) nx by (simp_all add: hlist_add_before_def Let_def)
  have "hseg ?h p ys r" using assms(2) s(7) by (intro hseg_cong [OF s(1)]) (auto simp: h)
  moreover have "hseg ?h x zs q" using assms(2) s(7,8) by (intro hseg_cong [OF s(4)]) (auto simp: h)
  moreover have "h_next ?h q = NULL" "h_next ?h r = n" "h_next ?h n = x" "h_pprev ?h n = r" "h_pprev ?h x = n"
    using s(5,7-9) assms(2) nx by (auto simp: h)
  ultimately show ?thesis
    unfolding hlist_split using s(3,6,7) assms(2,3) by (intro conjI exI [of _ r] exI [of _ q]) auto
qed

lemma hlist_add_behind_list:
  assumes "hlist h p (ys @ x # zs)" "n \<notin> set (p # ys @ x # zs)" "n \<noteq> NULL"
  shows "hlist (hlist_add_behind n x h) p (ys @ x # n # zs)"
proof -
  let ?h = "hlist_add_behind n x h"
  obtain r q where s: "hseg h p ys r" "h_next h r = x" "h_pprev h x = r" "x \<noteq> NULL" "hseg h x zs q"
      "h_next h q = NULL" "p \<noteq> NULL" "distinct (p # ys @ x # zs)" "r \<in> set (p # ys)"
    using assms(1) by (rule hlist_splitE)
  have nx: "n \<noteq> x" using assms(2) by auto
  have h: "h_next ?h = (h_next h)(n := h_next h x, x := n)"
    "h_pprev ?h = (if h_next h x \<noteq> NULL then (h_pprev h)(n := x, h_next h x := n) else (h_pprev h)(n := x))"
    using nx by (simp_all add: hlist_add_behind_def Let_def)
  have zx: "h_next h x = (case zs of [] \<Rightarrow> NULL | z # _ \<Rightarrow> z)" using s(5,6) by (cases zs) auto
  have xz: "h_next h x \<notin> set (p # x # n # ys)" if "h_next h x \<noteq> NULL"
    using that s(8) assms(2) by (auto simp: zx split: list.splits)
  have "hseg ?h p ys r" using assms(2) s(8) xz by (intro hseg_cong [OF s(1)]) (auto simp: h)
  moreover have "\<exists>q. hseg ?h n zs q \<and> h_next ?h q = NULL"
  proof (cases zs)
    case Nil
    then show ?thesis using nx by (simp add: h zx)
  next
    case (Cons z zs')
    have z: "hseg h z zs' q" "z \<noteq> NULL" using s(5) Cons by auto
    have "hseg ?h z zs' q" using assms(2) s(8) Cons z(2) by (intro hseg_cong [OF z(1)]) (auto simp: h zx)
    moreover have "h_next ?h q = NULL" using hseg_end [OF z(1)] s(6,8) assms(2) Cons by (auto simp: h)
    moreover have "h_next ?h n = z" "h_pprev ?h z = n" using z(2) Cons nx by (simp_all add: h zx)
    ultimately show ?thesis using z(2) Cons by (intro exI [of _ q]) simp
  qed
  moreover have "h_next ?h r = x" "h_next ?h x = n" using s(2,8,9) assms(2) nx by (auto simp: h)
  moreover have "h_pprev ?h x = r" "h_pprev ?h n = x" using s(3) nx xz by (auto simp: h)
  ultimately obtain q' where "hseg ?h p (ys @ x # n # zs) q'" "h_next ?h q' = NULL"
    unfolding hseg_append using s(4) assms(3) by auto
  then show ?thesis using s(7,8) assms(2) by (intro hlistI) auto
qed

lemma hlist_move_list_moves:
  assumes "hlist h old xs" "new \<noteq> NULL" "new \<notin> set (old # xs)"
  shows "hlist (hlist_move_list old new h) new xs" "hlist (hlist_move_list old new h) old []"
proof -
  let ?h = "hlist_move_list old new h"
  have o: "old \<noteq> NULL" using assms(1) by (simp add: hlist_def)
  show "hlist ?h old []" using o by (simp add: hlist_move_list_def hlist_def Let_def)
  show "hlist ?h new xs"
  proof (cases xs)
    case Nil
    then show ?thesis using assms by (auto simp: hlist_move_list_def hlist_def Let_def)
  next
    case (Cons x zs)
    then obtain q where s: "h_next h old = x" "x \<noteq> NULL" "hseg h x zs q" "h_next h q = NULL" "distinct (old # x # zs)"
      using assms(1) by (auto simp: hlist_def)
    have h: "h_next ?h = (h_next h)(new := x, old := NULL)" "h_pprev ?h = (h_pprev h)(x := new)"
      using s(1,2) by (simp_all add: hlist_move_list_def Let_def)
    have "hseg ?h x zs q" using assms(3) s(5) Cons by (intro hseg_cong [OF s(3)]) (auto simp: h)
    moreover have "h_next ?h q = NULL" using hseg_end [OF s(3)] s(4,5) assms(3) Cons by (auto simp: h)
    moreover have "h_next ?h new = x" "h_pprev ?h x = new" using s(5) assms(3) Cons by (auto simp: h)
    ultimately show ?thesis using s(2,5) assms(2,3) Cons by (intro hlistI [where q = q]) simp_all
  qed
qed

section \<open>Walking\<close>

text \<open>A walk visits the nodes in order and ends after as many rounds as there are nodes.\<close>

lemma hlist_for_each_list:
  assumes "hlist h p xs" "length xs \<le> fuel"
  shows "hlist_for_each fuel (h_next h p) h = Some xs"
proof -
  have "hseg h p xs q \<Longrightarrow> h_next h q = NULL \<Longrightarrow> length xs \<le> fuel \<Longrightarrow>
      hlist_for_each fuel (h_next h p) h = Some xs" for q
  proof (induction xs arbitrary: p fuel)
    case Nil
    then show ?case by (simp add: hlist_for_each.simps)
  next
    case (Cons x xs)
    obtain f where f: "fuel = Suc f" using Cons.prems(3) by (cases fuel) auto
    have "hlist_for_each f (h_next h x) h = Some xs" using Cons f by (intro Cons.IH) auto
    then show ?case using Cons.prems(1) by (simp add: hlist_for_each.simps [of _ x] f)
  qed
  then show ?thesis using assms by (auto simp: hlist_def)
qed

text \<open>The safe walk lets its body unlink the node it is at.\<close>

lemma hlist_safe_drain:
  "hlist h p xs \<Longrightarrow> length xs \<le> fuel \<Longrightarrow>
   \<exists>h'. hlist_for_each_safe fuel hlist_del_init (h_next h p) h = Some (xs, h') \<and> hlist h' p []"
proof (induction xs arbitrary: h fuel)
  case Nil
  then show ?case by (simp add: hlist_first hlist_for_each_safe.simps [of _ _ NULL])
next
  case (Cons x xs)
  obtain f where f: "fuel = Suc f" using Cons.prems(2) by (cases fuel) auto
  let ?h = "hlist_del_init x h"
  have h': "hlist ?h p xs" using hlist_del_init_list [of h p "[]" x xs] Cons.prems(1) by simp
  then obtain h1 where h1: "hlist_for_each_safe f hlist_del_init (h_next ?h p) ?h = Some (xs, h1)" "hlist h1 p []"
    using Cons.IH Cons.prems(2) f by fastforce
  have x: "h_next h p = x" "x \<noteq> NULL" using Cons.prems(1) by (auto simp: hlist_def)
  have "h_next h x = h_next ?h p"
    using hlist_first [OF h'] Cons.prems(1) by (cases xs) (auto simp: hlist_def)
  then show ?case using h1 x by (simp add: hlist_for_each_safe.simps [of _ _ x] f)
qed

section \<open>Hash lists by entry\<close>

definition hlist_entry :: "addr \<Rightarrow> addr \<Rightarrow> addr" where "hlist_entry off ptr = ptr - off"

definition hlist_entry_safe :: "addr \<Rightarrow> addr \<Rightarrow> addr" where
  "hlist_entry_safe off ptr = (if ptr \<noteq> NULL then hlist_entry off ptr else NULL)"

text \<open>These loops end at a NULL object, not at a head.\<close>

fun hlist_entry_walk :: "nat \<Rightarrow> addr \<Rightarrow> hlist_heap \<Rightarrow> addr \<Rightarrow> addr list option" where
  "hlist_entry_walk fuel off h pos =
     (if pos = NULL then Some []
      else case fuel of
             0 \<Rightarrow> None
           | Suc f \<Rightarrow> map_option ((#) pos) (hlist_entry_walk f off h (hlist_entry_safe off (h_next h (pos + off)))))"

declare hlist_entry_walk.simps [simp del]

definition hlist_for_each_entry :: "nat \<Rightarrow> addr \<Rightarrow> hlist_heap \<Rightarrow> addr \<Rightarrow> addr list option" where
  "hlist_for_each_entry fuel off h head = hlist_entry_walk fuel off h (hlist_entry_safe off (h_next h head))"

definition hlist_for_each_entry_continue :: "nat \<Rightarrow> addr \<Rightarrow> hlist_heap \<Rightarrow> addr \<Rightarrow> addr list option" where
  "hlist_for_each_entry_continue fuel off h pos =
     hlist_entry_walk fuel off h (hlist_entry_safe off (h_next h (pos + off)))"

definition hlist_for_each_entry_from :: "nat \<Rightarrow> addr \<Rightarrow> hlist_heap \<Rightarrow> addr \<Rightarrow> addr list option" where
  "hlist_for_each_entry_from fuel off h pos = hlist_entry_walk fuel off h pos"

fun hlist_entry_safe_walk ::
  "nat \<Rightarrow> addr \<Rightarrow> (addr \<Rightarrow> hlist_heap \<Rightarrow> hlist_heap) \<Rightarrow> addr \<Rightarrow> hlist_heap \<Rightarrow> (addr list \<times> hlist_heap) option"
  where
  "hlist_entry_safe_walk fuel off body pos h =
     (if pos = NULL then Some ([], h)
      else case fuel of
             0 \<Rightarrow> None
           | Suc f \<Rightarrow>
               let n = h_next h (pos + off)
               in map_option (\<lambda>(xs, h'). (pos # xs, h'))
                    (hlist_entry_safe_walk f off body (hlist_entry_safe off n) (body pos h)))"

declare hlist_entry_safe_walk.simps [simp del]

definition hlist_for_each_entry_safe ::
  "nat \<Rightarrow> addr \<Rightarrow> (addr \<Rightarrow> hlist_heap \<Rightarrow> hlist_heap) \<Rightarrow> addr \<Rightarrow> hlist_heap \<Rightarrow> (addr list \<times> hlist_heap) option"
  where
  "hlist_for_each_entry_safe fuel off body head h =
     hlist_entry_safe_walk fuel off body (hlist_entry_safe off (h_next h head)) h"

text \<open>
  An object must not start at NULL: a node whose offset puts it there would end the walk. With
  that, the entry loops are the node loops.
\<close>

lemma hlist_entry_walk_node:
  "hlist_for_each fuel p h = Some xs \<Longrightarrow> off \<notin> set xs \<Longrightarrow>
   hlist_entry_walk fuel off h (hlist_entry_safe off p) = Some (map (hlist_entry off) xs)"
proof (induction fuel arbitrary: p xs)
  case 0
  then show ?case
    by (cases "p = NULL") (simp_all add: hlist_for_each.simps hlist_entry_walk.simps hlist_entry_safe_def)
next
  case (Suc fuel)
  show ?case
  proof (cases "p = NULL")
    case True
    then show ?thesis
      using Suc.prems by (simp add: hlist_for_each.simps hlist_entry_walk.simps hlist_entry_safe_def)
  next
    case False
    then obtain rest where r: "xs = p # rest" "hlist_for_each fuel (h_next h p) h = Some rest"
      using Suc.prems(1) by (auto simp: hlist_for_each.simps [of _ p])
    have "p - off \<noteq> NULL" using Suc.prems(2) r(1) by auto
    then show ?thesis
      using Suc.IH [OF r(2)] Suc.prems(2) r(1) False
      by (simp add: hlist_entry_walk.simps [of _ _ _ "p - off"] hlist_entry_safe_def [of _ p] hlist_entry_def)
  qed
qed

lemma hlist_entry_safe_walk_node:
  "hlist_for_each_safe fuel (\<lambda>p. body (hlist_entry off p)) p h = Some (xs, h') \<Longrightarrow> off \<notin> set xs \<Longrightarrow>
   hlist_entry_safe_walk fuel off body (hlist_entry_safe off p) h = Some (map (hlist_entry off) xs, h')"
proof (induction fuel arbitrary: p xs h)
  case 0
  then show ?case
    by (cases "p = NULL") (simp_all add: hlist_for_each_safe.simps hlist_entry_safe_walk.simps hlist_entry_safe_def)
next
  case (Suc fuel)
  show ?case
  proof (cases "p = NULL")
    case True
    then show ?thesis
      using Suc.prems by (simp add: hlist_for_each_safe.simps hlist_entry_safe_walk.simps hlist_entry_safe_def)
  next
    case False
    then obtain rest where r: "xs = p # rest"
      "hlist_for_each_safe fuel (\<lambda>p. body (hlist_entry off p)) (h_next h p) (body (hlist_entry off p) h) = Some (rest, h')"
      using Suc.prems(1) by (auto simp: hlist_for_each_safe.simps [of _ _ p])
    have "p - off \<noteq> NULL" using Suc.prems(2) r(1) by auto
    then show ?thesis
      using Suc.IH [OF r(2)] Suc.prems(2) r(1) False
      by (simp add: hlist_entry_safe_walk.simps [of _ _ _ "p - off"] hlist_entry_safe_def [of _ p] hlist_entry_def)
  qed
qed

lemma hlist_for_each_more: "hlist_for_each fuel p h = Some xs \<Longrightarrow> hlist_for_each (Suc fuel) p h = Some xs"
proof (induction fuel arbitrary: p xs)
  case 0
  then show ?case by (cases "p = NULL") (simp_all add: hlist_for_each.simps)
next
  case (Suc fuel)
  show ?case
  proof (cases "p = NULL")
    case False
    then obtain rest where r: "xs = p # rest" "hlist_for_each fuel (h_next h p) h = Some rest"
      using Suc.prems(1) by (auto simp: hlist_for_each.simps [of _ p])
    then show ?thesis using Suc.IH [OF r(2)] False by (simp add: hlist_for_each.simps [of "Suc (Suc _)" p])
  qed (use Suc.prems in \<open>simp add: hlist_for_each.simps\<close>)
qed

lemma hlist_for_each_Cons:
  assumes "hlist_for_each fuel p h = Some (x # xs)"
  shows "p = x" "x \<noteq> NULL" "hlist_for_each fuel (h_next h x) h = Some xs"
proof -
  show "p = x" "x \<noteq> NULL" using assms by (auto simp: hlist_for_each.simps [of _ p] split: if_splits nat.splits)
  then obtain f where f: "fuel = Suc f" "hlist_for_each f (h_next h x) h = Some xs"
    using assms by (cases fuel) (auto simp: hlist_for_each.simps [of _ x])
  then show "hlist_for_each fuel (h_next h x) h = Some xs" using hlist_for_each_more by simp
qed

lemma hlist_for_each_suffix:
  "hlist_for_each fuel p h = Some (ys @ x # zs) \<Longrightarrow>
   x \<noteq> NULL \<and> hlist_for_each fuel x h = Some (x # zs) \<and> hlist_for_each fuel (h_next h x) h = Some zs"
proof (induction ys arbitrary: p)
  case Nil
  then show ?case using hlist_for_each_Cons [of fuel p h x zs] by simp
next
  case (Cons y ys)
  then show ?case using hlist_for_each_Cons(3) [of fuel p h y "ys @ x # zs"] by simp
qed

lemma hash_entry_loops_visit:
  assumes "hlist h p (ys @ x # zs)" "off \<notin> set (ys @ x # zs)" "length (ys @ x # zs) \<le> fuel"
  shows "hlist_for_each_entry fuel off h p = Some (map (hlist_entry off) (ys @ x # zs))
    \<and> hlist_for_each_entry_continue fuel off h (hlist_entry off x) = Some (map (hlist_entry off) zs)
    \<and> hlist_for_each_entry_from fuel off h (hlist_entry off x) = Some (map (hlist_entry off) (x # zs))
    \<and> (\<exists>h'. hlist_for_each_entry_safe fuel off (\<lambda>e. hlist_del_init (e + off)) p h
          = Some (map (hlist_entry off) (ys @ x # zs), h') \<and> hlist h' p [])"
proof -
  obtain h' where h': "hlist_for_each_safe fuel hlist_del_init (h_next h p) h = Some (ys @ x # zs, h')" "hlist h' p []"
    using hlist_safe_drain [OF assms(1,3)] by blast
  note w = hlist_for_each_list [OF assms(1,3)]
  note s = hlist_for_each_suffix [OF w]
  have "hlist_entry_walk fuel off h (hlist_entry_safe off (h_next h x)) = Some (map (hlist_entry off) zs)"
    using s assms(2) by (intro hlist_entry_walk_node) auto
  moreover have "hlist_entry_walk fuel off h (hlist_entry_safe off x) = Some (map (hlist_entry off) (x # zs))"
    using s assms(2) by (intro hlist_entry_walk_node) auto
  ultimately show ?thesis
    using hlist_entry_walk_node [OF w assms(2)] s
      hlist_entry_safe_walk_node [of fuel "\<lambda>e. hlist_del_init (e + off)" off _ h "ys @ x # zs" h'] h' assms(2)
    by (auto simp: hlist_for_each_entry_def hlist_for_each_entry_continue_def hlist_for_each_entry_from_def
        hlist_for_each_entry_safe_def hlist_entry_safe_def [of off x] hlist_entry_def [of off x] hlist_entry_def [of off])
qed

section \<open>The hash lists' main property\<close>



end
