(* ===== verification/List_Loops.thy ===== *)
theory List_Loops
  imports List_Head
begin

text \<open>
  The loop macros of \<open>include/list_head.h\<close> over entries: a node is a member of a larger object, \<open>off\<close>
  bytes behind its start, and the loops walk from object to object, from the front or the back,
  from the start or from a given object on, and in the safe forms with a body that may remove its
  object. Each needs fuel, one more than there are entries, and visits what its name says.
\<close>

unbundle bit_operations_syntax

section \<open>From nodes to entries\<close>

definition list_entry :: "addr \<Rightarrow> addr \<Rightarrow> addr" where "list_entry off ptr = ptr - off"

definition list_first_entry :: "addr \<Rightarrow> list_heap \<Rightarrow> addr \<Rightarrow> addr" where
  "list_first_entry off h ptr = list_entry off (nxt h ptr)"

definition list_last_entry :: "addr \<Rightarrow> list_heap \<Rightarrow> addr \<Rightarrow> addr" where
  "list_last_entry off h ptr = list_entry off (prv h ptr)"

definition list_first_entry_or_null :: "addr \<Rightarrow> list_heap \<Rightarrow> addr \<Rightarrow> addr" where
  "list_first_entry_or_null off h head =
     (let pos = nxt h head in if pos \<noteq> head then list_entry off pos else NULL)"

definition list_next_entry :: "addr \<Rightarrow> list_heap \<Rightarrow> addr \<Rightarrow> addr" where
  "list_next_entry off h pos = list_entry off (nxt h (pos + off))"

definition list_prev_entry :: "addr \<Rightarrow> list_heap \<Rightarrow> addr \<Rightarrow> addr" where
  "list_prev_entry off h pos = list_entry off (prv h (pos + off))"

definition list_prepare_entry :: "addr \<Rightarrow> addr \<Rightarrow> addr \<Rightarrow> addr" where
  "list_prepare_entry off pos head = (if pos \<noteq> NULL then pos else list_entry off head)"

section \<open>Loops that only look\<close>

text \<open>The condition and the step all of them share; \<open>step\<close> is the next or the previous entry.\<close>

fun entry_walk :: "nat \<Rightarrow> (addr \<Rightarrow> addr) \<Rightarrow> addr \<Rightarrow> addr \<Rightarrow> addr \<Rightarrow> addr list option" where
  "entry_walk 0 step off head pos = None"
| "entry_walk (Suc fuel) step off head pos =
     (if pos + off = head then Some []
      else map_option (Cons pos) (entry_walk fuel step off head (step pos)))"

definition list_for_each_entry :: "nat \<Rightarrow> addr \<Rightarrow> list_heap \<Rightarrow> addr \<Rightarrow> addr list option" where
  "list_for_each_entry fuel off h head =
     entry_walk fuel (list_next_entry off h) off head (list_first_entry off h head)"

definition list_for_each_entry_reverse :: "nat \<Rightarrow> addr \<Rightarrow> list_heap \<Rightarrow> addr \<Rightarrow> addr list option" where
  "list_for_each_entry_reverse fuel off h head =
     entry_walk fuel (list_prev_entry off h) off head (list_last_entry off h head)"

definition list_for_each_entry_continue :: "nat \<Rightarrow> addr \<Rightarrow> list_heap \<Rightarrow> addr \<Rightarrow> addr \<Rightarrow> addr list option" where
  "list_for_each_entry_continue fuel off h head pos =
     entry_walk fuel (list_next_entry off h) off head (list_next_entry off h pos)"

definition list_for_each_entry_continue_reverse ::
  "nat \<Rightarrow> addr \<Rightarrow> list_heap \<Rightarrow> addr \<Rightarrow> addr \<Rightarrow> addr list option" where
  "list_for_each_entry_continue_reverse fuel off h head pos =
     entry_walk fuel (list_prev_entry off h) off head (list_prev_entry off h pos)"

definition list_for_each_entry_from :: "nat \<Rightarrow> addr \<Rightarrow> list_heap \<Rightarrow> addr \<Rightarrow> addr \<Rightarrow> addr list option" where
  "list_for_each_entry_from fuel off h head pos = entry_walk fuel (list_next_entry off h) off head pos"

definition list_for_each_entry_from_reverse ::
  "nat \<Rightarrow> addr \<Rightarrow> list_heap \<Rightarrow> addr \<Rightarrow> addr \<Rightarrow> addr list option" where
  "list_for_each_entry_from_reverse fuel off h head pos = entry_walk fuel (list_prev_entry off h) off head pos"

section \<open>Loops whose body may remove its entry\<close>

type_synonym 's loop_body = "addr \<Rightarrow> list_heap \<times> 's \<Rightarrow> list_heap \<times> 's"

fun entry_safe_walk ::
  "nat \<Rightarrow> (list_heap \<Rightarrow> addr \<Rightarrow> addr) \<Rightarrow> addr \<Rightarrow> 's loop_body \<Rightarrow> addr \<Rightarrow> addr \<Rightarrow> addr
   \<Rightarrow> list_heap \<times> 's \<Rightarrow> (list_heap \<times> 's) option" where
  "entry_safe_walk 0 step off body head pos n s = None"
| "entry_safe_walk (Suc fuel) step off body head pos n s =
     (if pos + off = head then Some s
      else let s' = body pos s
           in entry_safe_walk fuel step off body head n (step (fst s') n) s')"

definition list_for_each_entry_safe_continue ::
  "nat \<Rightarrow> addr \<Rightarrow> 's loop_body \<Rightarrow> addr \<Rightarrow> addr \<Rightarrow> list_heap \<times> 's \<Rightarrow> (list_heap \<times> 's) option" where
  "list_for_each_entry_safe_continue fuel off body head pos s =
     (let pos = list_next_entry off (fst s) pos; n = list_next_entry off (fst s) pos
      in entry_safe_walk fuel (list_next_entry off) off body head pos n s)"

definition list_for_each_entry_safe_from ::
  "nat \<Rightarrow> addr \<Rightarrow> 's loop_body \<Rightarrow> addr \<Rightarrow> addr \<Rightarrow> list_heap \<times> 's \<Rightarrow> (list_heap \<times> 's) option" where
  "list_for_each_entry_safe_from fuel off body head pos s =
     (let n = list_next_entry off (fst s) pos
      in entry_safe_walk fuel (list_next_entry off) off body head pos n s)"

definition list_for_each_entry_safe_reverse ::
  "nat \<Rightarrow> addr \<Rightarrow> 's loop_body \<Rightarrow> addr \<Rightarrow> list_heap \<times> 's \<Rightarrow> (list_heap \<times> 's) option" where
  "list_for_each_entry_safe_reverse fuel off body head s =
     (let pos = list_last_entry off (fst s) head; n = list_prev_entry off (fst s) pos
      in entry_safe_walk fuel (list_prev_entry off) off body head pos n s)"

text \<open>\<open>list_for_each_prev_safe\<close> is the same over nodes.\<close>

definition list_for_each_prev_safe ::
  "nat \<Rightarrow> 's loop_body \<Rightarrow> addr \<Rightarrow> list_heap \<times> 's \<Rightarrow> (list_heap \<times> 's) option" where
  "list_for_each_prev_safe fuel body head s =
     (let pos = prv (fst s) head; n = prv (fst s) pos
      in entry_safe_walk fuel prv 0 body head pos n s)"

definition list_safe_reset_next :: "addr \<Rightarrow> list_heap \<Rightarrow> addr \<Rightarrow> addr" where
  "list_safe_reset_next off h pos = list_next_entry off h pos"

lemmas entry_defs =
  list_entry_def list_first_entry_def list_last_entry_def list_next_entry_def list_prev_entry_def

section \<open>What the looking loops visit\<close>

lemma entry_walk_next:
  "entry_walk fuel (list_next_entry off h) off head (p - off) =
     map_option (map (list_entry off)) (list_for_each fuel h p head)"
  by (induction fuel arbitrary: p) (simp_all add: entry_defs option.map_comp o_def)

lemma entry_walk_prev:
  "entry_walk fuel (list_prev_entry off h) off head (p - off) =
     map_option (map (list_entry off)) (list_for_each_prev fuel h p head)"
  by (induction fuel arbitrary: p) (simp_all add: entry_defs option.map_comp o_def)

lemma ring_split:
  assumes "ring h head (ys @ z # zs)"
  shows "seg h head ys z" "seg h z zs head" "z \<noteq> head" "head \<notin> set ys" "head \<notin> set zs" "z \<notin> set ys" "z \<notin> set zs"
  using assms by (auto simp: ring_def seg_append)

lemma looking_loops:
  assumes "ring h head (ys @ z # zs)" "length (ys @ z # zs) < fuel"
  shows "list_for_each_entry fuel off h head = Some (map (list_entry off) (ys @ z # zs))"
    and "list_for_each_entry_reverse fuel off h head = Some (map (list_entry off) (rev (ys @ z # zs)))"
    and "list_for_each_entry_continue fuel off h head (list_entry off z) = Some (map (list_entry off) zs)"
    and "list_for_each_entry_continue_reverse fuel off h head (list_entry off z) = Some (map (list_entry off) (rev ys))"
    and "list_for_each_entry_from fuel off h head (list_entry off z) = Some (map (list_entry off) (z # zs))"
    and "list_for_each_entry_from_reverse fuel off h head (list_entry off z) = Some (map (list_entry off) (z # rev ys))"
proof -
  note s = ring_split [OF assms(1)]
  obtain f where f: "fuel = Suc f" using assms(2) by (cases fuel) auto
  have l: "length zs < f" "length ys < f" "length zs < fuel" "length ys < fuel" using assms(2) f by auto
  note w = entry_walk_next entry_walk_prev
  show "list_for_each_entry fuel off h head = Some (map (list_entry off) (ys @ z # zs))"
    using ring_for_each [OF assms] by (simp add: list_for_each_entry_def list_first_entry_def w list_entry_def [of _ "nxt h head"])
  show "list_for_each_entry_reverse fuel off h head = Some (map (list_entry off) (rev (ys @ z # zs)))"
    using ring_for_each_prev [OF assms]
    by (simp add: list_for_each_entry_reverse_def list_last_entry_def w list_entry_def [of _ "prv h head"])
  note n = seg_for_each [OF s(2,5) l(1)] seg_for_each [OF s(2,5) l(3)]
  note p = seg_for_each_prev [OF s(1,4) l(2)] seg_for_each_prev [OF s(1,4) l(4)]
  show "list_for_each_entry_continue fuel off h head (list_entry off z) = Some (map (list_entry off) zs)"
    using n(2) by (simp add: list_for_each_entry_continue_def list_next_entry_def list_entry_def [of _ z] w list_entry_def [of _ "nxt h z"])
  show "list_for_each_entry_continue_reverse fuel off h head (list_entry off z) = Some (map (list_entry off) (rev ys))"
    using p(2) by (simp add: list_for_each_entry_continue_reverse_def list_prev_entry_def list_entry_def [of _ z] w list_entry_def [of _ "prv h z"])
  show "list_for_each_entry_from fuel off h head (list_entry off z) = Some (map (list_entry off) (z # zs))"
    using n(1) s(3) by (simp add: list_for_each_entry_from_def list_entry_def [of _ z] w f)
  show "list_for_each_entry_from_reverse fuel off h head (list_entry off z) = Some (map (list_entry off) (z # rev ys))"
    using p(1) s(3) by (simp add: list_for_each_entry_from_reverse_def list_entry_def [of _ z] w f)
qed

section \<open>What the removing loops leave\<close>

text \<open>A body that takes its entry off the list and notes it.\<close>

definition take_off :: "addr \<Rightarrow> addr list loop_body" where
  "take_off off pos s = (case s of (h, seen) \<Rightarrow> (list_del_init (pos + off) h, seen @ [pos]))"

lemma take_off_eq: "take_off off (z - off) (h, seen) = (list_del_init z h, seen @ [z - off])"
  by (simp add: take_off_def)

lemma ring_neighbours:
  assumes "ring h head (ys @ z # zs)"
  shows "nxt h z = hd (zs @ [head])" "prv h z = last (head # ys)"
  using ring_split(1,2) [OF assms] by (cases zs, simp_all) (cases ys rule: rev_cases, simp_all add: seg_append)

lemma safe_walk_next:
  assumes "ring h head (ys @ zs)" "length zs < fuel" "zs \<noteq> [] \<Longrightarrow> n = nxt h (hd zs) - off"
  shows "\<exists>h'. entry_safe_walk fuel (list_next_entry off) off (take_off off) head (hd (zs @ [head]) - off) n (h, seen)
      = Some (h', seen @ map (list_entry off) zs) \<and> ring h' head ys"
  using assms
proof (induction zs arbitrary: h n seen fuel)
  case Nil
  then show ?case by (cases fuel) auto
next
  case (Cons z zs)
  obtain f where f: "fuel = Suc f" using Cons.prems(2) by (cases fuel) auto
  let ?h = "list_del_init z h"
  have r: "ring ?h head (ys @ zs)" using ring_list_del_init(1) [OF Cons.prems(1)] .
  have z: "z \<noteq> head" "n = hd (zs @ [head]) - off"
    using ring_split(3) [OF Cons.prems(1)] Cons.prems(3) ring_neighbours(1) [OF Cons.prems(1)] by simp_all
  have "\<exists>h'. entry_safe_walk f (list_next_entry off) off (take_off off) head (hd (zs @ [head]) - off)
      (list_next_entry off ?h n) (?h, seen @ [z - off])
      = Some (h', (seen @ [z - off]) @ map (list_entry off) zs) \<and> ring h' head ys"
    using Cons.prems(2) f z(2) by (intro Cons.IH [OF r]) (auto simp: entry_defs)
  then show ?case using z f by (simp add: take_off_eq list_entry_def [of off z])
qed

lemma safe_walk_prev:
  assumes "ring h head zs" "length zs < fuel" "zs \<noteq> [] \<Longrightarrow> n = prv h (last zs) - off"
    and "step = (\<lambda>h p. prv h (p + off) - off)"
  shows "\<exists>h'. entry_safe_walk fuel step off (take_off off) head (last (head # zs) - off) n (h, seen)
      = Some (h', seen @ map (list_entry off) (rev zs)) \<and> ring h' head []"
  using assms(1-3)
proof (induction zs arbitrary: h n seen fuel rule: rev_induct)
  case Nil
  then show ?case by (cases fuel) auto
next
  case (snoc z zs)
  obtain f where f: "fuel = Suc f" using snoc.prems(2) by (cases fuel) auto
  let ?h = "list_del_init z h"
  have r: "ring ?h head zs" using ring_list_del_init(1) [OF snoc.prems(1)] by simp
  have z: "z \<noteq> head" "n = last (head # zs) - off"
    using ring_split(3) [OF snoc.prems(1)] snoc.prems(3) ring_neighbours(2) [OF snoc.prems(1)] by simp_all
  have "\<exists>h'. entry_safe_walk f step off (take_off off) head (last (head # zs) - off) (step ?h n) (?h, seen @ [z - off])
      = Some (h', (seen @ [z - off]) @ map (list_entry off) (rev zs)) \<and> ring h' head []"
    using snoc.prems(2) f z(2) by (intro snoc.IH [OF r]) (auto simp: assms(4))
  then show ?case using z f by (simp add: take_off_eq list_entry_def [of off z])
qed

lemma removing_loops:
  assumes "ring h head (ys @ z # zs)" "length (ys @ z # zs) < fuel"
  shows "\<exists>h'. list_for_each_entry_safe_continue fuel off (take_off off) head (list_entry off z) (h, [])
      = Some (h', map (list_entry off) zs) \<and> ring h' head (ys @ [z])"
    and "\<exists>h'. list_for_each_entry_safe_from fuel off (take_off off) head (list_entry off z) (h, [])
      = Some (h', map (list_entry off) (z # zs)) \<and> ring h' head ys"
    and "\<exists>h'. list_for_each_entry_safe_reverse fuel off (take_off off) head (h, [])
      = Some (h', map (list_entry off) (rev (ys @ z # zs))) \<and> ring h' head []"
    and "\<exists>h'. list_for_each_prev_safe fuel (take_off 0) head (h, [])
      = Some (h', rev (ys @ z # zs)) \<and> ring h' head []"
proof -
  note nb = ring_neighbours [OF assms(1)]
  have r: "ring h head ((ys @ [z]) @ zs)" using assms(1) by simp
  from safe_walk_next [OF r, of fuel "nxt h (hd zs) - off" off "[]"] assms(2)
  obtain h1 where h1: "entry_safe_walk fuel (list_next_entry off) off (take_off off) head
      (hd (zs @ [head]) - off) (nxt h (hd zs) - off) (h, []) = Some (h1, map (list_entry off) zs)"
      "ring h1 head (ys @ [z])" by auto
  obtain f where f: "fuel = Suc f" using assms(2) by (cases fuel) auto
  have "entry_safe_walk fuel (list_next_entry off) off (take_off off) head (hd (zs @ [head]) - off)
      (nxt h (hd (zs @ [head])) - off) (h, []) = Some (h1, map (list_entry off) zs)"
    using h1(1) f by (cases zs) auto
  then show "\<exists>h'. list_for_each_entry_safe_continue fuel off (take_off off) head (list_entry off z) (h, [])
      = Some (h', map (list_entry off) zs) \<and> ring h' head (ys @ [z])"
    using h1(2) nb(1) by (auto simp: list_for_each_entry_safe_continue_def entry_defs)
  show "\<exists>h'. list_for_each_entry_safe_from fuel off (take_off off) head (list_entry off z) (h, [])
      = Some (h', map (list_entry off) (z # zs)) \<and> ring h' head ys"
    using safe_walk_next [OF assms(1), of fuel "nxt h z - off" off "[]"] assms(2)
    by (simp add: list_for_each_entry_safe_from_def entry_defs)
  have l: "prv h head = last (ys @ z # zs)" using ring_prv [OF assms(1)] by simp
  have e: "list_prev_entry off = (\<lambda>h p. prv h (p + off) - off)" for off by (simp add: fun_eq_iff entry_defs)
  show "\<exists>h'. list_for_each_entry_safe_reverse fuel off (take_off off) head (h, [])
      = Some (h', map (list_entry off) (rev (ys @ z # zs))) \<and> ring h' head []"
    using safe_walk_prev [OF assms, of "prv h (last (ys @ z # zs)) - off" off "list_prev_entry off" "[]"] l e [of off]
    by (simp add: list_for_each_entry_safe_reverse_def list_last_entry_def list_entry_def)
  have p: "prv = (\<lambda>h p. prv h (p + 0) - 0)" by simp
  show "\<exists>h'. list_for_each_prev_safe fuel (take_off 0) head (h, []) = Some (h', rev (ys @ z # zs)) \<and> ring h' head []"
    using safe_walk_prev [OF assms, of "prv h (last (ys @ z # zs))" 0 prv "[]"] l p
    by (simp add: list_for_each_prev_safe_def list_entry_def [abs_def] Let_def split: if_splits)
qed

section \<open>Where the loops go\<close>

text \<open>
  C32: The entry loops of the linked lists go where their names say. On a ring with entry \<open>z\<close>
  somewhere in it and \<open>fuel\<close> for one round more than it has entries: forward and reverse visit every
  object once, in order and in reverse order; the continue forms visit those behind \<open>z\<close> (before it, in
  reverse), the from forms \<open>z\<close> and those; continue from a prepared NULL visits all; the first
  entry is the first object. The safe forms, under a body that unlinks each object, visit the
  same objects and leave in the ring exactly the ones they did not visit.
\<close>

theorem entry_loops_visit:
  assumes "ring h head (ys @ z # zs)" "length (ys @ z # zs) < fuel"
  shows "list_for_each_entry fuel off h head = Some (map (list_entry off) (ys @ z # zs))
    \<and> list_for_each_entry_reverse fuel off h head = Some (map (list_entry off) (rev (ys @ z # zs)))
    \<and> list_for_each_entry_continue fuel off h head (list_entry off z) = Some (map (list_entry off) zs)
    \<and> list_for_each_entry_continue_reverse fuel off h head (list_entry off z) = Some (map (list_entry off) (rev ys))
    \<and> list_for_each_entry_from fuel off h head (list_entry off z) = Some (map (list_entry off) (z # zs))
    \<and> list_for_each_entry_from_reverse fuel off h head (list_entry off z) = Some (map (list_entry off) (z # rev ys))
    \<and> list_for_each_entry_continue fuel off h head (list_prepare_entry off NULL head)
        = Some (map (list_entry off) (ys @ z # zs))
    \<and> list_first_entry_or_null off h head = list_entry off (hd (ys @ [z]))
    \<and> (\<exists>h'. list_for_each_entry_safe_continue fuel off (take_off off) head (list_entry off z) (h, [])
          = Some (h', map (list_entry off) zs) \<and> ring h' head (ys @ [z]))
    \<and> (\<exists>h'. list_for_each_entry_safe_from fuel off (take_off off) head (list_entry off z) (h, [])
          = Some (h', map (list_entry off) (z # zs)) \<and> ring h' head ys)
    \<and> (\<exists>h'. list_for_each_entry_safe_reverse fuel off (take_off off) head (h, [])
          = Some (h', map (list_entry off) (rev (ys @ z # zs))) \<and> ring h' head [])"
proof -
  have "list_for_each_entry_continue fuel off h head (list_prepare_entry off NULL head)
      = list_for_each_entry fuel off h head"
    by (simp add: list_for_each_entry_continue_def list_for_each_entry_def list_prepare_entry_def entry_defs)
  moreover have "list_first_entry_or_null off h head = list_entry off (hd (ys @ [z]))"
    using ring_nxt [OF assms(1)] assms(1) by (cases ys) (auto simp: list_first_entry_or_null_def ring_def)
  ultimately show ?thesis
    using looking_loops [OF assms, of off] removing_loops(1-3) [OF assms, of off] by simp
qed

theorem entry_loops_visit_witness:
  "list_for_each_entry 3 8 ex_ring 1 = Some [2 - 8, 3 - 8] \<and> list_for_each_entry_reverse 3 8 ex_ring 1 = Some [3 - 8, 2 - 8]
    \<and> list_for_each_entry_continue 3 8 ex_ring 1 (2 - 8) = Some [3 - 8]
    \<and> list_first_entry_or_null 8 ex_ring 1 = 2 - 8"
  using entry_loops_visit [where h = ex_ring and head = 1 and ys = "[]" and z = 2 and zs = "[3]" and fuel = 3 and off = 8] ex_ring by (simp add: list_entry_def)

end
