(* ===== verification/Page_Store.thy ===== *)
theory Page_Store
  imports Prelude
begin

text \<open>
  What the parts of the system that keep pages promise their clients: a write is read back,
  and pages written earlier under other keys stay. The contract allows a write to make more
  pages readable than the one written (a server block appears whole) and to be refused.

  The locale's lemmas are proved once: after a sequence of accepted writes each key holds
  the page written to it last. The server and the driver's staging buffer interpret it.
\<close>

fun write_all :: "('k \<Rightarrow> 'v \<Rightarrow> 's \<Rightarrow> 's option) \<Rightarrow> ('k \<times> 'v) list \<Rightarrow> 's \<Rightarrow> 's option" where
  "write_all store [] s = Some s"
| "write_all store ((k, v) # ws) s =
     (case store k v s of None \<Rightarrow> None | Some s' \<Rightarrow> write_all store ws s')"

locale page_store =
  fixes inv :: "'s \<Rightarrow> bool"
    and lookup :: "'s \<Rightarrow> 'k \<Rightarrow> 'v option"
    and store :: "'k \<Rightarrow> 'v \<Rightarrow> 's \<Rightarrow> 's option"
  assumes write_inv: "inv s \<Longrightarrow> store k v s = Some s' \<Longrightarrow> inv s'"
    and write_same: "inv s \<Longrightarrow> store k v s = Some s' \<Longrightarrow> lookup s' k = Some v"
    and write_other: "inv s \<Longrightarrow> store k v s = Some s' \<Longrightarrow> k' \<noteq> k \<Longrightarrow> lookup s k' = Some v' \<Longrightarrow>
      lookup s' k' = Some v'"
begin

lemma write_grows: "inv s \<Longrightarrow> store k v s = Some s' \<Longrightarrow> (lookup s)(k \<mapsto> v) \<subseteq>\<^sub>m lookup s'"
  by (auto simp: map_le_def write_same write_other)

lemma write_all_inv: "inv s \<Longrightarrow> write_all store ws s = Some s' \<Longrightarrow> inv s'"
  by (induction ws arbitrary: s) (auto split: option.splits, blast intro: write_inv)

lemma write_all_grows:
  "inv s \<Longrightarrow> write_all store ws s = Some s' \<Longrightarrow> lookup s ++ map_of (rev ws) \<subseteq>\<^sub>m lookup s'"
proof (induction ws arbitrary: s)
  case Nil
  then show ?case by simp
next
  case (Cons kv ws)
  obtain k v where kv: "kv = (k, v)" by (cases kv)
  from Cons.prems(2) obtain s1 where s1: "store k v s = Some s1" "write_all store ws s1 = Some s'"
    by (auto simp: kv split: option.splits)
  have "lookup s1 ++ map_of (rev ws) \<subseteq>\<^sub>m lookup s'"
    using Cons.IH [OF write_inv [OF Cons.prems(1) s1(1)] s1(2)] .
  moreover have "(lookup s)(k \<mapsto> v) ++ map_of (rev ws) \<subseteq>\<^sub>m lookup s1 ++ map_of (rev ws)"
    using write_grows [OF Cons.prems(1) s1(1)] by (fastforce simp: map_le_def map_add_def dom_def split: option.splits)
  moreover have "lookup s ++ map_of (rev (kv # ws)) = (lookup s)(k \<mapsto> v) ++ map_of (rev ws)"
    by (simp add: kv)
  ultimately show ?case by (metis map_le_trans)
qed

lemma last_write_read:
  assumes "inv s" "write_all store ws s = Some s'" "map_of (rev ws) k = Some v"
  shows "lookup s' k = Some v"
  using write_all_grows [OF assms(1,2)] assms(3) unfolding map_le_def
  by (metis domI map_add_find_right)

lemma unwritten_kept:
  assumes "inv s" "write_all store ws s = Some s'" "k \<notin> fst ` set ws" "lookup s k = Some v"
  shows "lookup s' k = Some v"
proof -
  have "map_of (rev ws) k = None" using assms(3) by (simp add: map_of_eq_None_iff)
  then have "(lookup s ++ map_of (rev ws)) k = Some v" using assms(4) by (simp add: map_add_def)
  then show ?thesis using write_all_grows [OF assms(1,2)] unfolding map_le_def by (metis domI)
qed

end

end
