(* ===== verification/Stage_Buffer.thy ===== *)
theory Stage_Buffer
  imports Page_Store "HOL-Library.AList"
begin

text \<open>
  The driver's staging buffer (\<open>drive/sib.c\<close>, \<open>drive/ib.h\<close>): a ring of 1024 page slots that
  keeps a copy of every page sent since the last commit, and an xarray from page numbers to
  slots, searched before a page is read from a server.

  The xarray is an association list with \<open>xa_load\<close>, \<open>xa_store\<close>, \<open>xa_erase\<close> as the kernel
  documents them (absent means NULL, storing NULL erases). The kernel's memory is the
  argument \<open>m\<close>; a page is known by its address. \<open>staged\<close> is the map from page numbers to pages the
  buffer stands for, and \<open>stage_ok\<close> the invariant: every entry points to one of the \<open>count\<close>
  slots filled last, no two to the same.
\<close>

section \<open>Xarrays\<close>

type_synonym xarray = "(u32 \<times> addr) list"

definition xa_load :: "xarray \<Rightarrow> u32 \<Rightarrow> addr" where
  "xa_load xa i = (case map_of xa i of None \<Rightarrow> NULL | Some p \<Rightarrow> p)"

definition xa_erase :: "xarray \<Rightarrow> u32 \<Rightarrow> xarray" where
  "xa_erase xa i = AList.delete i xa"

text \<open>A store can fail for lack of memory; it then leaves the array as it was.\<close>

definition xa_store :: "bool \<Rightarrow> xarray \<Rightarrow> u32 \<Rightarrow> addr \<Rightarrow> xarray" where
  "xa_store ok xa i p = (if \<not> ok then xa else if p = NULL then xa_erase xa i else AList.update i p xa)"

section \<open>The operations\<close>

record stage_buffer_t =
  sb_buffer :: addr
  sb_index :: int
  sb_check_list :: xarray
  sb_count :: int

definition CONFIG_BATCH :: int where "CONFIG_BATCH = 2 ^ 10"

text \<open>\<open>buffer\<close> is what \<open>kzalloc\<close> returned; the return value is 0 either way.\<close>

definition init_stage_buffer :: "addr \<Rightarrow> stage_buffer_t \<Rightarrow> int \<times> stage_buffer_t" where
  "init_stage_buffer buffer sb =
     (let sb1 = sb\<lparr>sb_buffer := buffer\<rparr> in
      if buffer = NULL then (0, sb1)
      else (0, sb1\<lparr>sb_index := 0, sb_check_list := [], sb_count := 0\<rparr>))"

definition get_rrandom :: "u64 \<Rightarrow> u32" where
  "get_rrandom ktime = ucast ktime"

definition stage_buffer_full :: "stage_buffer_t \<Rightarrow> bool" where
  "stage_buffer_full sb \<longleftrightarrow> sb_count sb \<ge> CONFIG_BATCH"

definition stage_buffer_count_add :: "stage_buffer_t \<Rightarrow> stage_buffer_t" where
  "stage_buffer_count_add sb = sb\<lparr>sb_count := sb_count sb + 1\<rparr>"

definition stage_buffer_count_reset :: "stage_buffer_t \<Rightarrow> stage_buffer_t" where
  "stage_buffer_count_reset sb = sb\<lparr>sb_count := 0\<rparr>"

definition slot :: "addr \<Rightarrow> int \<Rightarrow> addr" where
  "slot base index = base + word_of_int index * PAGE_SIZE"

definition stage_buffer_store ::
  "bool \<Rightarrow> addr \<Rightarrow> u32 \<Rightarrow> stage_buffer_t \<Rightarrow> memory \<Rightarrow> (stage_buffer_t \<times> memory) result" where
  "stage_buffer_store xa_ok page offset sb m =
     (let src_buf = page in
      if stage_buffer_full sb
      then Inr (if xa_load (sb_check_list sb) offset \<noteq> NULL
                then sb\<lparr>sb_check_list := xa_erase (sb_check_list sb) offset\<rparr> else sb, m)
      else if sb_buffer sb = NULL then Inl Null_Pointer
      else
        let dst_buf = slot (sb_buffer sb) (sb_index sb);
            sb1 = sb\<lparr>sb_index := (sb_index sb + 1) mod CONFIG_BATCH\<rparr>;
            m1 = memcpy m dst_buf src_buf PAGE_SIZE;
            sb2 = sb1\<lparr>sb_check_list := xa_store xa_ok (sb_check_list sb1) offset dst_buf\<rparr>
        in Inr (stage_buffer_count_add sb2, m1))"

text \<open>A load returns the slot's address, or NULL, and copies the page out.\<close>

definition stage_buffer_load :: "addr \<Rightarrow> u32 \<Rightarrow> stage_buffer_t \<Rightarrow> memory \<Rightarrow> addr \<times> memory" where
  "stage_buffer_load page offset sb m =
     (let src_buf = xa_load (sb_check_list sb) offset; dst_buf = page in
      if src_buf = NULL then (NULL, m) else (src_buf, memcpy m dst_buf src_buf PAGE_SIZE))"

definition clear_stage_buffer_addr :: "stage_buffer_t \<Rightarrow> stage_buffer_t" where
  "clear_stage_buffer_addr sb =
     fold (\<lambda>(offset, ret) sb. if ret \<noteq> NULL
           then sb\<lparr>sb_check_list := xa_erase (sb_check_list sb) offset\<rparr> else sb)
       (sb_check_list sb) sb"

section \<open>Xarray lemmas\<close>

lemma xa_load_erase [simp]: "xa_load (xa_erase xa i) j = (if j = i then NULL else xa_load xa j)"
  by (simp add: xa_load_def xa_erase_def AList.delete_conv)

lemma xa_load_store [simp]:
  "xa_load (xa_store ok xa i p) j = (if ok \<and> j = i then p else xa_load xa j)"
  by (simp add: xa_store_def) (simp add: xa_load_def AList.update_conv)

lemma xa_load_in: "xa_load xa i = p \<Longrightarrow> p \<noteq> NULL \<Longrightarrow> (i, p) \<in> set xa"
  by (auto simp: xa_load_def split: option.splits dest: map_of_SomeD)

lemma clear_entries:
  "\<forall>(i, p) \<in> set es. p \<noteq> NULL \<Longrightarrow>
   fold (\<lambda>(offset, ret) sb. if ret \<noteq> NULL
      then sb\<lparr>sb_check_list := xa_erase (sb_check_list sb) offset\<rparr> else sb) es sb =
   sb\<lparr>sb_check_list := filter (\<lambda>(i, p). i \<notin> fst ` set es) (sb_check_list sb)\<rparr>"
proof (induction es arbitrary: sb)
  case Nil
  then show ?case by (simp add: case_prod_unfold)
next
  case (Cons e es)
  then show ?case
    by (cases e) (auto simp: xa_erase_def AList.delete_eq case_prod_unfold
        intro!: arg_cong [where f = "\<lambda>x. sb\<lparr>sb_check_list := x\<rparr>"] filter_cong)
qed

lemma clear_stage_buffer_addr_eq:
  "\<forall>(i, p) \<in> set (sb_check_list sb). p \<noteq> NULL \<Longrightarrow>
   clear_stage_buffer_addr sb = sb\<lparr>sb_check_list := []\<rparr>"
proof -
  assume h: "\<forall>(i, p) \<in> set (sb_check_list sb). p \<noteq> NULL"
  have "filter (\<lambda>(i, p). i \<notin> fst ` set (sb_check_list sb)) (sb_check_list sb) = []"
    by (auto simp: filter_empty_conv image_iff intro: bexI)
  then show ?thesis
    unfolding clear_stage_buffer_addr_def by (simp only: clear_entries [OF h])
qed


section \<open>Slots\<close>

lemma unat_slot_offset:
  assumes "0 \<le> j" "j < CONFIG_BATCH"
  shows "uint (word_of_int j * 0x1000 + ucast (i :: 12 word) :: u64) = j * 4096 + uint i"
proof -
  have i: "0 \<le> uint i" "uint i < 4096" using unsigned_less [of i, where 'a = int] by simp_all
  have j: "uint (word_of_int j :: u64) = j"
    using assms by (simp add: unsigned_of_int take_bit_int_eq_self CONFIG_BATCH_def)
  have "uint (ucast i :: u64) = uint i"
    using i by (simp add: unsigned_ucast_eq take_bit_int_eq_self)
  then show ?thesis
    using assms i j by (simp add: uint_word_ariths CONFIG_BATCH_def)
qed

lemma slots_apart:
  assumes "0 \<le> j" "j < CONFIG_BATCH" "0 \<le> k" "k < CONFIG_BATCH" "j \<noteq> k"
  shows "apart (slot base j) (slot base k)"
  unfolding apart_def
proof (intro allI notI)
  fix i l :: "12 word"
  assume "slot base j + ucast i = slot base k + ucast l"
  then have "(word_of_int j * 0x1000 + ucast i :: u64) = word_of_int k * 0x1000 + ucast l"
    by (simp add: slot_def add.assoc)
  then have eq: "j * 4096 + uint i = k * 4096 + uint l"
    using unat_slot_offset [OF assms(1,2), of i] unat_slot_offset [OF assms(3,4), of l] by simp
  have split: "x = (x * 4096 + uint h) div 4096" for x :: int and h :: "12 word"
  proof -
    have "0 \<le> uint h" "uint h < 4096" using unsigned_less [of h, where 'a = int] by simp_all
    then show ?thesis by simp
  qed
  show False using split [of j i] split [of k l] eq assms(5) by simp
qed

section \<open>The map a staging buffer stands for\<close>

definition staged :: "stage_buffer_t \<Rightarrow> memory \<Rightarrow> u32 \<Rightarrow> page option" where
  "staged sb m off =
     (let p = xa_load (sb_check_list sb) off in if p = NULL then None else Some (page_at m p))"

text \<open>\<open>kzalloc\<close> hands out 4 MiB that do not reach past the end of the address space.\<close>

definition stage_base :: "addr \<Rightarrow> bool" where
  "stage_base base \<longleftrightarrow> base \<noteq> NULL \<and> (\<forall>j. 0 \<le> j \<longrightarrow> j < CONFIG_BATCH \<longrightarrow> slot base j \<noteq> NULL)"

definition recent :: "stage_buffer_t \<Rightarrow> int \<Rightarrow> bool" where
  "recent sb j \<longleftrightarrow> (\<exists>d. 1 \<le> d \<and> d \<le> sb_count sb \<and> j = (sb_index sb - d) mod CONFIG_BATCH)"

definition stage_ok :: "addr \<Rightarrow> stage_buffer_t \<Rightarrow> bool" where
  "stage_ok base sb \<longleftrightarrow>
     stage_base base \<and> sb_buffer sb = base
     \<and> 0 \<le> sb_index sb \<and> sb_index sb < CONFIG_BATCH \<and> 0 \<le> sb_count sb \<and> sb_count sb \<le> CONFIG_BATCH
     \<and> distinct (map fst (sb_check_list sb))
     \<and> (\<forall>(off, p) \<in> set (sb_check_list sb). \<exists>j. recent sb j \<and> p = slot base j)
     \<and> (\<forall>off p off'. (off, p) \<in> set (sb_check_list sb) \<longrightarrow> (off', p) \<in> set (sb_check_list sb) \<longrightarrow> off = off')"

lemma recent_range: "recent sb j \<Longrightarrow> 0 \<le> j \<and> j < CONFIG_BATCH"
  by (auto simp: recent_def CONFIG_BATCH_def)

text \<open>While the buffer is not full, the slot filled next is none of the recent ones.\<close>

lemma next_slot_fresh:
  assumes "stage_ok base sb" "\<not> stage_buffer_full sb" "recent sb j"
  shows "j \<noteq> sb_index sb"
proof
  assume "j = sb_index sb"
  with assms(3) obtain d where d: "1 \<le> d" "d \<le> sb_count sb"
      "sb_index sb = (sb_index sb - d) mod CONFIG_BATCH"
    by (auto simp: recent_def)
  have lt: "d < CONFIG_BATCH" using d(2) assms(2) by (simp add: stage_buffer_full_def)
  have i: "0 \<le> sb_index sb" "sb_index sb < CONFIG_BATCH" using assms(1) by (simp_all add: stage_ok_def)
  have "sb_index sb mod CONFIG_BATCH = (sb_index sb - d) mod CONFIG_BATCH"
    using d(3) i by simp
  then have "CONFIG_BATCH dvd d" by (simp add: mod_eq_dvd_iff)
  then show False using d(1) lt zdvd_imp_le [of CONFIG_BATCH d] by simp
qed

lemma recent_store:
  assumes "stage_ok base sb"
    and new: "sb_index sb' = (sb_index sb + 1) mod CONFIG_BATCH" "sb_count sb' = sb_count sb + 1"
  shows "recent sb' j \<longleftrightarrow> recent sb j \<or> j = sb_index sb"
proof -
  have i: "sb_index sb mod CONFIG_BATCH = sb_index sb" "0 \<le> sb_count sb"
    using assms by (simp_all add: stage_ok_def)
  have sh: "((sb_index sb + 1) mod CONFIG_BATCH - d) mod CONFIG_BATCH = (sb_index sb - (d - 1)) mod CONFIG_BATCH"
    for d
    by (simp add: mod_diff_left_eq algebra_simps)
  show ?thesis
  proof
    assume "recent sb' j"
    then obtain d where "1 \<le> d" "d \<le> sb_count sb + 1" "j = (sb_index sb - (d - 1)) mod CONFIG_BATCH"
      by (auto simp: recent_def sh new)
    then show "recent sb j \<or> j = sb_index sb"
      using i by (cases "d = 1") (auto simp: recent_def intro!: exI [of _ "d - 1"])
  next
    assume "recent sb j \<or> j = sb_index sb"
    then show "recent sb' j"
    proof
      assume "recent sb j"
      then obtain d where "1 \<le> d" "d \<le> sb_count sb" "j = (sb_index sb - d) mod CONFIG_BATCH"
        by (auto simp: recent_def)
      then show ?thesis by (auto simp: recent_def sh new intro!: exI [of _ "d + 1"])
    next
      assume "j = sb_index sb"
      then show ?thesis using i by (auto simp: recent_def sh new intro!: exI [of _ 1])
    qed
  qed
qed


section \<open>What the operations do to the map\<close>

lemma stage_ok_entry:
  assumes "stage_ok base sb" "(off, p) \<in> set (sb_check_list sb)"
  shows "\<exists>j. recent sb j \<and> p = slot base j"
proof -
  have "\<forall>(off, p) \<in> set (sb_check_list sb). \<exists>j. recent sb j \<and> p = slot base j"
    using assms(1) by (simp add: stage_ok_def)
  from bspec [OF this assms(2)] show ?thesis by simp
qed

lemma stage_ok_inject:
  assumes "stage_ok base sb" "(off, p) \<in> set (sb_check_list sb)" "(off', p) \<in> set (sb_check_list sb)"
  shows "off = off'"
proof -
  have "\<forall>off p off'. (off, p) \<in> set (sb_check_list sb) \<longrightarrow> (off', p) \<in> set (sb_check_list sb)
      \<longrightarrow> off = off'"
    using assms(1) by (simp add: stage_ok_def)
  then show ?thesis using assms(2,3) by blast
qed

lemma stage_entry:
  assumes "stage_ok base sb" "xa_load (sb_check_list sb) off \<noteq> NULL"
  obtains j where "recent sb j" "xa_load (sb_check_list sb) off = slot base j"
proof -
  have "(off, xa_load (sb_check_list sb) off) \<in> set (sb_check_list sb)"
    using assms(2) by (simp add: xa_load_in)
  then show ?thesis using stage_ok_entry [OF assms(1)] that by blast
qed

lemma stage_slot_nonnull: "stage_ok base sb \<Longrightarrow> slot base (sb_index sb) \<noteq> NULL"
  by (simp add: stage_ok_def stage_base_def)

lemma set_xa_store:
  "distinct (map fst xa) \<Longrightarrow> p \<noteq> NULL \<Longrightarrow>
   set (xa_store True xa i p) = {(j, q) \<in> set xa. j \<noteq> i} \<union> {(i, p)}"
proof -
  assume d: "distinct (map fst xa)" and p: "p \<noteq> NULL"
  have d': "distinct (map fst (AList.update i p xa))" using d by (rule distinct_update)
  have "(j, q) \<in> set (AList.update i p xa) \<longleftrightarrow> (j, q) \<in> {(j, q) \<in> set xa. j \<noteq> i} \<union> {(i, p)}" for j q
  proof -
    have "(j, q) \<in> set (AList.update i p xa) \<longleftrightarrow> ((map_of xa)(i \<mapsto> p)) j = Some q"
      by (simp only: map_of_eq_Some_iff [OF d', symmetric] AList.update_conv)
    then show ?thesis using map_of_eq_Some_iff [OF d, of j q] by (auto split: if_splits)
  qed
  then show ?thesis using p by (auto simp: xa_store_def)
qed

lemma stage_buffer_store_ok:
  assumes ok: "stage_ok base sb" and nf: "\<not> stage_buffer_full sb"
  shows "\<exists>sb'. stage_buffer_store True page off sb m =
      Inr (sb', memcpy m (slot base (sb_index sb)) page PAGE_SIZE)
    \<and> stage_ok base sb' \<and> sb_count sb' = sb_count sb + 1
    \<and> staged sb' (memcpy m (slot base (sb_index sb)) page PAGE_SIZE)
        = (staged sb m)(off \<mapsto> page_at m page)"
proof -
  let ?xa = "xa_store True (sb_check_list sb) off (slot base (sb_index sb))"
  let ?sb = "sb\<lparr>sb_index := (sb_index sb + 1) mod CONFIG_BATCH, sb_check_list := ?xa,
      sb_count := sb_count sb + 1\<rparr>"
  let ?m = "memcpy m (slot base (sb_index sb)) page PAGE_SIZE"
  have i: "0 \<le> sb_index sb" "sb_index sb < CONFIG_BATCH" "sb_buffer sb = base" "base \<noteq> NULL"
    "distinct (map fst (sb_check_list sb))" "0 \<le> sb_count sb"
    using ok by (simp_all add: stage_ok_def stage_base_def)
  note nn = stage_slot_nonnull [OF ok]
  note set_xa = set_xa_store [OF i(5) nn, of off]
  have old: "\<exists>j. recent sb j \<and> p = slot base j \<and> p \<noteq> slot base (sb_index sb)"
    if e: "(o', p) \<in> set (sb_check_list sb)" for o' p
  proof -
    obtain j where j: "recent sb j" "p = slot base j" using stage_ok_entry [OF ok e] by blast
    have "apart (slot base j) (slot base (sb_index sb))"
      using slots_apart recent_range [OF j(1)] i(1,2) next_slot_fresh [OF ok nf j(1)] by blast
    then have "slot base j \<noteq> slot base (sb_index sb)" by (rule apart_neq)
    with j show ?thesis by blast
  qed
  have "stage_buffer_store True page off sb m = Inr (?sb, ?m)"
    using nf i by (simp add: stage_buffer_store_def stage_buffer_count_add_def Let_def)
  moreover have "stage_ok base ?sb"
    unfolding stage_ok_def
  proof (intro conjI)
    show "stage_base base" "sb_buffer ?sb = base" using ok by (simp_all add: stage_ok_def)
    show "0 \<le> sb_index ?sb" "sb_index ?sb < CONFIG_BATCH" by (simp_all add: CONFIG_BATCH_def)
    show "0 \<le> sb_count ?sb" "sb_count ?sb \<le> CONFIG_BATCH"
      using i nf by (simp_all add: stage_buffer_full_def)
    show "distinct (map fst (sb_check_list ?sb))"
      using i(5) nn by (simp add: xa_store_def distinct_update)
    show "\<forall>(o', p) \<in> set (sb_check_list ?sb). \<exists>j. recent ?sb j \<and> p = slot base j"
      using old recent_store [OF ok, of ?sb] by (fastforce simp: set_xa)
    show "\<forall>o' p o''. (o', p) \<in> set (sb_check_list ?sb) \<longrightarrow> (o'', p) \<in> set (sb_check_list ?sb) \<longrightarrow> o' = o''"
      using old stage_ok_inject [OF ok] by (auto simp: set_xa)
  qed
  moreover have "staged ?sb ?m = (staged sb m)(off \<mapsto> page_at m page)"
  proof (rule ext)
    fix k
    show "staged ?sb ?m k = ((staged sb m)(off \<mapsto> page_at m page)) k"
    proof (cases "k = off \<or> xa_load (sb_check_list sb) k = NULL")
      case True
      then show ?thesis using nn by (auto simp: staged_def Let_def)
    next
      case False
      then obtain j where j: "recent sb j" "xa_load (sb_check_list sb) k = slot base j"
        using stage_entry [OF ok] by blast
      have "apart (slot base (sb_index sb)) (slot base j)"
        using slots_apart recent_range [OF j(1)] i(1,2) next_slot_fresh [OF ok nf j(1)] by metis
      then show ?thesis using False j(2) by (simp add: staged_def Let_def page_at_memcpy_apart)
    qed
  qed
  ultimately show ?thesis by auto
qed

text \<open>
  When the xarray cannot be extended, the page fills a slot but no entry names it: the map
  stays as it was, with the previous page of that number if there was one.
\<close>

lemma stage_buffer_store_no_entry:
  assumes ok: "stage_ok base sb" and nf: "\<not> stage_buffer_full sb"
  shows "\<exists>sb'. stage_buffer_store False page off sb m =
      Inr (sb', memcpy m (slot base (sb_index sb)) page PAGE_SIZE)
    \<and> stage_ok base sb' \<and> sb_count sb' = sb_count sb + 1
    \<and> staged sb' (memcpy m (slot base (sb_index sb)) page PAGE_SIZE) = staged sb m"
proof -
  let ?sb = "sb\<lparr>sb_index := (sb_index sb + 1) mod CONFIG_BATCH, sb_check_list := sb_check_list sb,
      sb_count := sb_count sb + 1\<rparr>"
  let ?m = "memcpy m (slot base (sb_index sb)) page PAGE_SIZE"
  have i: "0 \<le> sb_index sb" "sb_index sb < CONFIG_BATCH" "sb_buffer sb = base" "base \<noteq> NULL"
    using ok by (simp_all add: stage_ok_def stage_base_def)
  have "stage_buffer_store False page off sb m = Inr (?sb, ?m)"
    using nf i by (simp add: stage_buffer_store_def stage_buffer_count_add_def xa_store_def Let_def)
  moreover have "stage_ok base ?sb"
    unfolding stage_ok_def
  proof (intro conjI)
    show "\<forall>(o', p) \<in> set (sb_check_list ?sb). \<exists>j. recent ?sb j \<and> p = slot base j"
      using recent_store [OF ok, of ?sb] by (auto dest: stage_ok_entry [OF ok])
    show "\<forall>o' p o''. (o', p) \<in> set (sb_check_list ?sb) \<longrightarrow> (o'', p) \<in> set (sb_check_list ?sb) \<longrightarrow> o' = o''"
      by (auto dest: stage_ok_inject [OF ok])
  qed (use ok nf in \<open>simp_all add: stage_ok_def stage_buffer_full_def CONFIG_BATCH_def\<close>)
  moreover have "staged ?sb ?m = staged sb m"
  proof (rule ext)
    fix k
    show "staged ?sb ?m k = staged sb m k"
    proof (cases "xa_load (sb_check_list sb) k = NULL")
      case False
      then obtain j where j: "recent sb j" "xa_load (sb_check_list sb) k = slot base j"
        using stage_entry [OF ok] by blast
      have "apart (slot base (sb_index sb)) (slot base j)"
        using slots_apart recent_range [OF j(1)] i(1,2) next_slot_fresh [OF ok nf j(1)] by metis
      then show ?thesis using False j(2) by (simp add: staged_def Let_def page_at_memcpy_apart)
    qed (simp add: staged_def)
  qed
  ultimately show ?thesis by auto
qed

text \<open>A full buffer forgets the page instead, so that no stale copy is found.\<close>

lemma set_xa_erase: "set (xa_erase xa i) = {(j, q) \<in> set xa. j \<noteq> i}"
  by (auto simp: xa_erase_def AList.delete_eq)

lemma stage_buffer_store_full:
  assumes "stage_ok base sb" "stage_buffer_full sb"
  shows "\<exists>sb'. stage_buffer_store ok page off sb m = Inr (sb', m) \<and> stage_ok base sb'
    \<and> staged sb' m = (staged sb m)(off := None)"
proof -
  have "distinct (map fst (xa_erase (sb_check_list sb) off))"
    using assms(1) by (simp add: stage_ok_def xa_erase_def distinct_delete)
  then have "stage_ok base (sb\<lparr>sb_check_list := xa_erase (sb_check_list sb) off\<rparr>)"
    using assms(1) unfolding stage_ok_def recent_def by (simp add: set_xa_erase) blast
  then show ?thesis
    using assms by (auto simp: stage_buffer_store_def staged_def Let_def)
qed

text \<open>Clearing empties the map and keeps everything else.\<close>

lemma clear_stage_buffer_addr_ok:
  assumes "stage_ok base sb"
  shows "clear_stage_buffer_addr sb = sb\<lparr>sb_check_list := []\<rparr>"
    and "stage_ok base (clear_stage_buffer_addr sb)"
    and "staged (clear_stage_buffer_addr sb) m = Map.empty"
proof -
  have "\<forall>(i, p) \<in> set (sb_check_list sb). p \<noteq> NULL"
  proof (intro ballI case_prodI2 notI)
    fix e i p
    assume "e \<in> set (sb_check_list sb)" "e = (i, p)" "p = NULL"
    then obtain j where "recent sb j" "slot base j = NULL"
      using assms unfolding stage_ok_def by fastforce
    then show False using recent_range assms unfolding stage_ok_def stage_base_def by blast
  qed
  then show eq: "clear_stage_buffer_addr sb = sb\<lparr>sb_check_list := []\<rparr>"
    by (rule clear_stage_buffer_addr_eq)
  show "stage_ok base (clear_stage_buffer_addr sb)"
    using assms by (simp add: eq stage_ok_def)
  show "staged (clear_stage_buffer_addr sb) m = Map.empty"
    by (rule ext) (simp add: eq staged_def xa_load_def)
qed

lemma stage_buffer_count_reset_ok:
  "stage_ok base sb \<Longrightarrow> sb_check_list sb = [] \<Longrightarrow> stage_ok base (stage_buffer_count_reset sb)"
  by (simp add: stage_ok_def stage_buffer_count_reset_def CONFIG_BATCH_def)

lemma init_stage_buffer_ok:
  "stage_base base \<Longrightarrow> fst (init_stage_buffer base sb) = 0 \<and> stage_ok base (snd (init_stage_buffer base sb))
    \<and> staged (snd (init_stage_buffer base sb)) m = Map.empty"
  by (auto simp: init_stage_buffer_def stage_ok_def stage_base_def CONFIG_BATCH_def staged_def xa_load_def
      intro!: ext)

text \<open>A load finds exactly the staged page and copies it into the page given.\<close>

lemma stage_buffer_load_staged:
  "case staged sb m off of
     None \<Rightarrow> stage_buffer_load page off sb m = (NULL, m)
   | Some p \<Rightarrow> fst (stage_buffer_load page off sb m) \<noteq> NULL
       \<and> page_at (snd (stage_buffer_load page off sb m)) page = p"
  by (auto simp: staged_def stage_buffer_load_def Let_def)

section \<open>The page-store contract\<close>

text \<open>Writing a page means putting it in the source page \<open>src\<close> and staging that.\<close>

definition stage_write ::
  "addr \<Rightarrow> u32 \<Rightarrow> page \<Rightarrow> stage_buffer_t \<times> memory \<Rightarrow> (stage_buffer_t \<times> memory) option" where
  "stage_write src off p st =
     (case st of (sb, m) \<Rightarrow>
        if stage_buffer_full sb then None
        else (case stage_buffer_store True src off sb (put_page m src p) of
                Inl _ \<Rightarrow> None | Inr st' \<Rightarrow> Some st'))"

definition staging :: "addr \<Rightarrow> addr \<Rightarrow> stage_buffer_t \<times> memory \<Rightarrow> bool" where
  "staging base src st \<longleftrightarrow>
     stage_ok base (fst st) \<and> (\<forall>j. 0 \<le> j \<longrightarrow> j < CONFIG_BATCH \<longrightarrow> apart src (slot base j))"

text \<open>What is staged depends on the buffer's own memory only.\<close>

lemma staged_cong:
  assumes "stage_ok base sb" "\<And>j. 0 \<le> j \<Longrightarrow> j < CONFIG_BATCH \<Longrightarrow> page_at m' (slot base j) = page_at m (slot base j)"
  shows "staged sb m' = staged sb m"
proof (rule ext)
  fix k
  show "staged sb m' k = staged sb m k"
  proof (cases "xa_load (sb_check_list sb) k = NULL")
    case False
    then obtain j where "recent sb j" "xa_load (sb_check_list sb) k = slot base j"
      using assms(1) stage_entry by metis
    then show ?thesis using assms(2) recent_range by (simp add: staged_def Let_def)
  qed (simp add: staged_def)
qed

lemma staged_put_page: "staging base src (sb, m) \<Longrightarrow> staged sb (put_page m src p) = staged sb m"
  by (rule staged_cong) (auto simp: staging_def page_at_put_page_apart)

lemma stage_write_staged:
  assumes "staging base src (sb, m)" "stage_write src off p (sb, m) = Some (sb', m')"
  shows "staging base src (sb', m') \<and> staged sb' m' = (staged sb m)(off \<mapsto> p)"
proof -
  have nf: "\<not> stage_buffer_full sb" and ok: "stage_ok base sb"
    using assms by (auto simp: stage_write_def staging_def split: if_splits)
  show ?thesis
    using stage_buffer_store_ok [OF ok nf, of src off "put_page m src p"] assms nf
    by (auto simp: stage_write_def staging_def staged_put_page [OF assms(1)])
qed

interpretation stage: page_store "staging base src" "\<lambda>(sb, m). staged sb m" "stage_write src"
  for base src
  by unfold_locales (auto dest: stage_write_staged)

section \<open>The buffer's main properties\<close>

lemma stage_write_some:
  assumes "staging base src (sb, m)" "sb_count sb < CONFIG_BATCH"
  obtains sb' m' where "stage_write src off p (sb, m) = Some (sb', m')" "sb_count sb' = sb_count sb + 1"
    "staging base src (sb', m')" "staged sb' m' = (staged sb m)(off \<mapsto> p)"
proof -
  have nf: "\<not> stage_buffer_full sb" using assms(2) by (simp add: stage_buffer_full_def)
  have "stage_ok base sb" using assms(1) by (simp add: staging_def)
  then obtain sb' m' where "stage_write src off p (sb, m) = Some (sb', m')" "sb_count sb' = sb_count sb + 1"
    using stage_buffer_store_ok [OF _ nf, of base src off "put_page m src p"] nf
    by (auto simp: stage_write_def)
  with stage_write_staged [OF assms(1)] that show thesis by blast
qed

text \<open>An empty buffer at a concrete address, for the examples.\<close>

definition ex_base :: addr where "ex_base = 0x1000000"

lemma slot_uint:
  assumes "0 \<le> j" "j < CONFIG_BATCH"
  shows "uint (slot ex_base j) = 0x1000000 + j * 4096"
proof -
  have e: "slot ex_base j = 0x1000000 + word_of_int j * 0x1000" by (simp add: slot_def ex_base_def)
  have j: "uint (word_of_int j :: u64) = j"
    using assms by (simp add: unsigned_of_int take_bit_int_eq_self CONFIG_BATCH_def)
  show ?thesis unfolding e using assms j by (simp add: uint_word_ariths CONFIG_BATCH_def)
qed

lemma ex_stage_base: "stage_base ex_base"
proof -
  have "slot ex_base j \<noteq> NULL" if "0 \<le> j" "j < CONFIG_BATCH" for j
  proof
    assume "slot ex_base j = NULL"
    then have "uint (slot ex_base j) = uint (0 :: u64)" by simp
    then show False using slot_uint [OF that] that(1) by simp
  qed
  then show ?thesis by (simp add: stage_base_def ex_base_def)
qed

definition ex_stage :: "stage_buffer_t" where
  "ex_stage = \<lparr>sb_buffer = ex_base, sb_index = 0, sb_check_list = [], sb_count = 0\<rparr>"

lemma ex_stage_ok: "stage_ok ex_base ex_stage"
  using ex_stage_base by (simp add: stage_ok_def ex_stage_def CONFIG_BATCH_def)

text \<open>A page below the buffer of the witnesses, or above it, is apart from its slots.\<close>

lemma ex_slots_apart:
  assumes "uint a + 4096 \<le> 0x1000000 \<or> 0x1400000 \<le> uint a \<and> uint a < 2 ^ 63" "0 \<le> j" "j < CONFIG_BATCH"
  shows "apart a (slot ex_base j)"
  unfolding apart_def
proof (intro allI notI)
  fix i k :: "12 word"
  assume e: "a + ucast i = slot ex_base j + ucast k"
  have i: "uint (ucast i :: u64) < 4096" "uint (ucast k :: u64) < 4096" "0 \<le> uint (ucast i :: u64)" "0 \<le> uint (ucast k :: u64)"
    using ucast_page_less [of i] ucast_page_less [of k] by (simp_all add: word_less_def)
  have "uint (a + ucast i :: u64) = uint a + uint (ucast i :: u64)"
    using i assms(1) by (intro uint_plus_simple) (auto simp: no_olen_add)
  moreover have "uint (slot ex_base j + ucast k) = uint (slot ex_base j) + uint (ucast k :: u64)"
    using i slot_uint [OF assms(2,3)] assms(2,3) by (simp add: uint_word_ariths CONFIG_BATCH_def)
  moreover have "uint (a + ucast i) = uint (slot ex_base j + ucast k)" using e by simp
  moreover have "j * 4096 \<le> 1023 * 4096" using assms(3) by (simp add: CONFIG_BATCH_def)
  ultimately show False using i slot_uint [OF assms(2,3)] assms(1,2) by linarith
qed

lemma ex_staging: "staging ex_base 0x1000 (ex_stage, m)"
  using ex_stage_ok by (simp add: staging_def ex_slots_apart)

text \<open>
  C10: The staging buffer is a page store for a whole batch: as many pages as fit into the batch can
  be staged one after the other, and then every page number gives the page staged last under
  it, with the pages staged before intact; loading copies that page out. Clearing the buffer
  leaves nothing staged.
\<close>

theorem staging_holds_a_batch:
  assumes "staging base src (sb, m)" "sb_count sb + int (length ws) \<le> CONFIG_BATCH"
  shows "\<exists>sb' m'. write_all (stage_write src) ws (sb, m) = Some (sb', m')
    \<and> staging base src (sb', m') \<and> sb_count sb' = sb_count sb + int (length ws)
    \<and> staged sb' m' = staged sb m ++ map_of (rev ws)
    \<and> (\<forall>k v page. map_of (rev ws) k = Some v \<longrightarrow>
         page_at (snd (stage_buffer_load page k sb' m')) page = v)
    \<and> staged (clear_stage_buffer_addr sb') m' = Map.empty"
proof -
  have "\<exists>sb' m'. write_all (stage_write src) ws (sb, m) = Some (sb', m')
    \<and> staging base src (sb', m') \<and> sb_count sb' = sb_count sb + int (length ws)
    \<and> staged sb' m' = staged sb m ++ map_of (rev ws)"
    using assms
  proof (induction ws arbitrary: sb m)
    case Nil
    then show ?case by simp
  next
    case (Cons w ws)
    obtain off p where w: "w = (off, p)" by (cases w)
    have "sb_count sb < CONFIG_BATCH" using Cons.prems(2) by simp
    from stage_write_some [OF Cons.prems(1) this, of off p]
    obtain sb1 m1 where 1: "stage_write src off p (sb, m) = Some (sb1, m1)"
        "sb_count sb1 = sb_count sb + 1" "staging base src (sb1, m1)"
        "staged sb1 m1 = (staged sb m)(off \<mapsto> p)" by blast
    have "sb_count sb1 + int (length ws) \<le> CONFIG_BATCH" using Cons.prems(2) 1(2) by simp
    from Cons.IH [OF 1(3) this] obtain sb' m' where 2: "write_all (stage_write src) ws (sb1, m1) = Some (sb', m')"
        "staging base src (sb', m')" "sb_count sb' = sb_count sb1 + int (length ws)"
        "staged sb' m' = staged sb1 m1 ++ map_of (rev ws)"
      by blast
    have "staged sb m ++ map_of (rev (w # ws)) = (staged sb m)(off \<mapsto> p) ++ map_of (rev ws)"
      by (rule ext) (simp add: w map_add_def split: option.split)
    then have "staged sb' m' = staged sb m ++ map_of (rev (w # ws))" using 1(4) 2(4) by argo
    then show ?case using 1(1,2) 2(1-3) by (simp add: w)
  qed
  then obtain sb' m' where r: "write_all (stage_write src) ws (sb, m) = Some (sb', m')"
    "staging base src (sb', m')" "sb_count sb' = sb_count sb + int (length ws)"
    "staged sb' m' = staged sb m ++ map_of (rev ws)" by blast
  have "page_at (snd (stage_buffer_load page k sb' m')) page = v" if "map_of (rev ws) k = Some v" for k v page
    using stage.last_write_read [OF assms(1) r(1) that]
      stage_buffer_load_staged [of page k sb' m'] by simp
  moreover have "staged (clear_stage_buffer_addr sb') m' = Map.empty"
  proof -
    have "stage_ok base sb'" using r(2) by (simp add: staging_def)
    then show ?thesis by (rule clear_stage_buffer_addr_ok(3))
  qed
  ultimately show ?thesis using r by blast
qed

theorem staging_holds_a_batch_witness:
  "\<exists>sb' m'. write_all (stage_write 0x1000) [(7, \<lambda>_. 1), (8, \<lambda>_. 2), (7, \<lambda>_. 3)] (ex_stage, \<lambda>_. 0) = Some (sb', m')
    \<and> page_at (snd (stage_buffer_load 0x5000 7 sb' m')) 0x5000 = (\<lambda>_. 3)"
proof -
  let ?ws = "[(7, \<lambda>_. 1), (8, \<lambda>_. 2), (7, \<lambda>_. 3)] :: (u32 \<times> page) list"
  have "sb_count ex_stage + int (length ?ws) \<le> CONFIG_BATCH"
    by (simp add: ex_stage_def CONFIG_BATCH_def)
  from staging_holds_a_batch [OF ex_staging this, of "\<lambda>_. 0"] show ?thesis by force
qed

text \<open>
  A page that does not fit any more is not staged, and what was staged under its number before is
  dropped, so no stale page is left; all other staged pages stay, and memory is not written.
\<close>

theorem full_buffer_drops_entry:
  assumes "stage_ok base sb" "CONFIG_BATCH \<le> sb_count sb"
  shows "\<exists>sb'. stage_buffer_store ok page off sb m = Inr (sb', m) \<and> stage_ok base sb'
    \<and> staged sb' m = (staged sb m)(off := None)
    \<and> (\<forall>dst. stage_buffer_load dst off sb' m = (NULL, m))"
proof -
  obtain sb' where "stage_buffer_store ok page off sb m = Inr (sb', m)" "stage_ok base sb'"
    "staged sb' m = (staged sb m)(off := None)"
    using stage_buffer_store_full [OF assms(1), of ok page off m] assms(2)
    by (auto simp: stage_buffer_full_def)
  then show ?thesis using stage_buffer_load_staged [of _ off sb' m] by auto
qed

theorem full_buffer_drops_entry_witness:
  "\<exists>sb'. stage_buffer_store True 0x1000 7 (ex_stage\<lparr>sb_count := CONFIG_BATCH\<rparr>) (\<lambda>_. 0) = Inr (sb', \<lambda>_. 0)
    \<and> stage_buffer_load 0x5000 7 sb' (\<lambda>_. 0) = (NULL, \<lambda>_. 0)"
proof -
  have "stage_ok ex_base (ex_stage\<lparr>sb_count := CONFIG_BATCH\<rparr>)"
    using ex_stage_ok by (simp add: stage_ok_def ex_stage_def CONFIG_BATCH_def)
  from full_buffer_drops_entry [OF this, of True "0x1000" 7 "\<lambda>_. 0"] show ?thesis by auto
qed

end
