(* ===== verification/Atomic.thy ===== *)
theory Atomic
  imports Prelude
begin

text \<open>
  The atomic counters of \<open>include/atomic.h\<close>: a 32-bit two's complement counter that the
  locked x86 instructions update in one step. An operation takes the counter and returns
  the new counter, paired with the C return value where it has one. Additions wrap.
\<close>

unbundle bit_operations_syntax

record atomic_t =
  counter :: u32

definition ATOMIC_INIT :: "u32 \<Rightarrow> atomic_t" where
  "ATOMIC_INIT i = \<lparr>counter = i\<rparr>"

definition atomic_read :: "atomic_t \<Rightarrow> u32" where
  "atomic_read v = counter v"

definition atomic_set :: "atomic_t \<Rightarrow> u32 \<Rightarrow> atomic_t" where
  "atomic_set v i = v\<lparr>counter := i\<rparr>"

definition atomic_add :: "u32 \<Rightarrow> atomic_t \<Rightarrow> atomic_t" where
  "atomic_add i v = v\<lparr>counter := counter v + i\<rparr>"

definition atomic_sub :: "u32 \<Rightarrow> atomic_t \<Rightarrow> atomic_t" where
  "atomic_sub i v = v\<lparr>counter := counter v - i\<rparr>"

text \<open>The \<open>_and_test\<close> forms return the zero flag of the instruction, \<open>_negative\<close> the sign flag.\<close>

definition atomic_sub_and_test :: "u32 \<Rightarrow> atomic_t \<Rightarrow> bool \<times> atomic_t" where
  "atomic_sub_and_test i v = (let r = counter v - i in (r = 0, v\<lparr>counter := r\<rparr>))"

definition atomic_inc :: "atomic_t \<Rightarrow> atomic_t" where
  "atomic_inc v = v\<lparr>counter := counter v + 1\<rparr>"

definition atomic_dec :: "atomic_t \<Rightarrow> atomic_t" where
  "atomic_dec v = v\<lparr>counter := counter v - 1\<rparr>"

definition atomic_dec_and_test :: "atomic_t \<Rightarrow> bool \<times> atomic_t" where
  "atomic_dec_and_test v = (let r = counter v - 1 in (r = 0, v\<lparr>counter := r\<rparr>))"

definition atomic_inc_and_test :: "atomic_t \<Rightarrow> bool \<times> atomic_t" where
  "atomic_inc_and_test v = (let r = counter v + 1 in (r = 0, v\<lparr>counter := r\<rparr>))"

definition atomic_add_negative :: "u32 \<Rightarrow> atomic_t \<Rightarrow> bool \<times> atomic_t" where
  "atomic_add_negative i v = (let r = counter v + i in (bit r 31, v\<lparr>counter := r\<rparr>))"

text \<open>\<open>xaddl\<close> leaves the old counter in \<open>i\<close>; the code adds the saved \<open>i\<close> to it.\<close>

definition atomic_add_return :: "u32 \<Rightarrow> atomic_t \<Rightarrow> u32 \<times> atomic_t" where
  "atomic_add_return i v =
     (let saved = i; i' = counter v; v' = v\<lparr>counter := counter v + i\<rparr> in (i' + saved, v'))"

definition atomic_sub_return :: "u32 \<Rightarrow> atomic_t \<Rightarrow> u32 \<times> atomic_t" where
  "atomic_sub_return i v = atomic_add_return (- i) v"

text \<open>
  \<open>cmpxchg\<close> compares the counter with \<open>old\<close> (in \<open>eax\<close>): when equal it stores \<open>new\<close>, when not
  it loads the counter into \<open>eax\<close>; \<open>eax\<close> is returned.
\<close>

definition atomic_cmpxchg :: "atomic_t \<Rightarrow> u32 \<Rightarrow> u32 \<Rightarrow> u32 \<times> atomic_t" where
  "atomic_cmpxchg v old new =
     (if counter v = old then (old, v\<lparr>counter := new\<rparr>) else (counter v, v))"

definition atomic_inc_short :: "u16 \<Rightarrow> u16 \<times> u16" where
  "atomic_inc_short v = (let r = v + 1 in (r, r))"

definition atomic_or_long :: "u64 \<Rightarrow> u64 \<Rightarrow> u64" where
  "atomic_or_long v1 v2 = v1 OR v2"

lemmas atomic_defs =
  ATOMIC_INIT_def atomic_read_def atomic_set_def atomic_add_def atomic_sub_def
  atomic_sub_and_test_def atomic_inc_def atomic_dec_def atomic_dec_and_test_def
  atomic_inc_and_test_def atomic_add_negative_def atomic_add_return_def
  atomic_sub_return_def atomic_cmpxchg_def Let_def

section \<open>What the operations return\<close>

lemma atomic_read_simps [simp]:
  "atomic_read (atomic_set v i) = i"
  "atomic_read (ATOMIC_INIT i) = i"
  "atomic_read (atomic_add i v) = atomic_read v + i"
  "atomic_read (atomic_sub i v) = atomic_read v - i"
  "atomic_read (atomic_inc v) = atomic_read v + 1"
  "atomic_read (atomic_dec v) = atomic_read v - 1"
  by (simp_all add: atomic_defs)

text \<open>Every returning form returns the value it leaves in the counter.\<close>

lemma atomic_return_is_new:
  "fst (atomic_add_return i v) = atomic_read (snd (atomic_add_return i v))"
  "fst (atomic_sub_return i v) = atomic_read (snd (atomic_sub_return i v))"
  by (simp_all add: atomic_defs)

lemma atomic_return_value:
  "atomic_add_return i v = (atomic_read v + i, atomic_add i v)"
  "atomic_sub_return i v = (atomic_read v - i, atomic_sub i v)"
  by (simp_all add: atomic_defs)

lemma atomic_test_value:
  "atomic_sub_and_test i v = (atomic_read v = i, atomic_sub i v)"
  "atomic_dec_and_test v = (atomic_read v = 1, atomic_dec v)"
  "atomic_inc_and_test v = (atomic_read v = -1, atomic_inc v)"
  by (auto simp: atomic_defs eq_neg_iff_add_eq_0)

lemma atomic_add_negative_value:
  "atomic_add_negative i v = (sint (atomic_read v + i) < 0, atomic_add i v)"
  by (simp add: atomic_defs bit_last_iff [symmetric])

lemma atomic_cmpxchg_value:
  "fst (atomic_cmpxchg v old new) = atomic_read v"
  "atomic_read (snd (atomic_cmpxchg v old new)) = (if atomic_read v = old then new else atomic_read v)"
  by (simp_all add: atomic_defs)

text \<open>
  Below the sign bit the counter counts: adding \<open>n\<close> increments to it adds \<open>n\<close>, as long as
  the sum fits.
\<close>

lemma unat_atomic_inc:
  "unat (atomic_read v) < 2 ^ 32 - 1 \<Longrightarrow> unat (atomic_read (atomic_inc v)) = Suc (unat (atomic_read v))"
  by (simp add: unat_word_ariths(1))

end
