(* ===== verification/Wire.thy ===== *)
theory Wire
  imports Prelude
begin

text \<open>
  The 32-bit immediate data that carries every request between driver and server:
  \<open>set_header\<close>/\<open>interpret_header\<close> of \<open>lib/rpc.c\<close>, \<open>ib_get_opcode\<close> of \<open>include/rpc.h\<close>, the
  field readers of the commit handler, and the driver's encoders in \<open>drive/ib.h\<close> and
  \<open>drive/sib.c\<close>.

  The layout is opcode in bits 31..28; for a page, block number in bits 27..18 and page
  number inside the block in bits 17..0; for a request that wants a reply, the binder in
  bits 7..0. The lemmas say which encoders are inverted by which decoders, and what an open
  request makes of its binder.
\<close>

unbundle bit_operations_syntax

section \<open>Opcodes\<close>

definition RDMA_OPCODE_OPEN :: u32 where "RDMA_OPCODE_OPEN = 0x1"
definition RDMA_OPCODE_CLOSE :: u32 where "RDMA_OPCODE_CLOSE = 0x2"
definition RDMA_OPCODE_COMMIT :: u32 where "RDMA_OPCODE_COMMIT = 0x3"
definition RDMA_OPCODE_TRANSITION :: u32 where "RDMA_OPCODE_TRANSITION = 0x4"
definition RDMA_OPCODE_CHECK :: u32 where "RDMA_OPCODE_CHECK = 0x5"
definition RDMA_OPCODE_GET :: u32 where "RDMA_OPCODE_GET = 0x6"
definition RDMA_OPCODE_QCOMMIT :: u32 where "RDMA_OPCODE_QCOMMIT = 0x7"
definition MULTICAST_OPCODE_FLOW :: u32 where "MULTICAST_OPCODE_FLOW = 0x1"
definition MULTICAST_OPCODE_CHECK :: u32 where "MULTICAST_OPCODE_CHECK = 0x2"
definition MULTICAST_OPCODE_COMMIT :: u32 where "MULTICAST_OPCODE_COMMIT = 0x3"
definition MULTICAST_OPCODE_NONE :: u32 where "MULTICAST_OPCODE_NONE = 0xf"

lemmas opcode_defs =
  RDMA_OPCODE_OPEN_def RDMA_OPCODE_CLOSE_def RDMA_OPCODE_COMMIT_def RDMA_OPCODE_TRANSITION_def
  RDMA_OPCODE_CHECK_def RDMA_OPCODE_GET_def RDMA_OPCODE_QCOMMIT_def MULTICAST_OPCODE_FLOW_def
  MULTICAST_OPCODE_CHECK_def MULTICAST_OPCODE_COMMIT_def MULTICAST_OPCODE_NONE_def

section \<open>Server side: \<open>lib/rpc.c\<close>, \<open>include/rpc.h\<close>\<close>

definition set_ready_buffer :: "u8 \<Rightarrow> u8" where
  "set_ready_buffer b = b OR 0x3"

definition set_release_buffer :: "u8 \<Rightarrow> u8" where
  "set_release_buffer b = b AND 0x0"

definition set_header :: "u32 \<Rightarrow> u64 \<Rightarrow> bool \<times> u32" where
  "set_header opcode offset =
     (let offset' = drop_bit 12 offset;
          header = push_bit 28 opcode;
          header' = header OR ucast (offset' AND 0xfffffff)
      in (True, header'))"

text \<open>
  \<open>interpret_header\<close> fills its three out parameters (opcode, block number, page number in the
  block) and returns whether the opcode is in range; \<open>None\<close> is the \<open>false\<close> return.
\<close>

definition interpret_header :: "u32 \<Rightarrow> (u32 \<times> u32 \<times> u32) option" where
  "interpret_header header =
     (let opcode = drop_bit 28 header in
      if sint opcode \<ge> 32 \<or> sint opcode < 0 then None
      else
        let off = ucast (header AND 0xfffffff) :: u64;
            nr_buffer = ucast (drop_bit 18 off AND 0xfff);
            offset = ucast (off AND 0x3ffff)
        in Some (opcode, nr_buffer, offset))"

definition ib_get_opcode :: "u32 \<Rightarrow> u32" where
  "ib_get_opcode imm_data = drop_bit 28 (imm_data AND 0xf0000000)"

text \<open>The fields the commit handler reads: whether it is a qcommit, and its page count.\<close>

definition commit_is_q :: "u32 \<Rightarrow> bool" where
  "commit_is_q imm_data \<longleftrightarrow> drop_bit 28 imm_data = RDMA_OPCODE_QCOMMIT"

definition commit_count :: "u32 \<Rightarrow> u32" where
  "commit_count imm_data = drop_bit 8 imm_data AND 0xfffff"

text \<open>A receiver finds the binder a reply belongs to in the low byte.\<close>

definition wc_binder :: "u32 \<Rightarrow> u32" where
  "wc_binder imm_data = imm_data AND 0xff"

section \<open>Driver side: \<open>drive/ib.h\<close>, \<open>drive/sib.c\<close>\<close>

definition get_offset :: "u64 \<Rightarrow> u32" where
  "get_offset roffset = ucast (drop_bit 12 roffset AND 0xfffffff)"

definition drv_set_header :: "u32 \<Rightarrow> u32 \<Rightarrow> u32" where
  "drv_set_header opcode offset = (push_bit 28 opcode OR (offset AND 0xfffffff)) AND 0xffffffff"

definition get_num_memblock :: "u32 \<Rightarrow> u32" where
  "get_num_memblock offset = drop_bit 18 offset AND 0x3ff"

text \<open>The header of a page write, the opcode words of the three requests, and the posted word.\<close>

definition flow_header :: "u32 \<Rightarrow> u32" where
  "flow_header offset = push_bit 28 MULTICAST_OPCODE_FLOW OR (offset AND 0xfffffff)"

definition open_opcode :: "u32 \<Rightarrow> u32" where
  "open_opcode offset = push_bit 28 RDMA_OPCODE_OPEN OR offset"

definition commit_opcode :: u32 where
  "commit_opcode = push_bit 28 RDMA_OPCODE_COMMIT"

definition qcommit_opcode :: "u32 \<Rightarrow> u32" where
  "qcommit_opcode count = push_bit 28 RDMA_OPCODE_QCOMMIT OR (push_bit 8 count AND 0xfffff00)"

definition rpc_imm :: "u32 \<Rightarrow> u32 \<Rightarrow> u32" where
  "rpc_imm opcode binder = opcode OR binder"

section \<open>Bit-level lemmas\<close>

lemma mask_words:
  "(0xfffffff :: 'a::len word) = mask 28" "(0x3ffff :: 'a word) = mask 18"
  "(0xfff :: 'a word) = mask 12" "(0x3ff :: 'a word) = mask 10"
  "(0xff :: 'a word) = mask 8" "(0xfffff :: 'a word) = mask 20"
  by (simp_all add: mask_eq_exp_minus_1)

lemma push_mask_words:
  "(0xf0000000 :: u32) = push_bit 28 (mask 4)" "(0xfffff00 :: u32) = push_bit 8 (mask 20)"
  "(0xffffffff :: u32) = mask 32"
  by (simp_all add: mask_eq_exp_minus_1)

lemma small_word_bits: "(w :: 'a::len word) < 2 ^ k \<Longrightarrow> bit w n \<Longrightarrow> n < k"
  by (metis bit_mask_iff bit_and_iff less_mask_eq)

lemma drop_bit_28_small: "drop_bit 28 (w :: u32) < 16"
proof -
  have "unat w < 2 ^ 32" using unsigned_less [of w] by simp
  then have "unat (drop_bit 28 w) < 16"
    unfolding unat_drop_bit_eq by (simp add: drop_bit_eq_div less_mult_imp_div_less)
  then show ?thesis by (simp only: word_less_nat_alt) simp
qed

lemma sint_small: "(w :: u32) < 16 \<Longrightarrow> 0 \<le> sint w \<and> sint w < 16"
proof -
  assume "w < 16"
  then have u: "uint w < 16" by (simp add: word_less_def)
  moreover have "- (2 ^ 31) \<le> uint w" by (rule order_trans [of _ 0]) simp_all
  ultimately have "sint w = uint w" by (simp add: sint_uint signed_take_bit_int_eq_self)
  then show ?thesis using u by simp
qed

text \<open>The three fields of a word built from a 4-bit opcode and a 28-bit offset.\<close>

lemma packed_fields:
  assumes "opc < (16 :: u32)"
  shows "drop_bit 28 (push_bit 28 opc OR (off AND 0xfffffff)) = opc"
    and "drop_bit 18 (push_bit 28 opc OR (off AND 0xfffffff)) AND 0x3ff = drop_bit 18 off AND 0x3ff"
    and "(push_bit 28 opc OR (off AND 0xfffffff)) AND 0x3ffff = off AND 0x3ffff"
    and "(push_bit 28 opc OR (off AND 0xfffffff)) AND 0xfffffff = off AND 0xfffffff"
proof -
  have small: "bit opc n \<Longrightarrow> n < 4" for n
    using assms small_word_bits [of opc 4 n] by simp
  show "drop_bit 28 (push_bit 28 opc OR (off AND 0xfffffff)) = opc"
    by (rule bit_word_eqI) (auto simp: mask_words bit_simps dest: small)
  show "drop_bit 18 (push_bit 28 opc OR (off AND 0xfffffff)) AND 0x3ff = drop_bit 18 off AND 0x3ff"
    by (rule bit_word_eqI) (auto simp: mask_words bit_simps)
  show "(push_bit 28 opc OR (off AND 0xfffffff)) AND 0x3ffff = off AND 0x3ffff"
    by (rule bit_word_eqI) (auto simp: mask_words bit_simps)
  show "(push_bit 28 opc OR (off AND 0xfffffff)) AND 0xfffffff = off AND 0xfffffff"
    by (rule bit_word_eqI) (auto simp: mask_words bit_simps)
qed

lemma interpret_header_eq:
  "interpret_header header =
     Some (drop_bit 28 header, drop_bit 18 header AND 0x3ff, header AND 0x3ffff)"
proof -
  have "ucast (drop_bit 18 (ucast (header AND 0xfffffff) :: u64) AND 0xfff) =
      drop_bit 18 header AND (0x3ff :: u32)"
    by (rule bit_word_eqI) (auto simp: mask_words bit_simps)
  moreover have "ucast ((ucast (header AND 0xfffffff) :: u64) AND 0x3ffff) =
      header AND (0x3ffff :: u32)"
    by (rule bit_word_eqI) (auto simp: mask_words bit_simps)
  ultimately show ?thesis
    using sint_small [OF drop_bit_28_small [of header]] by (simp add: interpret_header_def Let_def)
qed

lemma ib_get_opcode_eq: "ib_get_opcode imm = drop_bit 28 imm"
  by (rule bit_word_eqI) (auto simp: ib_get_opcode_def push_mask_words bit_simps dest: bit_imp_le_length)

lemma drv_set_header_eq: "drv_set_header opc off = push_bit 28 opc OR (off AND 0xfffffff)"
  by (rule bit_word_eqI)
    (auto simp: drv_set_header_def push_mask_words mask_words bit_simps)

lemma opcode_small:
  "RDMA_OPCODE_OPEN < 16" "RDMA_OPCODE_COMMIT < 16" "RDMA_OPCODE_QCOMMIT < 16"
  "MULTICAST_OPCODE_FLOW < 16"
  by (simp_all add: opcode_defs)

text \<open>A page header read by the server: the opcode, the block and the page in the block.\<close>

lemma flow_header_fields [header_simps]:
  "ib_get_opcode (flow_header off) = MULTICAST_OPCODE_FLOW"
  "interpret_header (flow_header off) =
     Some (MULTICAST_OPCODE_FLOW, get_num_memblock off, off AND 0x3ffff)"
  "flow_header off AND 0xfffffff = off AND 0xfffffff"
  using packed_fields [OF opcode_small(4), of off]
  by (simp_all add: flow_header_def ib_get_opcode_eq interpret_header_eq get_num_memblock_def)

text \<open>\<open>set_header\<close> of the server library and of the driver build the same words.\<close>

lemma set_header_eq:
  "set_header opc roffset = (True, push_bit 28 opc OR (get_offset roffset AND 0xfffffff))"
proof -
  have "get_offset roffset AND 0xfffffff = ucast (drop_bit 12 roffset AND 0xfffffff)"
    by (rule bit_word_eqI) (auto simp: get_offset_def mask_words bit_simps)
  then show ?thesis by (simp add: set_header_def Let_def)
qed

lemma set_header_agrees: "set_header opc roffset = (True, drv_set_header opc (get_offset roffset))"
  by (simp add: set_header_eq drv_set_header_eq)

lemma set_header_interpret:
  assumes "opc < 16"
  shows "interpret_header (snd (set_header opc roffset)) =
    Some (opc, ucast (drop_bit 30 roffset AND 0x3ff), ucast (drop_bit 12 roffset AND 0x3ffff))"
proof -
  have "drop_bit 18 (get_offset roffset) AND 0x3ff = ucast (drop_bit 30 roffset AND 0x3ff)"
    "get_offset roffset AND 0x3ffff = ucast (drop_bit 12 roffset AND 0x3ffff)"
    by (rule bit_word_eqI; auto simp: get_offset_def mask_words bit_simps)+
  with packed_fields [OF assms, of "get_offset roffset"] show ?thesis
    by (simp only: set_header_eq interpret_header_eq snd_conv)
qed

section \<open>Requests with a reply\<close>

lemma binder_word_bits: "(b :: u32) < 256 \<Longrightarrow> bit b n \<Longrightarrow> n < 8"
  using small_word_bits [of b 8 n] by simp

text \<open>A commit request keeps its opcode, its page count and its binder apart.\<close>

lemma qcommit_fields [header_simps]:
  assumes "b < 256"
  shows "ib_get_opcode (rpc_imm (qcommit_opcode count) b) = RDMA_OPCODE_QCOMMIT"
    and "commit_is_q (rpc_imm (qcommit_opcode count) b)"
    and "commit_count (rpc_imm (qcommit_opcode count) b) = count AND 0xfffff"
    and "wc_binder (rpc_imm (qcommit_opcode count) b) = b"
proof -
  note b = binder_word_bits [OF assms]
  have q: "bit RDMA_OPCODE_QCOMMIT n \<Longrightarrow> n < 4" for n
    using small_word_bits [of RDMA_OPCODE_QCOMMIT 4 n] opcode_small by simp
  show o: "ib_get_opcode (rpc_imm (qcommit_opcode count) b) = RDMA_OPCODE_QCOMMIT"
    unfolding ib_get_opcode_eq
    by (rule bit_word_eqI)
      (auto simp: rpc_imm_def qcommit_opcode_def push_mask_words bit_simps dest: b q)
  then show "commit_is_q (rpc_imm (qcommit_opcode count) b)"
    by (simp add: commit_is_q_def ib_get_opcode_eq)
  show "commit_count (rpc_imm (qcommit_opcode count) b) = count AND 0xfffff"
    by (rule bit_word_eqI)
      (auto simp: commit_count_def rpc_imm_def qcommit_opcode_def push_mask_words mask_words bit_simps
        dest: b q)
  show "wc_binder (rpc_imm (qcommit_opcode count) b) = b"
    by (rule bit_word_eqI)
      (auto simp: wc_binder_def rpc_imm_def qcommit_opcode_def push_mask_words mask_words bit_simps
        dest: b)
qed

lemma commit_fields [header_simps]:
  assumes "b < 256"
  shows "ib_get_opcode (rpc_imm commit_opcode b) = RDMA_OPCODE_COMMIT"
    and "\<not> commit_is_q (rpc_imm commit_opcode b)"
    and "wc_binder (rpc_imm commit_opcode b) = b"
proof -
  note b = binder_word_bits [OF assms]
  have q: "bit RDMA_OPCODE_COMMIT n \<Longrightarrow> n < 4" for n
    using small_word_bits [of RDMA_OPCODE_COMMIT 4 n] opcode_small by simp
  show o: "ib_get_opcode (rpc_imm commit_opcode b) = RDMA_OPCODE_COMMIT"
    unfolding ib_get_opcode_eq
    by (rule bit_word_eqI) (auto simp: rpc_imm_def commit_opcode_def bit_simps dest: b q)
  then show "\<not> commit_is_q (rpc_imm commit_opcode b)"
    by (simp add: commit_is_q_def ib_get_opcode_eq opcode_defs)
  show "wc_binder (rpc_imm commit_opcode b) = b"
    by (rule bit_word_eqI)
      (auto simp: wc_binder_def rpc_imm_def commit_opcode_def mask_words bit_simps dest: b)
qed

text \<open>
  An open request sends the whole page offset in its opcode word, so the binder shares
  bits 7..0 with the page number: the block and the opcode survive, the binder only when
  every low offset bit is one of its own.
\<close>

lemma open_fields [header_simps]:
  assumes "b < 256" "off < 2 ^ 28"
  shows "ib_get_opcode (rpc_imm (open_opcode off) b) = RDMA_OPCODE_OPEN"
    and "drop_bit 18 (rpc_imm (open_opcode off) b) AND 0x3ff = get_num_memblock off"
    and "wc_binder (rpc_imm (open_opcode off) b) = (off AND 0xff) OR b"
proof -
  note b = binder_word_bits [OF assms(1)]
  have o: "bit off n \<Longrightarrow> n < 28" for n using assms(2) by (rule small_word_bits)
  have q: "bit RDMA_OPCODE_OPEN n \<Longrightarrow> n < 4" for n
    using small_word_bits [of RDMA_OPCODE_OPEN 4 n] opcode_small by simp
  show "ib_get_opcode (rpc_imm (open_opcode off) b) = RDMA_OPCODE_OPEN"
    unfolding ib_get_opcode_eq
    by (rule bit_word_eqI) (auto simp: rpc_imm_def open_opcode_def bit_simps dest: b q o)
  show "drop_bit 18 (rpc_imm (open_opcode off) b) AND 0x3ff = get_num_memblock off"
    by (rule bit_word_eqI)
      (auto simp: rpc_imm_def open_opcode_def get_num_memblock_def mask_words bit_simps dest: b)
  show "wc_binder (rpc_imm (open_opcode off) b) = (off AND 0xff) OR b"
    by (rule bit_word_eqI)
      (auto simp: wc_binder_def rpc_imm_def open_opcode_def mask_words bit_simps dest: b)
qed

section \<open>The words' main properties\<close>

text \<open>
  C27: A page's number survives the trip from the driver's header to the server's fields: for a
  number of at most 28 bits the opcode is the flow opcode, and block number and page in the
  block determine the page number again. The driver and the library build the same word from
  the same address.
\<close>

theorem flow_header_round_trip:
  assumes "off < 2 ^ 28"
  shows "\<exists>nr pg. interpret_header (flow_header off) = Some (MULTICAST_OPCODE_FLOW, nr, pg)
    \<and> nr < 2 ^ 10 \<and> pg < 2 ^ 18 \<and> push_bit 18 nr OR pg = off
    \<and> ib_get_opcode (flow_header off) = MULTICAST_OPCODE_FLOW
    \<and> snd (set_header MULTICAST_OPCODE_FLOW (push_bit 12 (ucast off))) = flow_header off"
proof -
  have bits: "bit off n \<Longrightarrow> n < 28" for n using small_word_bits [OF assms] .
  have "push_bit 18 (get_num_memblock off) OR (off AND 0x3ffff) = off"
    using bits by (intro bit_eqI)
      (force simp: get_num_memblock_def mask_words bit_simps)
  moreover have "get_num_memblock off < 2 ^ 10" "off AND 0x3ffff < 2 ^ 18"
    using and_mask_less' [of 10 "drop_bit 18 off"] and_mask_less' [of 18 off]
    by (simp_all add: get_num_memblock_def mask_words)
  moreover have "get_offset (push_bit 12 (ucast off)) = off"
    using bits by (intro bit_eqI) (force simp: get_offset_def mask_words bit_simps)
  then have "snd (set_header MULTICAST_OPCODE_FLOW (push_bit 12 (ucast off))) = flow_header off"
    by (simp add: set_header_agrees drv_set_header_eq flow_header_def)
  ultimately show ?thesis by (simp add: flow_header_fields)
qed

theorem flow_header_round_trip_witness:
  "\<exists>nr pg. interpret_header (flow_header 0x40005) = Some (MULTICAST_OPCODE_FLOW, nr, pg)
    \<and> push_bit 18 nr OR pg = 0x40005"
  using flow_header_round_trip [of "0x40005"] by auto

text \<open>
  The words of commit and counted commit requests carry opcode, page count (20 bits) and reply
  slot without disturbing each other.
\<close>

theorem commit_words:
  assumes "b < 256"
  shows "ib_get_opcode (rpc_imm commit_opcode b) = RDMA_OPCODE_COMMIT
    \<and> \<not> commit_is_q (rpc_imm commit_opcode b) \<and> wc_binder (rpc_imm commit_opcode b) = b
    \<and> ib_get_opcode (rpc_imm (qcommit_opcode count) b) = RDMA_OPCODE_QCOMMIT
    \<and> commit_is_q (rpc_imm (qcommit_opcode count) b)
    \<and> wc_binder (rpc_imm (qcommit_opcode count) b) = b
    \<and> (count < 2 ^ 20 \<longrightarrow> commit_count (rpc_imm (qcommit_opcode count) b) = count)"
proof -
  have "count AND 0xfffff = count" if "count < 2 ^ 20"
    using that by (simp add: mask_words less_mask_eq)
  then show ?thesis using commit_fields qcommit_fields [where b = b and count = count] assms by simp
qed

theorem commit_words_witness:
  "commit_count (rpc_imm (qcommit_opcode 1024) 17) = 1024"
  using commit_words [of 17 1024] by simp

end
