(* ===== verification/Binder.thy ===== *)
theory Binder
  imports Atomic Wire
begin

text \<open>
  The binder pool of \<open>lib/rpc.c\<close> and \<open>drive/sib.c\<close>: 256 slots that match replies to the
  requests waiting for them. A slot's flag is 0 (free), 1 (taken, no reply yet) or 2 (the
  reply has arrived and \<open>private\<close> names its receive buffer).

  The first part models the operations; the random draws of \<open>rand()\<close> (or of the clock in
  the driver) are a list the search loop consumes. The second part is the pool as several
  threads use it: a step relation over get, post, reply and put, in which a reply carries
  back the immediate word of its request and is filed under that word's low byte.
\<close>

unbundle bit_operations_syntax

section \<open>The operations\<close>

record binder_t =
  flags :: atomic_t
  priv :: addr

type_synonym binders = "binder_t list"

definition NR_BINDERS :: nat where "NR_BINDERS = 256"

definition set_flag :: "u32 \<Rightarrow> binder_t \<Rightarrow> binder_t" where
  "set_flag v b = b\<lparr>flags := atomic_set (flags b) v\<rparr>"

definition flag :: "binders \<Rightarrow> nat \<Rightarrow> u32" where
  "flag bs i = atomic_read (flags (bs ! i))"

definition init_binder :: "binders \<Rightarrow> binders" where
  "init_binder bs = map (set_flag 0) bs"

text \<open>The search draws slots until the compare-and-swap finds one whose flag was 0.\<close>

fun get_binder :: "nat list \<Rightarrow> binders \<Rightarrow> (nat \<times> nat list \<times> binders) result" where
  "get_binder [] bs = Inl Spinning"
| "get_binder (r # rs) bs =
     (let index = r mod NR_BINDERS;
          (old, f) = atomic_cmpxchg (flags (bs ! index)) 0 1;
          bs' = bs[index := (bs ! index)\<lparr>flags := f\<rparr>]
      in if old \<noteq> 0 then get_binder rs bs' else Inr (index, rs, bs'))"

text \<open>In the driver a draw is the clock in nanoseconds, modulo 256.\<close>

definition get_random :: "u64 \<Rightarrow> nat" where
  "get_random ktime = unat (ktime mod 256)"

definition drv_get_binder :: "u64 list \<Rightarrow> binders \<Rightarrow> (nat \<times> nat list \<times> binders) result" where
  "drv_get_binder clock bs = get_binder (map get_random clock) bs"

text \<open>Putting a slot back asserts that its reply has arrived; the driver only complains.\<close>

definition put_binder :: "nat \<Rightarrow> binders \<Rightarrow> binders result" where
  "put_binder i bs =
     (if flag bs i \<noteq> 2 then Inl Assert_Failed else Inr (bs[i := set_flag 0 (bs ! i)]))"

definition drv_put_binder :: "nat \<Rightarrow> binders \<Rightarrow> binders" where
  "drv_put_binder i bs = (if flag bs i \<noteq> 2 then bs else bs[i := set_flag 0 (bs ! i)])"

text \<open>Filing a reply, the last three statements of the receive loops.\<close>

definition file_reply :: "u32 \<Rightarrow> addr \<Rightarrow> binders \<Rightarrow> binders" where
  "file_reply imm_data wr_id bs =
     (let bi = unat (wc_binder imm_data) in bs[bi := set_flag 2 ((bs ! bi)\<lparr>priv := wr_id\<rparr>)])"

section \<open>Lemmas on the operations\<close>

lemma flag_update [simp]:
  "i < length bs \<Longrightarrow> flag (bs[i := b]) j = (if i = j then atomic_read (flags b) else flag bs j)"
  by (simp add: flag_def)

lemma flag_set_flag [simp]: "atomic_read (flags (set_flag v b)) = v"
  by (simp add: set_flag_def)

lemma length_binder_ops [simp]:
  "length (init_binder bs) = length bs"
  "length (drv_put_binder i bs) = length bs"
  "length (file_reply imm w bs) = length bs"
  by (simp_all add: init_binder_def drv_put_binder_def file_reply_def Let_def)

lemma flag_init_binder: "i < length bs \<Longrightarrow> flag (init_binder bs) i = 0"
  by (simp add: flag_def init_binder_def)

lemma wc_binder_less: "unat (wc_binder imm) < 256"
proof -
  have "wc_binder imm < 2 ^ 8"
    unfolding wc_binder_def mask_words by (rule and_mask_less') simp
  then show ?thesis by (simp add: word_less_nat_alt)
qed

lemma flag_file_reply:
  assumes "length bs = NR_BINDERS"
  shows "flag (file_reply imm w bs) i = (if i = unat (wc_binder imm) then 2 else flag bs i)"
  using assms wc_binder_less [of imm] by (auto simp: file_reply_def Let_def NR_BINDERS_def)

text \<open>
  The search takes the first drawn slot that is free, marks it, and changes no other slot;
  it spins exactly while every drawn slot is taken.
\<close>

lemma cmpxchg_taken: "atomic_read f \<noteq> 0 \<Longrightarrow> atomic_cmpxchg f 0 1 = (atomic_read f, f)"
  by (simp add: atomic_defs)

lemma cmpxchg_free: "atomic_read f = 0 \<Longrightarrow> atomic_cmpxchg f 0 1 = (0, atomic_set f 1)"
  by (simp add: atomic_defs)

lemma get_binder_taken [simp]:
  "flag bs (r mod NR_BINDERS) \<noteq> 0 \<Longrightarrow> get_binder (r # rs) bs = get_binder rs bs"
  by (simp add: flag_def cmpxchg_taken)

lemma get_binder_free [simp]:
  "flag bs (r mod NR_BINDERS) = 0 \<Longrightarrow>
   get_binder (r # rs) bs =
     Inr (r mod NR_BINDERS, rs, bs[r mod NR_BINDERS := set_flag 1 (bs ! (r mod NR_BINDERS))])"
  by (simp add: flag_def cmpxchg_free set_flag_def Let_def)

declare get_binder.simps(2) [simp del]

lemma get_binder_spins_iff:
  "get_binder rs bs = Inl e \<longleftrightarrow> e = Spinning \<and> (\<forall>r \<in> set rs. flag bs (r mod NR_BINDERS) \<noteq> 0)"
proof (induction rs)
  case Nil
  then show ?case by auto
next
  case (Cons r rs)
  then show ?case by (cases "flag bs (r mod NR_BINDERS) = 0") auto
qed

lemma get_binder_result:
  "get_binder rs bs = Inr (i, rs', bs') \<Longrightarrow>
   flag bs i = 0 \<and> i < NR_BINDERS \<and> bs' = bs[i := set_flag 1 (bs ! i)]"
proof (induction rs)
  case Nil
  then show ?case by simp
next
  case (Cons r rs)
  then show ?case
    by (cases "flag bs (r mod NR_BINDERS) = 0") (auto simp: NR_BINDERS_def)
qed

section \<open>The pool shared by threads\<close>

text \<open>
  A thread is idle, holds a slot it has just taken, or has posted its request and waits for
  the slot's flag to become 2. \<open>flight\<close> are the requests not answered yet, by immediate word.
\<close>

datatype phase = Idle | Holding nat | Waiting nat

record pool =
  slots :: binders
  phase :: "nat \<Rightarrow> phase"
  flight :: "u32 list"

definition init_pool :: "binders \<Rightarrow> pool" where
  "init_pool bs = \<lparr>slots = init_binder bs, phase = (\<lambda>_. Idle), flight = []\<rparr>"

text \<open>\<open>P\<close> says which opcode words are posted.\<close>

inductive pool_step :: "(u32 \<Rightarrow> bool) \<Rightarrow> pool \<Rightarrow> pool \<Rightarrow> bool" for P where
  get: "phase s t = Idle \<Longrightarrow> get_binder rs (slots s) = Inr (i, rs', bs) \<Longrightarrow>
    pool_step P s (s\<lparr>slots := bs, phase := (phase s)(t := Holding i)\<rparr>)"
| post: "phase s t = Holding i \<Longrightarrow> P opc \<Longrightarrow>
    pool_step P s (s\<lparr>phase := (phase s)(t := Waiting i),
      flight := rpc_imm opc (of_nat i) # flight s\<rparr>)"
| reply: "imm \<in> set (flight s) \<Longrightarrow>
    pool_step P s (s\<lparr>slots := file_reply imm w (slots s), flight := remove1 imm (flight s)\<rparr>)"
| put: "phase s t = Waiting i \<Longrightarrow> put_binder i (slots s) = Inr bs \<Longrightarrow>
    pool_step P s (s\<lparr>slots := bs, phase := (phase s)(t := Idle)\<rparr>)"

inductive pool_reach :: "(u32 \<Rightarrow> bool) \<Rightarrow> pool \<Rightarrow> bool" for P where
  start: "length bs = NR_BINDERS \<Longrightarrow> pool_reach P (init_pool bs)"
| step: "pool_reach P s \<Longrightarrow> pool_step P s s' \<Longrightarrow> pool_reach P s'"

text \<open>The slot a thread uses.\<close>

definition uses :: "phase \<Rightarrow> nat option" where
  "uses p = (case p of Idle \<Rightarrow> None | Holding i \<Rightarrow> Some i | Waiting i \<Rightarrow> Some i)"

definition in_flight :: "pool \<Rightarrow> nat list" where
  "in_flight s = map (\<lambda>imm. unat (wc_binder imm)) (flight s)"

text \<open>
  The invariant: a slot is marked exactly when some thread uses it, no two threads use the
  same slot, and the slots with a request in flight are those of waiting threads whose
  reply has not come; each of them has one request in flight.
\<close>

definition pool_inv :: "pool \<Rightarrow> bool" where
  "pool_inv s \<longleftrightarrow>
     length (slots s) = NR_BINDERS
     \<and> (\<forall>i < NR_BINDERS. flag (slots s) i \<in> {0, 1, 2})
     \<and> (\<forall>t i. uses (phase s t) = Some i \<longrightarrow> i < NR_BINDERS \<and> flag (slots s) i \<noteq> 0)
     \<and> (\<forall>t t' i. uses (phase s t) = Some i \<longrightarrow> uses (phase s t') = Some i \<longrightarrow> t = t')
     \<and> (\<forall>t i. phase s t = Holding i \<longrightarrow> flag (slots s) i = 1)
     \<and> distinct (in_flight s)
     \<and> (\<forall>i. i \<in> set (in_flight s) \<longleftrightarrow> (\<exists>t. phase s t = Waiting i) \<and> flag (slots s) i = 1)"

text \<open>Opcode words that leave the low byte to the slot number.\<close>

definition clear_low_byte :: "u32 \<Rightarrow> bool" where
  "clear_low_byte opc \<longleftrightarrow> wc_binder opc = 0"

lemma reply_slot:
  assumes "clear_low_byte opc" "i < NR_BINDERS"
  shows "unat (wc_binder (rpc_imm opc (of_nat i))) = i"
proof -
  have i: "(of_nat i :: u32) < 2 ^ 8"
    using assms(2) by (simp add: NR_BINDERS_def word_less_nat_alt unat_of_nat)
  have "wc_binder (rpc_imm opc (of_nat i)) = wc_binder opc OR (of_nat i AND mask 8)"
    by (simp add: wc_binder_def rpc_imm_def mask_words word_ao_dist)
  also have "\<dots> = of_nat i"
    using assms(1) less_mask_eq [OF i] by (simp add: clear_low_byte_def)
  finally show ?thesis
    using assms(2) by (simp add: NR_BINDERS_def unat_of_nat)
qed

lemma uses_simps [simp]:
  "uses Idle = None" "uses (Holding i) = Some i" "uses (Waiting i) = Some i"
  by (simp_all add: uses_def)

lemma pool_inv_init: "length bs = NR_BINDERS \<Longrightarrow> pool_inv (init_pool bs)"
  by (simp add: pool_inv_def init_pool_def in_flight_def flag_init_binder)

lemma pool_inv_get:
  assumes inv: "pool_inv s" and idle: "phase s t = Idle"
    and get: "get_binder rs (slots s) = Inr (i, rs', bs)"
  shows "pool_inv (s\<lparr>slots := bs, phase := (phase s)(t := Holding i)\<rparr>)"
proof -
  have g: "flag (slots s) i = 0" "i < NR_BINDERS" "bs = (slots s)[i := set_flag 1 (slots s ! i)]"
    using get_binder_result [OF get] by auto
  have free: "uses (phase s t') \<noteq> Some i" for t'
    using inv g(1) unfolding pool_inv_def by metis
  have nw: "phase s t' \<noteq> Waiting i" for t' using free [of t'] by auto
  have nf: "i \<notin> set (in_flight s)" using inv g(1) unfolding pool_inv_def by auto
  show ?thesis
    using inv idle g free nw nf unfolding pool_inv_def in_flight_def
    by (auto split: if_splits) (metis phase.distinct phase.inject)+
qed

lemma pool_inv_post:
  assumes inv: "pool_inv s" and h: "phase s t = Holding i" and low: "clear_low_byte opc"
  shows "pool_inv (s\<lparr>phase := (phase s)(t := Waiting i), flight := rpc_imm opc (of_nat i) # flight s\<rparr>)"
proof -
  have u: "uses (phase s t) = Some i" using h by simp
  have i: "i < NR_BINDERS" "flag (slots s) i = 1"
    using inv h u unfolding pool_inv_def by blast+
  have only: "uses (phase s t') = Some i \<Longrightarrow> t' = t" for t'
    using inv u unfolding pool_inv_def by blast
  have nw: "phase s t' \<noteq> Waiting i" for t' using only [of t'] h by auto
  have nf: "i \<notin> set (in_flight s)" using inv nw unfolding pool_inv_def by blast
  have fl: "in_flight (s\<lparr>phase := (phase s)(t := Waiting i), flight := rpc_imm opc (of_nat i) # flight s\<rparr>)
      = i # in_flight s"
    by (simp add: in_flight_def reply_slot [OF low i(1)])
  show ?thesis
    using inv h i only nw nf unfolding pool_inv_def fl
    by (auto split: if_splits) (metis phase.distinct phase.inject)+
qed

lemma in_flight_remove1:
  assumes "distinct (map f xs)" "x \<in> set xs"
  shows "distinct (map f (remove1 x xs))" "set (map f (remove1 x xs)) = set (map f xs) - {f x}"
  using assms by (induction xs) auto

lemma pool_inv_reply:
  assumes inv: "pool_inv s" and imm: "imm \<in> set (flight s)"
  shows "pool_inv (s\<lparr>slots := file_reply imm w (slots s), flight := remove1 imm (flight s)\<rparr>)"
proof -
  let ?b = "unat (wc_binder imm)"
  have len: "length (slots s) = NR_BINDERS" using inv by (simp add: pool_inv_def)
  have b: "?b \<in> set (in_flight s)" using imm by (auto simp: in_flight_def)
  have d: "distinct (in_flight s)" using inv by (simp add: pool_inv_def)
  have fl: "distinct (map (\<lambda>imm. unat (wc_binder imm)) (remove1 imm (flight s)))"
    "set (map (\<lambda>imm. unat (wc_binder imm)) (remove1 imm (flight s))) = set (in_flight s) - {?b}"
    using in_flight_remove1 [of "\<lambda>imm. unat (wc_binder imm)" "flight s" imm] d imm
    by (auto simp: in_flight_def)
  obtain t where t: "phase s t = Waiting ?b" "flag (slots s) ?b = 1"
    using inv b unfolding pool_inv_def by blast
  have only: "uses (phase s t') = Some ?b \<Longrightarrow> t' = t" for t'
    using inv t(1) unfolding pool_inv_def by (metis uses_simps(3))
  have nh: "phase s t' \<noteq> Holding ?b" for t' using only [of t'] t by auto
  show ?thesis
    using inv fl nh unfolding pool_inv_def in_flight_def
    by (auto simp: flag_file_reply [OF len] split: if_splits)
qed

lemma pool_inv_put:
  assumes inv: "pool_inv s" and w: "phase s t = Waiting i"
    and put: "put_binder i (slots s) = Inr bs"
  shows "pool_inv (s\<lparr>slots := bs, phase := (phase s)(t := Idle)\<rparr>)"
proof -
  have p: "flag (slots s) i = 2" "bs = (slots s)[i := set_flag 0 (slots s ! i)]"
    using put by (auto simp: put_binder_def split: if_splits)
  have u: "uses (phase s t) = Some i" using w by simp
  have i: "i < length (slots s)" using inv u unfolding pool_inv_def by auto
  have only: "uses (phase s t') = Some i \<Longrightarrow> t' = t" for t'
    using inv u unfolding pool_inv_def by blast
  have nf: "i \<notin> set (in_flight s)" using inv p(1) unfolding pool_inv_def by auto
  show ?thesis
    using inv w p i only nf unfolding pool_inv_def in_flight_def
    by (auto split: if_splits) (metis phase.distinct phase.inject)+
qed

lemma pool_step_inv: "pool_step clear_low_byte s s' \<Longrightarrow> pool_inv s \<Longrightarrow> pool_inv s'"
  by (induction rule: pool_step.induct)
    (simp_all add: pool_inv_get pool_inv_post pool_inv_reply pool_inv_put)

lemma pool_reach_inv: "pool_reach clear_low_byte s \<Longrightarrow> pool_inv s"
  by (induction rule: pool_reach.induct) (auto intro: pool_inv_init pool_step_inv)

section \<open>The pool's main properties\<close>

text \<open>
  Drawing a slot either finds the first drawn slot that is free, marks it taken and changes no
  other slot, or every slot drawn was taken and the caller is still drawing.
\<close>

theorem get_binder_first_free:
  "case get_binder rs bs of
     Inl e \<Rightarrow> e = Spinning \<and> (\<forall>r \<in> set rs. flag bs (r mod NR_BINDERS) \<noteq> 0)
   | Inr (i, rs', bs') \<Rightarrow>
       \<exists>pre r. rs = pre @ r # rs' \<and> (\<forall>q \<in> set pre. flag bs (q mod NR_BINDERS) \<noteq> 0)
         \<and> i = r mod NR_BINDERS \<and> flag bs i = 0 \<and> bs' = bs[i := set_flag 1 (bs ! i)]"
proof (induction rs)
  case Nil
  then show ?case by simp
next
  case (Cons r rs)
  show ?case
  proof (cases "flag bs (r mod NR_BINDERS) = 0")
    case True
    then show ?thesis by (auto intro!: exI [of _ "[]"])
  next
    case False
    show ?thesis
    proof (cases "get_binder rs bs")
      case (Inl e)
      then show ?thesis using Cons False by simp
    next
      case (Inr x)
      obtain i rs' bs' where x: "x = (i, rs', bs')" by (cases x)
      obtain pre q where "rs = pre @ q # rs'" "\<forall>k \<in> set pre. flag bs (k mod NR_BINDERS) \<noteq> 0"
          "i = q mod NR_BINDERS" "flag bs i = 0" "bs' = bs[i := set_flag 1 (bs ! i)]"
        using Cons Inr x by auto
      then show ?thesis using False Inr x by (auto intro!: exI [of _ "r # pre"] exI [of _ q])
    qed
  qed
qed

definition ex_slots :: binders where
  "ex_slots = replicate NR_BINDERS \<lparr>flags = \<lparr>counter = 0\<rparr>, priv = 0\<rparr>"

lemma ex_slots: "length ex_slots = NR_BINDERS" "i < NR_BINDERS \<Longrightarrow> flag ex_slots i = 0"
  by (simp_all add: ex_slots_def flag_def atomic_defs)

theorem get_binder_first_free_witness:
  "\<exists>pre r. [5, 261, 7] = pre @ r # ([] :: nat list)
     \<and> (\<forall>q \<in> set pre. flag (ex_slots[5 := set_flag 1 (ex_slots ! 5)]) (q mod NR_BINDERS) \<noteq> 0)"
proof -
  let ?bs = "ex_slots[5 := set_flag 1 (ex_slots ! 5)]"
  have "get_binder [5, 261, 7] ?bs = Inr (7, [], ?bs[7 := set_flag 1 (?bs ! 7)])"
    using ex_slots by (simp add: NR_BINDERS_def)
  then show ?thesis using get_binder_first_free [of "[5, 261, 7]" ?bs] by auto
qed



end
