(* ===== verification/Verbs.thy ===== *)
theory Verbs
  imports Prelude
begin

text \<open>
  Sending over the verbs interface: the work request each send function of \<open>lib/ib.c\<close> and
  \<open>drive/sib.c\<close> builds, and the busy-wait for its completion.

  The verbs library is outside the repository. What a call of it returns is an argument:
  whether \<open>ibv_post_send\<close> takes the request, and the list of what the successive
  \<open>ibv_poll_cq\<close> calls find (nothing, an error, or one work completion). A completion names
  by \<open>wr_id\<close> the \<open>done\<close> variable of the request it belongs to, and the loop stores 1 there,
  so the variables of all senders sharing the queue are one store.

  The last part is that sharing: several senders polling one completion queue, as a step
  relation with the invariant that no sender's completion is lost while none fails.
\<close>

unbundle bit_operations_syntax

section \<open>Work requests and completions\<close>

datatype wr_opcode = WR_SEND | WR_SEND_WITH_IMM | WR_RDMA_WRITE | WR_RDMA_READ

record send_wr =
  wr_done :: addr            \<comment> \<open>\<open>wr_id\<close>: the address of the sender's \<open>done\<close>\<close>
  wr_op :: wr_opcode
  sge_addr :: addr
  sge_length :: u32
  sge_lkey :: u32
  wr_signaled :: bool
  wr_inline :: bool
  wr_imm :: u32
  wr_remote_addr :: u64
  wr_rkey :: u32
  wr_ah :: addr
  wr_remote_qpn :: u32
  wr_remote_qkey :: u32

definition blank_wr :: send_wr where
  "blank_wr = \<lparr>wr_done = 0, wr_op = WR_SEND, sge_addr = 0, sge_length = 0, sge_lkey = 0,
     wr_signaled = False, wr_inline = False, wr_imm = 0, wr_remote_addr = 0, wr_rkey = 0,
     wr_ah = 0, wr_remote_qpn = 0, wr_remote_qkey = 0\<rparr>"

record wc =
  wr_id :: addr
  imm_data :: u32
  wc_ok :: bool             \<comment> \<open>\<open>status == IBV_WC_SUCCESS\<close>\<close>

datatype poll = Poll_Empty | Poll_Error | Poll_Wc wc

type_synonym done_flags = "addr \<Rightarrow> u64"

section \<open>The busy-wait\<close>

text \<open>
  \<open>while(!done)\<close> of \<open>__ib_send\<close>, \<open>__ib_multi_send\<close> and the driver's two senders: nothing or an
  error is polled again, a failed completion ends the wait with \<open>False\<close>, whoever sent it.
\<close>

fun send_loop :: "addr \<Rightarrow> poll list \<Rightarrow> done_flags \<Rightarrow> (bool \<times> poll list \<times> done_flags) result" where
  "send_loop d [] st = (if st d \<noteq> 0 then Inr (True, [], st) else Inl Spinning)"
| "send_loop d (p # ps) st =
     (if st d \<noteq> 0 then Inr (True, p # ps, st)
      else (case p of
              Poll_Empty \<Rightarrow> send_loop d ps st
            | Poll_Error \<Rightarrow> send_loop d ps st
            | Poll_Wc w \<Rightarrow>
                if \<not> wc_ok w then Inr (False, ps, st) else send_loop d ps (st(wr_id w := 1))))"

section \<open>The senders of \<open>lib/ib.c\<close>\<close>

type_synonym sent = "send_wr \<times> bool \<times> poll list \<times> done_flags"

text \<open>Post the request, then wait; a rejected post is the \<open>assert(!bad_wr)\<close>.\<close>

definition post_and_wait ::
  "bool \<Rightarrow> poll list \<Rightarrow> done_flags \<Rightarrow> send_wr \<Rightarrow> sent result" where
  "post_and_wait post_ok polls st wr =
     (if \<not> post_ok then Inl Assert_Failed
      else rbind (send_loop (wr_done wr) polls (st(wr_done wr := 0)))
             (\<lambda>(ok, polls', st'). Inr (wr, ok, polls', st')))"

definition raw_ib_send ::
  "bool \<Rightarrow> poll list \<Rightarrow> done_flags \<Rightarrow> addr \<Rightarrow> wr_opcode \<Rightarrow> u32 \<Rightarrow> addr \<Rightarrow> u64 \<Rightarrow> u32
   \<Rightarrow> addr \<Rightarrow> u32 \<Rightarrow> bool \<Rightarrow> sent result" where
  "raw_ib_send post_ok polls st dne opcode lkey buffer sz imm remote_addr remote_rkey inline_data =
     (let wr = blank_wr\<lparr>wr_done := dne, sge_addr := buffer, sge_length := ucast sz,
                sge_lkey := lkey, wr_op := opcode, wr_signaled := True, wr_imm := imm\<rparr>;
          wr' = (if opcode \<noteq> WR_SEND \<and> opcode \<noteq> WR_SEND_WITH_IMM
                 then wr\<lparr>wr_remote_addr := remote_addr, wr_rkey := remote_rkey\<rparr> else wr);
          wr'' = (if inline_data then wr'\<lparr>wr_inline := True\<rparr> else wr')
      in post_and_wait post_ok polls st wr'')"

text \<open>\<open>__ib_multi_send\<close> takes \<open>inline_data\<close> too but never looks at it.\<close>

definition raw_ib_multi_send ::
  "bool \<Rightarrow> poll list \<Rightarrow> done_flags \<Rightarrow> addr \<Rightarrow> wr_opcode \<Rightarrow> u32 \<Rightarrow> addr \<Rightarrow> u64 \<Rightarrow> u32
   \<Rightarrow> addr \<Rightarrow> u32 \<Rightarrow> u32 \<Rightarrow> bool \<Rightarrow> sent result" where
  "raw_ib_multi_send post_ok polls st dne opcode lkey buffer sz imm ah remote_qpn remote_qkey
     inline_data =
     post_and_wait post_ok polls st
       (blank_wr\<lparr>wr_done := dne, sge_addr := buffer, sge_length := ucast sz, sge_lkey := lkey,
          wr_op := opcode, wr_signaled := True, wr_imm := imm,
          wr_ah := ah, wr_remote_qpn := remote_qpn, wr_remote_qkey := remote_qkey\<rparr>)"

definition ib_rdma_send ::
  "bool \<Rightarrow> poll list \<Rightarrow> done_flags \<Rightarrow> addr \<Rightarrow> u32 \<Rightarrow> addr \<Rightarrow> u64 \<Rightarrow> u32 \<Rightarrow> bool \<Rightarrow> sent result" where
  "ib_rdma_send post_ok polls st dne lkey buffer sz imm inline_data =
     raw_ib_send post_ok polls st dne WR_SEND_WITH_IMM lkey buffer sz imm NULL 0 inline_data"

definition ib_rdma_write ::
  "bool \<Rightarrow> poll list \<Rightarrow> done_flags \<Rightarrow> addr \<Rightarrow> u32 \<Rightarrow> addr \<Rightarrow> u64 \<Rightarrow> addr \<Rightarrow> u32 \<Rightarrow> bool \<Rightarrow> sent result" where
  "ib_rdma_write post_ok polls st dne lkey buffer sz remote_addr remote_rkey inline_data =
     raw_ib_send post_ok polls st dne WR_RDMA_WRITE lkey buffer sz 0 remote_addr remote_rkey
       inline_data"

definition ib_rdma_read ::
  "bool \<Rightarrow> poll list \<Rightarrow> done_flags \<Rightarrow> addr \<Rightarrow> u32 \<Rightarrow> addr \<Rightarrow> u64 \<Rightarrow> addr \<Rightarrow> u32 \<Rightarrow> bool \<Rightarrow> sent result" where
  "ib_rdma_read post_ok polls st dne lkey buffer sz remote_addr remote_rkey inline_data =
     raw_ib_send post_ok polls st dne WR_RDMA_READ lkey buffer sz 0 remote_addr remote_rkey
       inline_data"

definition ib_multicast_send_detail ::
  "bool \<Rightarrow> poll list \<Rightarrow> done_flags \<Rightarrow> addr \<Rightarrow> u32 \<Rightarrow> addr \<Rightarrow> u64 \<Rightarrow> u32 \<Rightarrow> addr \<Rightarrow> u32 \<Rightarrow> u32 \<Rightarrow> sent result"
  where
  "ib_multicast_send_detail post_ok polls st dne lkey buffer sz header ah remote_qpn remote_qkey =
     raw_ib_multi_send post_ok polls st dne WR_SEND_WITH_IMM lkey buffer sz header ah remote_qpn
       remote_qkey False"

text \<open>\<open>__ib_multicast_send\<close> takes the address handle, queue pair and key of the joined group.\<close>

record multicast_dest =
  md_ah :: addr
  md_remote_qpn :: u32
  md_remote_qkey :: u32

definition ib_multicast_send ::
  "bool \<Rightarrow> poll list \<Rightarrow> done_flags \<Rightarrow> addr \<Rightarrow> multicast_dest \<Rightarrow> u32 \<Rightarrow> addr \<Rightarrow> u64 \<Rightarrow> u32 \<Rightarrow> sent result"
  where
  "ib_multicast_send post_ok polls st dne mcm lkey buffer sz imm =
     raw_ib_multi_send post_ok polls st dne WR_SEND_WITH_IMM lkey buffer sz imm (md_ah mcm)
       (md_remote_qpn mcm) (md_remote_qkey mcm) False"

text \<open>The inline send asserts its size, posts an unsignaled request and does not wait.\<close>

definition ib_multicast_inline_send ::
  "bool \<Rightarrow> addr \<Rightarrow> u32 \<Rightarrow> addr \<Rightarrow> u64 \<Rightarrow> addr \<Rightarrow> u32 \<Rightarrow> u32 \<Rightarrow> (send_wr \<times> bool) result" where
  "ib_multicast_inline_send post_ok dne imm buffer sz ah remote_qpn remote_qkey =
     (if \<not> sz \<le> 64 then Inl Assert_Failed
      else if \<not> post_ok then Inl Assert_Failed
      else Inr (blank_wr\<lparr>wr_done := dne, wr_op := WR_SEND_WITH_IMM, wr_inline := True,
                  sge_addr := buffer, sge_length := ucast sz, wr_imm := imm,
                  wr_ah := ah, wr_remote_qpn := remote_qpn, wr_remote_qkey := remote_qkey\<rparr>, True))"

text \<open>\<open>ib_putback_recv_work\<close>: the receive goes back to the end of the receive queue.\<close>

definition ib_putback_recv_work :: "bool \<Rightarrow> addr list \<Rightarrow> addr \<Rightarrow> addr list result" where
  "ib_putback_recv_work post_ok rq rw = (if \<not> post_ok then Inl Assert_Failed else Inr (rq @ [rw]))"

section \<open>When the wait ends\<close>

text \<open>A poll result that neither ends the wait of \<open>d\<close> nor completes it.\<close>

definition passes_by :: "addr \<Rightarrow> poll \<Rightarrow> bool" where
  "passes_by d p = (case p of Poll_Wc w \<Rightarrow> wc_ok w \<and> wr_id w \<noteq> d | _ \<Rightarrow> True)"

text \<open>The stores made for completions of other senders.\<close>

fun reap :: "poll list \<Rightarrow> done_flags \<Rightarrow> done_flags" where
  "reap [] st = st"
| "reap (Poll_Wc w # ps) st = reap ps (st(wr_id w := 1))"
| "reap (_ # ps) st = reap ps st"

lemma reap_other: "\<forall>p \<in> set ps. passes_by d p \<Longrightarrow> reap ps st d = st d"
  by (induction ps st rule: reap.induct) (auto simp: passes_by_def)

lemma reap_mono: "st x = 1 \<Longrightarrow> reap ps st x = 1"
  by (induction ps st rule: reap.induct) auto

lemma reap_done: "Poll_Wc w \<in> set ps \<Longrightarrow> reap ps st (wr_id w) = 1"
  by (induction ps st rule: reap.induct) (auto simp: reap_mono)

lemma send_loop_done: "st d \<noteq> 0 \<Longrightarrow> send_loop d ps st = Inr (True, ps, st)"
  by (cases ps) auto

lemma send_loop_pass:
  "\<forall>p \<in> set pre. passes_by d p \<Longrightarrow> st d = 0 \<Longrightarrow>
   send_loop d (pre @ ps) st = send_loop d ps (reap pre st)"
proof (induction pre arbitrary: st)
  case Nil
  then show ?case by simp
next
  case (Cons p pre)
  then show ?case by (cases p) (auto simp: passes_by_def)
qed

lemma send_loop_own:
  assumes "\<forall>p \<in> set pre. passes_by d p" "st d = 0" "wr_id w = d" "wc_ok w"
  shows "send_loop d (pre @ Poll_Wc w # ps) st = Inr (True, ps, (reap pre st)(d := 1))"
  using assms reap_other [OF assms(1), of st] by (simp add: send_loop_pass send_loop_done)

lemma send_loop_failed:
  assumes "\<forall>p \<in> set pre. passes_by d p" "st d = 0" "\<not> wc_ok w"
  shows "send_loop d (pre @ Poll_Wc w # ps) st = Inr (False, ps, reap pre st)"
  using assms reap_other [OF assms(1), of st] by (simp add: send_loop_pass)

lemma send_loop_waits:
  assumes "\<forall>p \<in> set pre. passes_by d p" "st d = 0"
  shows "send_loop d pre st = Inl Spinning"
  using send_loop_pass [of pre d st "[]"] reap_other [OF assms(1), of st] assms by simp

text \<open>So the wait has three outcomes, decided by the first poll result that does not pass by.\<close>

lemma send_loop_cases:
  assumes "st d = 0"
  shows "send_loop d ps st =
    (case dropWhile (passes_by d) ps of
       [] \<Rightarrow> Inl Spinning
     | p # rest \<Rightarrow>
         (case p of
            Poll_Wc w \<Rightarrow>
              if wc_ok w then Inr (True, rest, (reap (takeWhile (passes_by d) ps) st)(d := 1))
              else Inr (False, rest, reap (takeWhile (passes_by d) ps) st)
          | _ \<Rightarrow> Inl Spinning))"
proof (cases "dropWhile (passes_by d) ps")
  case Nil
  then have "\<forall>p \<in> set ps. passes_by d p" by (simp add: dropWhile_eq_Nil_conv)
  then have "send_loop d ps st = Inl Spinning" using assms by (rule send_loop_waits)
  with Nil show ?thesis by (simp only: list.case)
next
  case (Cons p rest)
  have pre: "\<forall>q \<in> set (takeWhile (passes_by d) ps). passes_by d q"
    by (auto dest: set_takeWhileD)
  have np: "\<not> passes_by d p" using Cons by (simp add: dropWhile_eq_Cons_conv)
  have ps: "ps = takeWhile (passes_by d) ps @ p # rest"
    using Cons by (metis takeWhile_dropWhile_id)
  show ?thesis
  proof (cases p)
    case (Poll_Wc w)
    with np have w: "wc_ok w \<Longrightarrow> wr_id w = d" by (auto simp: passes_by_def)
    show ?thesis
    proof (cases "wc_ok w")
      case True
      with send_loop_own [of _ d st w rest, OF pre assms w] ps Poll_Wc
      have "send_loop d ps st = Inr (True, rest, (reap (takeWhile (passes_by d) ps) st)(d := 1))"
        by simp
      with True Cons Poll_Wc show ?thesis by simp
    next
      case False
      with send_loop_failed [of _ d st w rest, OF pre assms] ps Poll_Wc
      have "send_loop d ps st = Inr (False, rest, reap (takeWhile (passes_by d) ps) st)"
        by simp
      with False Cons Poll_Wc show ?thesis by simp
    qed
  qed (use np in \<open>simp_all add: passes_by_def\<close>)
qed

section \<open>Senders sharing a completion queue\<close>

text \<open>
  A sender is known by the address of its \<open>done\<close> variable. It posts (clearing \<open>done\<close>), the
  adapter completes posted requests in any order, any waiting sender may poll the next
  completion, and a waiting sender whose \<open>done\<close> is set returns \<open>True\<close>.
\<close>

record cq_state =
  done_of :: done_flags
  waiting :: "addr set"
  posted :: "addr set"
  queue :: "wc list"
  returned :: "addr \<rightharpoonup> bool"

definition cq_start :: cq_state where
  "cq_start = \<lparr>done_of = (\<lambda>_. 0), waiting = {}, posted = {}, queue = [], returned = Map.empty\<rparr>"

text \<open>\<open>ok\<close> says which requests the adapter completes successfully.\<close>

inductive cq_step :: "(addr \<Rightarrow> bool) \<Rightarrow> cq_state \<Rightarrow> cq_state \<Rightarrow> bool" for ok where
  cq_post: "d \<notin> waiting s \<Longrightarrow> d \<notin> posted s \<Longrightarrow> d \<notin> wr_id ` set (queue s) \<Longrightarrow>
    cq_step ok s (s\<lparr>done_of := (done_of s)(d := 0), waiting := insert d (waiting s),
      posted := insert d (posted s), returned := (returned s)(d := None)\<rparr>)"
| cq_complete: "d \<in> posted s \<Longrightarrow>
    cq_step ok s (s\<lparr>posted := posted s - {d},
      queue := queue s @ [\<lparr>wr_id = d, imm_data = 0, wc_ok = ok d\<rparr>]\<rparr>)"
| cq_poll: "d \<in> waiting s \<Longrightarrow> done_of s d = 0 \<Longrightarrow> queue s = w # ws \<Longrightarrow> wc_ok w \<Longrightarrow>
    cq_step ok s (s\<lparr>done_of := (done_of s)(wr_id w := 1), queue := ws\<rparr>)"
| cq_poll_failed: "d \<in> waiting s \<Longrightarrow> done_of s d = 0 \<Longrightarrow> queue s = w # ws \<Longrightarrow> \<not> wc_ok w \<Longrightarrow>
    cq_step ok s (s\<lparr>waiting := waiting s - {d}, queue := ws, returned := (returned s)(d \<mapsto> False)\<rparr>)"
| cq_return: "d \<in> waiting s \<Longrightarrow> done_of s d \<noteq> 0 \<Longrightarrow>
    cq_step ok s (s\<lparr>waiting := waiting s - {d}, returned := (returned s)(d \<mapsto> True)\<rparr>)"

inductive cq_reach :: "(addr \<Rightarrow> bool) \<Rightarrow> cq_state \<Rightarrow> bool" for ok where
  cq_init: "cq_reach ok cq_start"
| cq_next: "cq_reach ok s \<Longrightarrow> cq_step ok s s' \<Longrightarrow> cq_reach ok s'"

text \<open>While no request fails, a waiting sender is done, still posted, or in the queue.\<close>

definition cq_inv :: "cq_state \<Rightarrow> bool" where
  "cq_inv s \<longleftrightarrow>
     (\<forall>w \<in> set (queue s). wc_ok w)
     \<and> (\<forall>d \<in> waiting s. done_of s d \<noteq> 0 \<or> d \<in> posted s \<or> d \<in> wr_id ` set (queue s))
     \<and> False \<notin> ran (returned s)"

lemma cq_step_inv:
  assumes "cq_step ok s s'" "\<forall>d. ok d" "cq_inv s"
  shows "cq_inv s'"
  using assms
proof (induction rule: cq_step.induct)
  case (cq_post d s)
  then show ?case by (auto simp: cq_inv_def ran_def)
next
  case (cq_complete d s)
  then show ?case by (auto simp: cq_inv_def)
next
  case (cq_poll d s w ws)
  then show ?case by (auto simp: cq_inv_def)
next
  case (cq_poll_failed d s w ws)
  then show ?case by (auto simp: cq_inv_def)
next
  case (cq_return d s)
  then show ?case by (auto simp: cq_inv_def ran_def)
qed

lemma cq_reach_inv: "cq_reach ok s \<Longrightarrow> \<forall>d. ok d \<Longrightarrow> cq_inv s"
  by (induction rule: cq_reach.induct)
    (auto simp: cq_start_def intro: cq_step_inv, simp add: cq_inv_def)

section \<open>The senders' main properties\<close>

text \<open>
  A multicast send whose request was accepted waits through completions of other senders, marking
  them done; it returns true when its own completion arrives, false at the first failed
  completion it polls, whoever sent that, and otherwise keeps waiting. The request carries the
  destination of the group and the given immediate word.
\<close>

theorem multicast_send_outcome:
  "let wr = blank_wr\<lparr>wr_done := d, sge_addr := buf, sge_length := ucast sz, sge_lkey := lkey,
              wr_op := WR_SEND_WITH_IMM, wr_signaled := True, wr_imm := imm, wr_ah := md_ah mcm,
              wr_remote_qpn := md_remote_qpn mcm, wr_remote_qkey := md_remote_qkey mcm\<rparr>;
       others = takeWhile (passes_by d) polls
   in ib_multicast_send True polls st d mcm lkey buf sz imm =
     (case dropWhile (passes_by d) polls of
        Poll_Wc w # rest \<Rightarrow>
          if wc_ok w then Inr (wr, True, rest, (reap others (st(d := 0)))(d := 1))
          else Inr (wr, False, rest, reap others (st(d := 0)))
      | _ \<Rightarrow> Inl Spinning)"
  using send_loop_cases [of "st(d := 0)" d polls]
  by (simp add: ib_multicast_send_def raw_ib_multi_send_def post_and_wait_def blank_wr_def
      del: dropWhile_eq_Nil_conv dropWhile_eq_Cons_conv split: list.split poll.split)



end
