(* ===== verification/Rpc.thy ===== *)
theory Rpc
  imports Binder Verbs
begin

text \<open>
  Request and reply: \<open>ib_rpc\<close> and \<open>ib_multicast_rpc\<close> of \<open>lib/rpc.c\<close>, \<open>__ib_rpc\<close> of
  \<open>drive/sib.c\<close>. A call takes a slot of the pool, posts its request with the slot number in
  the immediate word, and polls the receive queue, filing every reply it finds (its own or
  another thread's) until its own slot is marked; then it copies the reply out, gives the
  receive buffer back to the adapter and frees the slot.

  The environment of one call (draws, whether the post is taken, what the polls find, where
  \<open>done\<close> lives) is the record \<open>rpc_env\<close>; \<open>rws\<close> is what the adapter has written into the
  receive work requests, by address.
\<close>

unbundle bit_operations_syntax

section \<open>State and environment\<close>

record rpc_state =
  r_binders :: binders
  r_done :: done_flags
  r_sent :: "send_wr list"
  r_rq :: "addr list"

record 'r rpc_env =
  e_draws :: "nat list"
  e_post_ok :: bool
  e_recv_polls :: "poll list"
  e_send_polls :: "poll list"
  e_done :: addr
  e_rws :: "addr \<rightharpoonup> 'r"

section \<open>\<open>lib/rpc.c\<close>\<close>

text \<open>The receive loop: \<open>False\<close> is its \<open>return false\<close> on a poll error.\<close>

fun recv_loop :: "nat \<Rightarrow> poll list \<Rightarrow> binders \<Rightarrow> (bool \<times> binders) result" where
  "recv_loop b [] bs = (if flag bs b = 2 then Inr (True, bs) else Inl Spinning)"
| "recv_loop b (p # ps) bs =
     (if flag bs b = 2 then Inr (True, bs)
      else (case p of
              Poll_Empty \<Rightarrow> recv_loop b ps bs
            | Poll_Error \<Rightarrow> Inr (False, bs)
            | Poll_Wc w \<Rightarrow> recv_loop b ps (file_reply (imm_data w) (wr_id w) bs)))"

text \<open>
  The closing wait for the send completion, \<open>while (mr && !done)\<close>: a poll error breaks out of
  it (and the call succeeds), a failed completion makes the call fail.
\<close>

fun rpc_send_loop :: "addr \<Rightarrow> poll list \<Rightarrow> done_flags \<Rightarrow> (bool \<times> done_flags) result" where
  "rpc_send_loop d [] st = (if st d \<noteq> 0 then Inr (True, st) else Inl Spinning)"
| "rpc_send_loop d (p # ps) st =
     (if st d \<noteq> 0 then Inr (True, st)
      else (case p of
              Poll_Empty \<Rightarrow> rpc_send_loop d ps st
            | Poll_Error \<Rightarrow> Inr (True, st)
            | Poll_Wc w \<Rightarrow>
                if \<not> wc_ok w then Inr (False, st) else rpc_send_loop d ps (st(wr_id w := 1))))"

definition ib_rpc ::
  "'r rpc_env \<Rightarrow> u32 \<Rightarrow> addr \<Rightarrow> u64 \<Rightarrow> u32 option \<Rightarrow> rpc_state \<Rightarrow> (bool \<times> 'r option \<times> rpc_state) result"
  where
  "ib_rpc e opcode req req_size mr s =
     rbind (get_binder (e_draws e) (r_binders s)) (\<lambda>(b, _, bs).
       let wr = blank_wr\<lparr>wr_done := e_done e, wr_op := WR_SEND_WITH_IMM, sge_addr := req,
                  sge_length := ucast req_size, wr_imm := rpc_imm opcode (of_nat b)\<rparr>;
           wr' = (case mr of None \<Rightarrow> wr\<lparr>wr_inline := True\<rparr> | Some lkey \<Rightarrow> wr\<lparr>sge_lkey := lkey\<rparr>);
           wr'' = wr'\<lparr>wr_signaled := True\<rparr>
       in
       if \<not> e_post_ok e then Inl Assert_Failed
       else rbind (recv_loop b (e_recv_polls e) bs) (\<lambda>(ok, bs').
         let s' = s\<lparr>r_binders := bs', r_done := (r_done s)(e_done e := 0),
                    r_sent := r_sent s @ [wr'']\<rparr>;
             rw = priv (bs' ! b)
         in
         if \<not> ok then Inr (False, None, s')
         else (case e_rws e rw of
                 None \<Rightarrow> Inl Bad_Pointer
               | Some r \<Rightarrow>
                   rbind (ib_putback_recv_work True (r_rq s') rw) (\<lambda>rq.
                   rbind (put_binder b bs') (\<lambda>bs''.
                     let s'' = s'\<lparr>r_rq := rq, r_binders := bs''\<rparr> in
                     if mr = None then Inr (True, Some r, s'')
                     else rbind (rpc_send_loop (e_done e) (e_send_polls e) (r_done s''))
                            (\<lambda>(sent_ok, st). Inr (sent_ok, Some r, s''\<lparr>r_done := st\<rparr>)))))))"

text \<open>The multicast request is unsignaled, and its reply is awaited but not copied out.\<close>

definition ib_multicast_rpc ::
  "'r rpc_env \<Rightarrow> u32 \<Rightarrow> addr \<Rightarrow> u64 \<Rightarrow> u32 option \<Rightarrow> multicast_dest \<Rightarrow> rpc_state
   \<Rightarrow> (bool \<times> rpc_state) result" where
  "ib_multicast_rpc e opcode req req_size mr dest s =
     rbind (get_binder (e_draws e) (r_binders s)) (\<lambda>(b, _, bs).
       let wr = blank_wr\<lparr>wr_op := WR_SEND_WITH_IMM, sge_addr := req,
                  sge_length := ucast req_size, wr_imm := rpc_imm opcode (of_nat b),
                  wr_ah := md_ah dest, wr_remote_qpn := md_remote_qpn dest,
                  wr_remote_qkey := md_remote_qkey dest\<rparr>;
           wr' = (case mr of None \<Rightarrow> wr\<lparr>wr_inline := True\<rparr> | Some lkey \<Rightarrow> wr\<lparr>sge_lkey := lkey\<rparr>)
       in
       if \<not> e_post_ok e then Inl Assert_Failed
       else rbind (recv_loop b (e_recv_polls e) bs) (\<lambda>(ok, bs').
         let s' = s\<lparr>r_binders := bs', r_sent := r_sent s @ [wr']\<rparr>; rw = priv (bs' ! b) in
         if \<not> ok then Inr (False, s')
         else (case e_rws e rw of
                 None \<Rightarrow> Inl Bad_Pointer
               | Some _ \<Rightarrow>
                   rbind (ib_putback_recv_work True (r_rq s') rw) (\<lambda>rq.
                   rbind (put_binder b bs') (\<lambda>bs''. Inr (True, s'\<lparr>r_rq := rq, r_binders := bs''\<rparr>))))))"

section \<open>\<open>drive/sib.c\<close>\<close>

text \<open>
  The driver waits for the send first. In both loops a poll error breaks out (\<open>Some\<close>), a
  failed completion returns 1 (\<open>None\<close>).
\<close>

fun drv_send_loop :: "addr \<Rightarrow> poll list \<Rightarrow> done_flags \<Rightarrow> (bool \<times> done_flags) result" where
  "drv_send_loop d [] st = (if st d \<noteq> 0 then Inr (True, st) else Inl Spinning)"
| "drv_send_loop d (p # ps) st =
     (if st d \<noteq> 0 then Inr (True, st)
      else (case p of
              Poll_Empty \<Rightarrow> drv_send_loop d ps st
            | Poll_Error \<Rightarrow> Inr (True, st)
            | Poll_Wc w \<Rightarrow>
                if \<not> wc_ok w then Inr (False, st) else drv_send_loop d ps (st(wr_id w := 1))))"

fun drv_recv_loop :: "nat \<Rightarrow> poll list \<Rightarrow> binders \<Rightarrow> (bool \<times> binders) result" where
  "drv_recv_loop b [] bs = (if flag bs b = 2 then Inr (True, bs) else Inl Spinning)"
| "drv_recv_loop b (p # ps) bs =
     (if flag bs b = 2 then Inr (True, bs)
      else (case p of
              Poll_Empty \<Rightarrow> drv_recv_loop b ps bs
            | Poll_Error \<Rightarrow> Inr (True, bs)
            | Poll_Wc w \<Rightarrow>
                if \<not> wc_ok w then Inr (False, bs)
                else drv_recv_loop b ps (file_reply (imm_data w) (wr_id w) bs)))"

text \<open>The C return value is 0 for success and 1 for failure.\<close>

definition drv_rpc ::
  "'r rpc_env \<Rightarrow> u32 \<Rightarrow> u32 \<Rightarrow> addr \<Rightarrow> u64 \<Rightarrow> rpc_state \<Rightarrow> (int \<times> 'r option \<times> rpc_state) result" where
  "drv_rpc e local_dma_lkey opcode req req_size s =
     rbind (get_binder (e_draws e) (r_binders s)) (\<lambda>(b, _, bs).
       let wr = blank_wr\<lparr>wr_done := e_done e, wr_op := WR_SEND_WITH_IMM, wr_signaled := True,
                  sge_addr := req, sge_length := ucast req_size, sge_lkey := local_dma_lkey,
                  wr_imm := rpc_imm opcode (of_nat b)\<rparr>;
           s1 = s\<lparr>r_binders := bs, r_done := (r_done s)(e_done e := 0)\<rparr>
       in
       if \<not> e_post_ok e then Inr (1, None, s1)
       else
         let s2 = s1\<lparr>r_sent := r_sent s1 @ [wr]\<rparr> in
         rbind (drv_send_loop (e_done e) (e_send_polls e) (r_done s2)) (\<lambda>(sent_ok, st).
         let s3 = s2\<lparr>r_done := st\<rparr> in
         if \<not> sent_ok then Inr (1, None, s3)
         else rbind (drv_recv_loop b (e_recv_polls e) bs) (\<lambda>(ok, bs').
           let s4 = s3\<lparr>r_binders := bs'\<rparr>; rw = priv (bs' ! b) in
           if \<not> ok then Inr (1, None, s4)
           else (case e_rws e rw of
                   None \<Rightarrow> Inl Bad_Pointer
                 | Some r \<Rightarrow>
                     Inr (0, Some r, s4\<lparr>r_rq := r_rq s4 @ [rw], r_binders := drv_put_binder b bs'\<rparr>)))))"

section \<open>The receive loops file every reply they meet\<close>

text \<open>A poll result that is no reply for slot \<open>b\<close> and no error.\<close>

definition for_others :: "nat \<Rightarrow> poll \<Rightarrow> bool" where
  "for_others b p =
     (case p of
        Poll_Empty \<Rightarrow> True
      | Poll_Error \<Rightarrow> False
      | Poll_Wc w \<Rightarrow> wc_ok w \<and> unat (wc_binder (imm_data w)) \<noteq> b)"

fun file_all :: "poll list \<Rightarrow> binders \<Rightarrow> binders" where
  "file_all [] bs = bs"
| "file_all (Poll_Wc w # ps) bs = file_all ps (file_reply (imm_data w) (wr_id w) bs)"
| "file_all (_ # ps) bs = file_all ps bs"

lemma length_file_all [simp]: "length (file_all ps bs) = length bs"
  by (induction ps bs rule: file_all.induct) auto

lemma flag_file_all_other:
  "length bs = NR_BINDERS \<Longrightarrow> \<forall>p \<in> set ps. for_others b p \<Longrightarrow> flag (file_all ps bs) b = flag bs b"
  by (induction ps bs rule: file_all.induct) (auto simp: for_others_def flag_file_reply)

lemma file_reply_other: "i \<noteq> unat (wc_binder imm) \<Longrightarrow> file_reply imm w bs ! i = bs ! i"
  by (simp add: file_reply_def Let_def)

text \<open>A reply for another thread is found marked, with its buffer, by that thread.\<close>

lemma flag_file_all_mono:
  "length bs = NR_BINDERS \<Longrightarrow> flag bs i = 2 \<Longrightarrow> flag (file_all ps bs) i = 2"
  by (induction ps bs rule: file_all.induct) (auto simp: flag_file_reply)

lemma file_all_marks:
  "length bs = NR_BINDERS \<Longrightarrow> Poll_Wc w \<in> set ps \<Longrightarrow>
   flag (file_all ps bs) (unat (wc_binder (imm_data w))) = 2"
  by (induction ps bs rule: file_all.induct) (auto simp: flag_file_all_mono flag_file_reply)

lemma recv_loop_pass:
  "length bs = NR_BINDERS \<Longrightarrow> flag bs b \<noteq> 2 \<Longrightarrow> \<forall>p \<in> set pre. for_others b p \<Longrightarrow>
   recv_loop b (pre @ ps) bs = recv_loop b ps (file_all pre bs)
   \<and> drv_recv_loop b (pre @ ps) bs = drv_recv_loop b ps (file_all pre bs)"
proof (induction pre arbitrary: bs)
  case Nil
  then show ?case by simp
next
  case (Cons p pre)
  then show ?case by (cases p) (auto simp: for_others_def flag_file_reply)
qed

lemma recv_loop_marked:
  "flag bs b = 2 \<Longrightarrow> recv_loop b ps bs = Inr (True, bs) \<and> drv_recv_loop b ps bs = Inr (True, bs)"
  by (cases ps) auto

lemma recv_loop_own:
  assumes "length bs = NR_BINDERS" "flag bs b \<noteq> 2" "\<forall>p \<in> set pre. for_others b p"
    and "unat (wc_binder (imm_data w)) = b" "wc_ok w"
  defines "bs' \<equiv> file_reply (imm_data w) (wr_id w) (file_all pre bs)"
  shows "recv_loop b (pre @ Poll_Wc w # ps) bs = Inr (True, bs')"
    and "drv_recv_loop b (pre @ Poll_Wc w # ps) bs = Inr (True, bs')"
    and "priv (bs' ! b) = wr_id w" and "flag bs' b = 2"
proof -
  have f: "flag (file_all pre bs) b \<noteq> 2"
    using flag_file_all_other [OF assms(1,3)] assms(2) by simp
  have b: "b < length (file_all pre bs)"
    using assms(1,4) wc_binder_less [of "imm_data w"] by (simp add: NR_BINDERS_def)
  show m: "flag bs' b = 2"
    unfolding bs'_def using assms(1,4) by (simp add: flag_file_reply)
  show "recv_loop b (pre @ Poll_Wc w # ps) bs = Inr (True, bs')"
    and "drv_recv_loop b (pre @ Poll_Wc w # ps) bs = Inr (True, bs')"
    using recv_loop_pass [OF assms(1-3)] f recv_loop_marked [OF m] assms(5)
    unfolding bs'_def by auto
  show "priv (bs' ! b) = wr_id w"
    unfolding bs'_def using assms(4) b by (simp add: file_reply_def Let_def set_flag_def)
qed

text \<open>Without a reply for its own slot the loop keeps waiting, whatever else arrives.\<close>

lemma recv_loop_waits:
  assumes "length bs = NR_BINDERS" "flag bs b \<noteq> 2" "\<forall>p \<in> set pre. for_others b p"
  shows "recv_loop b pre bs = Inl Spinning" "drv_recv_loop b pre bs = Inl Spinning"
  using recv_loop_pass [of bs b pre "[]"] flag_file_all_other [OF assms(1,3)] assms by auto

section \<open>A served call\<close>

lemma drv_send_loop_own:
  assumes "\<forall>p \<in> set pre. passes_by d p \<and> p \<noteq> Poll_Error" "st d = 0" "wr_id w = d" "wc_ok w"
  shows "drv_send_loop d (pre @ Poll_Wc w # ps) st = Inr (True, (reap pre st)(d := 1))"
    and "rpc_send_loop d (pre @ Poll_Wc w # ps) st = Inr (True, (reap pre st)(d := 1))"
proof -
  have end_d: "drv_send_loop d ps st = Inr (True, st)" "rpc_send_loop d ps st = Inr (True, st)"
    if "st d \<noteq> 0" for st using that by (cases ps; simp)+
  have "drv_send_loop d (pre @ Poll_Wc w # ps) st = Inr (True, (reap pre st)(d := 1))
      \<and> rpc_send_loop d (pre @ Poll_Wc w # ps) st = Inr (True, (reap pre st)(d := 1))"
    using assms(1,2)
  proof (induction pre arbitrary: st)
    case Nil
    with assms(3,4) end_d [of "st(d := 1)"] show ?case by (simp add: fun_upd_def)
  next
    case (Cons p pre)
    then show ?case by (cases p) (auto simp: passes_by_def)
  qed
  then show "drv_send_loop d (pre @ Poll_Wc w # ps) st = Inr (True, (reap pre st)(d := 1))"
    and "rpc_send_loop d (pre @ Poll_Wc w # ps) st = Inr (True, (reap pre st)(d := 1))" by auto
qed

text \<open>
  The environment serves a call on slot \<open>b\<close>: the post is taken, the send completes, and the
  receive queue yields completion \<open>w\<close> after the polls \<open>pre\<close> that concern other slots.
\<close>

definition serves :: "'r rpc_env \<Rightarrow> nat \<Rightarrow> poll list \<Rightarrow> wc \<Rightarrow> bool" where
  "serves e b pre w \<longleftrightarrow>
     e_post_ok e
     \<and> (\<exists>spre ws srest. e_send_polls e = spre @ Poll_Wc ws # srest
          \<and> (\<forall>p \<in> set spre. passes_by (e_done e) p \<and> p \<noteq> Poll_Error)
          \<and> wr_id ws = e_done e \<and> wc_ok ws)
     \<and> (\<exists>rest. e_recv_polls e = pre @ Poll_Wc w # rest)
     \<and> (\<forall>p \<in> set pre. for_others b p) \<and> wc_ok w"

lemma flag_taken:
  assumes "length bs0 = NR_BINDERS" "get_binder draws bs0 = Inr (b, rs, bs)"
  shows "length bs = NR_BINDERS" "flag bs b = 1" "b < NR_BINDERS" "flag bs b \<noteq> 2"
    "bs = bs0[b := set_flag 1 (bs0 ! b)]"
proof -
  have b: "b < NR_BINDERS" and bs: "bs = bs0[b := set_flag 1 (bs0 ! b)]"
    using get_binder_result [OF assms(2)] by blast+
  show "b < NR_BINDERS" "bs = bs0[b := set_flag 1 (bs0 ! b)]" by (fact b bs)+
  show "length bs = NR_BINDERS" "flag bs b = 1" using b assms(1) by (simp_all add: bs)
  then show "flag bs b \<noteq> 2" by simp
qed

text \<open>Filing marks exactly the slots the polled replies name.\<close>

lemma flag_file_all:
  "length bs = NR_BINDERS \<Longrightarrow>
   flag (file_all ps bs) i =
     (if \<exists>w. Poll_Wc w \<in> set ps \<and> unat (wc_binder (imm_data w)) = i then 2 else flag bs i)"
  by (induction ps bs rule: file_all.induct) (auto simp: flag_file_reply)

lemma drv_rpc_served:
  assumes len: "length (r_binders s) = NR_BINDERS"
    and get: "get_binder (e_draws e) (r_binders s) = Inr (b, rs, bs)"
    and env: "serves e b pre w" and own: "unat (wc_binder (imm_data w)) = b"
    and rw: "e_rws e (wr_id w) = Some r"
  shows "\<exists>s'. drv_rpc e lkey opc req sz s = Inr (0, Some r, s')
    \<and> length (r_binders s') = NR_BINDERS \<and> flag (r_binders s') b = 0
    \<and> (\<forall>i. i \<noteq> b \<longrightarrow> flag (r_binders s') i = flag (file_all pre (r_binders s)) i)
    \<and> r_rq s' = r_rq s @ [wr_id w]
    \<and> map wr_imm (r_sent s') = map wr_imm (r_sent s) @ [rpc_imm opc (of_nat b)]"
proof -
  note taken = flag_taken [OF len get]
  obtain spre ws srest where snd: "e_send_polls e = spre @ Poll_Wc ws # srest"
      "\<forall>p \<in> set spre. passes_by (e_done e) p \<and> p \<noteq> Poll_Error" "wr_id ws = e_done e" "wc_ok ws"
    using env by (auto simp: serves_def)
  obtain rest where rcv: "e_recv_polls e = pre @ Poll_Wc w # rest" and pre: "\<forall>p \<in> set pre. for_others b p"
      and ok: "e_post_ok e" "wc_ok w"
    using env by (auto simp: serves_def)
  let ?bs' = "file_reply (imm_data w) (wr_id w) (file_all pre bs)"
  note recv = recv_loop_own [OF taken(1,4) pre own ok(2)]
  note send = drv_send_loop_own(1) [OF snd(2) _ snd(3,4), of "(r_done s)(e_done e := 0)" srest]
  have len': "length (file_all pre bs) = NR_BINDERS" using taken(1) by simp
  have other: "flag (drv_put_binder b ?bs') i = flag (file_all pre (r_binders s)) i" if "i \<noteq> b" for i
  proof -
    have "flag bs i = flag (r_binders s) i" using that taken(3,5) len by simp
    then have "flag (file_all pre bs) i = flag (file_all pre (r_binders s)) i"
      using taken(1) len by (auto simp: flag_file_all)
    with that own len' taken(3) recv(4) show ?thesis
      by (simp add: drv_put_binder_def flag_file_reply)
  qed
  have own0: "flag (drv_put_binder b ?bs') b = 0"
    using recv(4) len' taken(3) by (simp add: drv_put_binder_def)
  show ?thesis
    using get ok(1) snd(1) send rcv recv(2,3) rw other own0 len'
    by (auto simp: drv_rpc_def Let_def)
qed

text \<open>A call whose reply never comes back under its own slot number does not return.\<close>

lemma drv_rpc_waits:
  assumes len: "length (r_binders s) = NR_BINDERS"
    and get: "get_binder (e_draws e) (r_binders s) = Inr (b, rs, bs)"
    and ok: "e_post_ok e"
    and snd: "e_send_polls e = spre @ Poll_Wc ws # srest"
      "\<forall>p \<in> set spre. passes_by (e_done e) p \<and> p \<noteq> Poll_Error" "wr_id ws = e_done e" "wc_ok ws"
    and rcv: "\<forall>p \<in> set (e_recv_polls e). for_others b p"
  shows "drv_rpc e lkey opc req sz s = Inl Spinning"
proof -
  note taken = flag_taken [OF len get]
  note send = drv_send_loop_own(1) [OF snd(2) _ snd(3,4), of "(r_done s)(e_done e := 0)" srest]
  show ?thesis
    using get ok snd(1) send recv_loop_waits(2) [OF taken(1,4) rcv]
    by (auto simp: drv_rpc_def Let_def)
qed

lemma ib_rpc_served:
  assumes len: "length (r_binders s) = NR_BINDERS"
    and get: "get_binder (e_draws e) (r_binders s) = Inr (b, rs, bs)"
    and env: "serves e b pre w" and own: "unat (wc_binder (imm_data w)) = b"
    and rw: "e_rws e (wr_id w) = Some r"
  shows "\<exists>s'. ib_rpc e opc req sz mr s = Inr (True, Some r, s')
    \<and> length (r_binders s') = NR_BINDERS \<and> flag (r_binders s') b = 0
    \<and> (\<forall>i. i \<noteq> b \<longrightarrow> flag (r_binders s') i = flag (file_all pre (r_binders s)) i)
    \<and> r_rq s' = r_rq s @ [wr_id w]
    \<and> map wr_imm (r_sent s') = map wr_imm (r_sent s) @ [rpc_imm opc (of_nat b)]"
proof -
  note taken = flag_taken [OF len get]
  obtain spre ws srest where snd: "e_send_polls e = spre @ Poll_Wc ws # srest"
      "\<forall>p \<in> set spre. passes_by (e_done e) p \<and> p \<noteq> Poll_Error" "wr_id ws = e_done e" "wc_ok ws"
    using env by (auto simp: serves_def)
  obtain rest where rcv: "e_recv_polls e = pre @ Poll_Wc w # rest" and pre: "\<forall>p \<in> set pre. for_others b p"
      and ok: "e_post_ok e" "wc_ok w"
    using env by (auto simp: serves_def)
  let ?bs' = "file_reply (imm_data w) (wr_id w) (file_all pre bs)"
  note recv = recv_loop_own [OF taken(1,4) pre own ok(2)]
  note send = drv_send_loop_own(2) [OF snd(2) _ snd(3,4), of "(r_done s)(e_done e := 0)" srest]
  have len': "length (file_all pre bs) = NR_BINDERS" using taken(1) by simp
  let ?bs' = "file_reply (imm_data w) (wr_id w) (file_all pre bs)"
  have other: "flag (?bs'[b := set_flag 0 (?bs' ! b)]) i = flag (file_all pre (r_binders s)) i" if "i \<noteq> b" for i
  proof -
    have "flag bs i = flag (r_binders s) i" using that taken(3,5) len by simp
    then have "flag (file_all pre bs) i = flag (file_all pre (r_binders s)) i"
      using taken(1) len by (auto simp: flag_file_all)
    with that own len' taken(3) recv(4) show ?thesis by (simp add: flag_file_reply)
  qed
  show ?thesis
    using get ok(1) snd(1) send rcv recv(1,3,4) rw len' taken(3) other
    by (cases mr) (auto simp: ib_rpc_def Let_def put_binder_def ib_putback_recv_work_def)
qed

section \<open>The calls' main properties\<close>

lemma file_reply_keeps_taken:
  "length bs = NR_BINDERS \<Longrightarrow> flag bs i \<noteq> 0 \<Longrightarrow> flag (file_reply imm w bs) i \<noteq> 0"
  by (simp add: flag_file_reply)

lemma drv_recv_loop_keeps_taken:
  "drv_recv_loop b ps bs = Inr (ok, bs') \<Longrightarrow> length bs = NR_BINDERS \<Longrightarrow>
   length bs' = NR_BINDERS \<and> (flag bs i \<noteq> 0 \<longrightarrow> flag bs' i \<noteq> 0)"
proof (induction b ps bs rule: drv_recv_loop.induct)
  case (2 b p ps bs)
  then show ?case
    using file_reply_keeps_taken [of bs i]
    by (cases p) (auto split: if_splits)
qed (simp split: if_splits)

text \<open>
  A driver call that fails, for whatever reason, leaves its reply slot taken for good: the slot
  it drew was free before and is not free afterwards, and no slot that was taken is freed.
\<close>

theorem failed_call_leaks_slot:
  assumes "drv_rpc e lkey opc req sz s = Inr (ret, r, s')" "ret \<noteq> 0"
    and "length (r_binders s) = NR_BINDERS"
  shows "\<exists>b < NR_BINDERS. flag (r_binders s) b = 0 \<and> flag (r_binders s') b \<noteq> 0
    \<and> (\<forall>i. flag (r_binders s) i \<noteq> 0 \<longrightarrow> flag (r_binders s') i \<noteq> 0)"
proof -
  obtain b rs bs where get: "get_binder (e_draws e) (r_binders s) = Inr (b, rs, bs)"
    using assms(1) by (auto simp: drv_rpc_def rbind_Inr_iff)
  note taken = flag_taken [OF assms(3) get]
  have "r_binders s' = bs \<or> (\<exists>ok. drv_recv_loop b (e_recv_polls e) bs = Inr (ok, r_binders s'))"
    using assms(1,2) get
    by (auto simp: drv_rpc_def rbind_Inr_iff Let_def split: if_splits option.splits)
  then have "flag bs i \<noteq> 0 \<Longrightarrow> flag (r_binders s') i \<noteq> 0" for i
    using drv_recv_loop_keeps_taken [of b "e_recv_polls e" bs _ "r_binders s'" i] taken(1) by auto
  moreover have "flag bs i \<noteq> 0" if "flag (r_binders s) i \<noteq> 0" for i
    using that taken(3) assms(3) unfolding taken(5) by simp
  ultimately show ?thesis
    using get_binder_result [OF get] taken(2) by (intro exI [of _ b]) simp
qed

definition ex_rpc :: rpc_state where
  "ex_rpc = \<lparr>r_binders = ex_slots, r_done = (\<lambda>_. 0), r_sent = [], r_rq = []\<rparr>"

text \<open>An environment that answers a call in slot 3 after a reply for slot 4.\<close>

definition ex_rpc_env :: "nat rpc_env" where
  "ex_rpc_env = \<lparr>e_draws = [3], e_post_ok = True,
     e_recv_polls = [Poll_Wc \<lparr>wr_id = 70, imm_data = 4, wc_ok = True\<rparr>, Poll_Empty,
       Poll_Wc \<lparr>wr_id = 71, imm_data = 3, wc_ok = True\<rparr>],
     e_send_polls = [Poll_Empty, Poll_Wc \<lparr>wr_id = 9, imm_data = 0, wc_ok = True\<rparr>],
     e_done = 9, e_rws = [71 \<mapsto> 42]\<rparr>"

lemma ex_rpc_get:
  "get_binder [3] ex_slots = Inr (3, [], ex_slots[3 := set_flag 1 (ex_slots ! 3)])"
  using ex_slots by (simp add: NR_BINDERS_def)

theorem failed_call_leaks_slot_witness:
  "\<exists>s'. drv_rpc (ex_rpc_env\<lparr>e_post_ok := False\<rparr>) 0 commit_opcode 0 4 ex_rpc = Inr (1, None, s')
    \<and> (\<exists>b < NR_BINDERS. flag ex_slots b = 0 \<and> flag (r_binders s') b \<noteq> 0)"
proof -
  have "\<exists>s'. drv_rpc (ex_rpc_env\<lparr>e_post_ok := False\<rparr>) 0 commit_opcode 0 4 ex_rpc = Inr (1, None, s')"
    by (simp add: drv_rpc_def ex_rpc_env_def ex_rpc_def ex_rpc_get)
  then obtain s' where "drv_rpc (ex_rpc_env\<lparr>e_post_ok := False\<rparr>) 0 commit_opcode 0 4 ex_rpc = Inr (1, None, s')"
    by blast
  with failed_call_leaks_slot [OF this] show ?thesis by (auto simp: ex_rpc_def ex_slots)
qed

text \<open>
  C18: A call gets its own reply: with the replies of other callers arriving first, the driver's
  call and the library's both return what the adapter wrote into the receive that carries the
  call's own slot number, send one request that names this slot, give that receive back and
  free the slot; the other callers' replies are filed in theirs.
\<close>

theorem call_gets_own_reply:
  assumes len: "length (r_binders s) = NR_BINDERS"
    and get: "get_binder (e_draws e) (r_binders s) = Inr (b, rs, bs)"
    and env: "serves e b pre w" and own: "unat (wc_binder (imm_data w)) = b"
    and rw: "e_rws e (wr_id w) = Some r"
  shows "(\<exists>s'. drv_rpc e lkey opc req sz s = Inr (0, Some r, s')
      \<and> flag (r_binders s') b = 0 \<and> r_rq s' = r_rq s @ [wr_id w]
      \<and> map wr_imm (r_sent s') = map wr_imm (r_sent s) @ [rpc_imm opc (of_nat b)]
      \<and> (\<forall>v. Poll_Wc v \<in> set pre \<longrightarrow> flag (r_binders s') (unat (wc_binder (imm_data v))) = 2))
    \<and> (\<exists>s'. ib_rpc e opc req sz mr s = Inr (True, Some r, s')
      \<and> flag (r_binders s') b = 0 \<and> r_rq s' = r_rq s @ [wr_id w]
      \<and> map wr_imm (r_sent s') = map wr_imm (r_sent s) @ [rpc_imm opc (of_nat b)])"
proof -
  have "unat (wc_binder (imm_data v)) \<noteq> b" if "Poll_Wc v \<in> set pre" for v
    using env that by (force simp: serves_def for_others_def)
  then show ?thesis
    using drv_rpc_served [OF len get env own rw, of lkey opc req sz]
      ib_rpc_served [OF len get env own rw, of opc req sz mr] file_all_marks [OF len] by metis
qed

lemma ex_serves:
  "serves ex_rpc_env 3 [Poll_Wc \<lparr>wr_id = 70, imm_data = 4, wc_ok = True\<rparr>, Poll_Empty]
     \<lparr>wr_id = 71, imm_data = 3, wc_ok = True\<rparr>"
  unfolding serves_def ex_rpc_env_def
  by (auto simp: for_others_def wc_binder_def passes_by_def intro!: exI [of _ "[Poll_Empty]"])

theorem call_gets_own_reply_witness:
  "\<exists>s'. drv_rpc ex_rpc_env 0 commit_opcode 0 4 ex_rpc = Inr (0, Some 42, s') \<and> flag (r_binders s') 4 = 2"
proof -
  have "length (r_binders ex_rpc) = NR_BINDERS"
    "get_binder (e_draws ex_rpc_env) (r_binders ex_rpc) = Inr (3, [], ex_slots[3 := set_flag 1 (ex_slots ! 3)])"
    by (simp_all add: ex_rpc_def ex_rpc_env_def ex_slots ex_rpc_get)
  from call_gets_own_reply [OF this ex_serves, of 42 0 commit_opcode 0 4 None]
  show ?thesis by (auto simp: wc_binder_def ex_rpc_env_def)
qed

text \<open>
  A call never takes another caller's reply: while only replies for other slots arrive, it goes
  on waiting.
\<close>

theorem call_waits_for_own_reply:
  assumes len: "length (r_binders s) = NR_BINDERS"
    and get: "get_binder (e_draws e) (r_binders s) = Inr (b, rs, bs)"
    and ok: "e_post_ok e"
    and snd: "e_send_polls e = spre @ Poll_Wc ws # srest"
      "\<forall>p \<in> set spre. passes_by (e_done e) p \<and> p \<noteq> Poll_Error" "wr_id ws = e_done e" "wc_ok ws"
    and rcv: "\<forall>p \<in> set (e_recv_polls e). for_others b p"
  shows "drv_rpc e lkey opc req sz s = Inl Spinning \<and> ib_rpc e opc req sz mr s = Inl Spinning"
proof -
  note t = flag_taken [OF len get]
  have "recv_loop b (e_recv_polls e) bs = Inl Spinning"
    using recv_loop_waits [OF t(1,4) rcv] by simp
  then have "ib_rpc e opc req sz mr s = Inl Spinning"
    using get ok by (simp add: ib_rpc_def Let_def)
  with drv_rpc_waits [OF assms] show ?thesis by blast
qed

theorem call_waits_for_own_reply_witness:
  "let e = ex_rpc_env\<lparr>e_recv_polls := [Poll_Wc \<lparr>wr_id = 70, imm_data = 4, wc_ok = True\<rparr>]\<rparr>
   in drv_rpc e 0 commit_opcode 0 4 ex_rpc = Inl Spinning \<and> ib_rpc e commit_opcode 0 4 None ex_rpc = Inl Spinning"
  unfolding Let_def
  by (rule call_waits_for_own_reply [where b = 3 and rs = "[]"
        and bs = "ex_slots[3 := set_flag 1 (ex_slots ! 3)]" and spre = "[Poll_Empty]"
        and ws = "\<lparr>wr_id = 9, imm_data = 0, wc_ok = True\<rparr>" and srest = "[]"])
    (simp_all add: ex_rpc_def ex_rpc_env_def ex_slots ex_rpc_get passes_by_def for_others_def wc_binder_def)

end
