(* ===== verification/Driver.thy ===== *)
theory Driver
  imports Stage_Buffer Rpc
begin

text \<open>
  The data path of the kernel module (\<open>drive/sib.c\<close>, \<open>drive/ib.h\<close>): opening a block on the
  servers, committing the pages sent so far, writing a page by multicast and reading one
  back by RDMA.

  \<open>driver\<close> is \<open>ctrl\<close> of \<open>drive/ib.h\<close> with the global binder pool: the two connections by
  index, the list they hang in, which one is the main one, the batch counter, the staging
  buffer and the kernel's memory. A \<open>ctrl_ptr\<close> is a \<open>struct rdma_ctrl_t *\<close>: NULL, one of the
  connections, or what \<open>list_for_each_entry\<close> leaves behind when it runs off the list.

  The environment of the \<open>n\<close>-th remote call is \<open>env n\<close> (the state counts the calls); that of
  a page transfer is an \<open>io_env\<close>. Requests are recorded per connection in \<open>rc_sent\<close>, multicast
  ones in \<open>mc_sent\<close>. Locks count.
\<close>

unbundle bit_operations_syntax

section \<open>State\<close>

record rdma_info_t =
  remote_addr :: u64
  rkey :: u32

definition no_info :: rdma_info_t where "no_info = \<lparr>remote_addr = 0, rkey = 0\<rparr>"

text \<open>A kernel pointer as the code tests it: NULL, an error pointer, or an object.\<close>

datatype ptr = P_Null | P_Err | P_Live

record drv_recv_work =
  w_id :: nat
  w_size :: u64
  w_buffer :: addr
  w_sge_addr :: addr
  w_sge_length :: u64

record rdma_ctrl_t =
  alive :: bool
  rc_id :: int
  rc_rdma :: ptr
  rc_qp :: ptr
  rc_snd_cq :: ptr
  rc_rcv_cq :: ptr
  rc_pd :: ptr
  rc_mr :: ptr
  rc_buffer :: addr
  rcv_buffer :: addr
  cm_error :: int
  cm_done :: nat             \<comment> \<open>how often \<open>complete\<close> was called\<close>
  rc_works :: "drv_recv_work list"
  rdma_info :: "rdma_info_t list"
  rc_commit :: u32           \<comment> \<open>\<open>buffer\<close> read as a \<open>rdma_commit_t\<close>\<close>
  req_info :: rdma_info_t    \<comment> \<open>\<open>buffer\<close> behind the commit header\<close>
  dma_buffer :: addr
  rc_lkey :: u32
  rc_sent :: "send_wr list"
  rc_rq :: "addr list"

datatype ctrl_ptr = Null_Ctrl | Ctrl nat | Past_Ctrl

definition MAX_BLOCKS :: nat where "MAX_BLOCKS = 128"

record driver =
  ctrls :: "nat \<Rightarrow> rdma_ctrl_t"
  ctrl_list :: "nat list"
  main_ctrl :: ctrl_ptr
  drv_batch :: atomic_t
  drv_binders :: binders
  drv_done :: done_flags
  stage_buffer :: stage_buffer_t
  kmem :: memory
  drv_spin :: int
  drv_check_list :: xarray
  mc_dest :: multicast_dest
  mc_lkey :: u32
  mc_sent :: "send_wr list"
  calls :: nat

type_synonym call_env = "nat \<Rightarrow> rdma_info_t rpc_env"

record io_env =
  io_dma :: "addr option"     \<comment> \<open>\<open>ib_dma_map_page\<close>, \<open>None\<close> when the mapping fails\<close>
  io_post :: int              \<comment> \<open>what \<open>ib_post_send\<close> returns; not 0 leaves \<open>bad_wr\<close> set\<close>
  io_polls :: "poll list"
  io_done :: addr
  io_xa_ok :: bool
  io_cpu :: nat

definition upd_ctrl :: "nat \<Rightarrow> (rdma_ctrl_t \<Rightarrow> rdma_ctrl_t) \<Rightarrow> driver \<Rightarrow> driver" where
  "upd_ctrl n f d = d\<lparr>ctrls := (ctrls d)(n := f (ctrls d n))\<rparr>"

definition drv_lock :: "driver \<Rightarrow> driver" where "drv_lock d = d\<lparr>drv_spin := drv_spin d + 1\<rparr>"
definition drv_unlock :: "driver \<Rightarrow> driver" where "drv_unlock d = d\<lparr>drv_spin := drv_spin d - 1\<rparr>"

text \<open>Following a connection pointer.\<close>

definition deref :: "ctrl_ptr \<Rightarrow> (nat \<Rightarrow> 'a result) \<Rightarrow> 'a result" where
  "deref p f = (case p of Null_Ctrl \<Rightarrow> Inl Null_Pointer | Ctrl n \<Rightarrow> f n | Past_Ctrl \<Rightarrow> Inl Bad_Pointer)"

lemma deref_Inr_iff: "deref p f = Inr x \<longleftrightarrow> (\<exists>n. p = Ctrl n \<and> f n = Inr x)"
  by (cases p) (simp_all add: deref_def)

section \<open>Finding connections\<close>

definition get_main_rdma_ctrl :: "driver \<Rightarrow> ctrl_ptr" where
  "get_main_rdma_ctrl d = main_ctrl d"

fun first_other :: "ctrl_ptr \<Rightarrow> nat list \<Rightarrow> ctrl_ptr" where
  "first_other main [] = Past_Ctrl"
| "first_other main (n # ns) = (if Ctrl n \<noteq> main then Ctrl n else first_other main ns)"

definition get_sub_rdma_ctrl :: "driver \<Rightarrow> ctrl_ptr" where
  "get_sub_rdma_ctrl d =
     (if ctrl_list d = [] then Null_Ctrl else first_other (get_main_rdma_ctrl d) (ctrl_list d))"

text \<open>Whether some connection has no key for the block yet; every entry is looked at.\<close>

fun check_infos :: "driver \<Rightarrow> nat \<Rightarrow> nat list \<Rightarrow> bool \<Rightarrow> bool result" where
  "check_infos d nr [] check = Inr check"
| "check_infos d nr (n # ns) check =
     (if \<not> nr < length (rdma_info (ctrls d n)) then Inl Out_Of_Bounds
      else check_infos d nr ns (if rkey (rdma_info (ctrls d n) ! nr) = 0 then True else check))"

definition check_rdma_info :: "nat \<Rightarrow> driver \<Rightarrow> bool result" where
  "check_rdma_info nr d = check_infos d nr (ctrl_list d) False"

definition set_main_rdma_ctrl :: "ctrl_ptr \<Rightarrow> driver \<Rightarrow> driver" where
  "set_main_rdma_ctrl p d = d\<lparr>main_ctrl := p\<rparr>"

section \<open>Remote calls\<close>

text \<open>A call on connection \<open>n\<close>: the pool and the \<open>done\<close> variables are the driver's.\<close>

definition ctrl_rpc ::
  "call_env \<Rightarrow> nat \<Rightarrow> u32 \<Rightarrow> u64 \<Rightarrow> driver \<Rightarrow> (int \<times> rdma_info_t option \<times> driver) result" where
  "ctrl_rpc env n opcode sz d =
     (let c = ctrls d n;
          s = \<lparr>r_binders = drv_binders d, r_done = drv_done d, r_sent = rc_sent c, r_rq = rc_rq c\<rparr>
      in rbind (drv_rpc (env (calls d)) (rc_lkey c) opcode (dma_buffer c) sz s) (\<lambda>(ret, r, s').
           Inr (ret, r,
             (upd_ctrl n (\<lambda>c. c\<lparr>rc_sent := r_sent s', rc_rq := r_rq s'\<rparr>) d)
               \<lparr>drv_binders := r_binders s', drv_done := r_done s', calls := calls d + 1\<rparr>)))"

definition ib_rpc_open_unlocked :: "call_env \<Rightarrow> nat \<Rightarrow> u32 \<Rightarrow> driver \<Rightarrow> (int \<times> driver) result" where
  "ib_rpc_open_unlocked env n offset d =
     (let moffset = unat (get_num_memblock offset); infos = rdma_info (ctrls d n) in
      if \<not> moffset < length infos then Inl Out_Of_Bounds
      else if rkey (infos ! moffset) \<noteq> 0 then Inr (0, d)
      else rbind (ctrl_rpc env n (open_opcode offset) 16 d) (\<lambda>(ret, r, d').
             case r of
               None \<Rightarrow> Inr (ret, d')
             | Some i \<Rightarrow>
                 Inr (ret, upd_ctrl n (\<lambda>c. c\<lparr>rdma_info := (rdma_info c)[moffset := i],
                                            req_info := no_info\<rparr>) d')))"

definition ib_rpc_open :: "call_env \<Rightarrow> nat \<Rightarrow> u32 \<Rightarrow> driver \<Rightarrow> (int \<times> driver) result" where
  "ib_rpc_open env n offset d = ib_rpc_open_unlocked env n offset d"

text \<open>Both servers, the second one first; a server that is not alive is skipped.\<close>

definition ib_rpc_open_all :: "call_env \<Rightarrow> u32 \<Rightarrow> driver \<Rightarrow> (int \<times> driver) result" where
  "ib_rpc_open_all env offset d =
     (let main = get_main_rdma_ctrl d; sub = get_sub_rdma_ctrl d in
      deref sub (\<lambda>sn.
      rbind (if alive (ctrls d sn) then ib_rpc_open_unlocked env sn offset d else Inr (0, d))
        (\<lambda>(tret, d1).
      let ret = 0 OR tret in
      deref main (\<lambda>mn.
      rbind (if alive (ctrls d1 mn) then ib_rpc_open_unlocked env mn offset d1 else Inr (tret, d1))
        (\<lambda>(tret', d2). Inr (ret OR tret', d2))))))"

definition free_addr :: "driver \<Rightarrow> driver" where
  "free_addr d =
     fold (\<lambda>(offset, ret) d. if ret \<noteq> NULL
           then d\<lparr>drv_check_list := xa_erase (drv_check_list d) offset\<rparr> else d)
       (drv_check_list d) d"

text \<open>
  The reply of a commit is copied over the commit header in \<open>buffer\<close>: four bytes, the low
  half of the first word of the reply.
\<close>

definition commit_call :: "call_env \<Rightarrow> nat \<Rightarrow> u32 \<Rightarrow> driver \<Rightarrow> (int \<times> driver) result" where
  "commit_call env n opcode d =
     rbind (ctrl_rpc env n opcode 4 d) (\<lambda>(ret, r, d').
       case r of
         None \<Rightarrow> Inr (ret, d')
       | Some i \<Rightarrow> Inr (ret, upd_ctrl n (\<lambda>c. c\<lparr>rc_commit := ucast (remote_addr i)\<rparr>) d'))"

definition ib_rpc_commit_unlocked :: "call_env \<Rightarrow> nat \<Rightarrow> driver \<Rightarrow> (int \<times> driver) result" where
  "ib_rpc_commit_unlocked env n d = commit_call env n commit_opcode d"

definition ib_rpc_qcommit_unlocked :: "call_env \<Rightarrow> nat \<Rightarrow> u32 \<Rightarrow> driver \<Rightarrow> (int \<times> driver) result" where
  "ib_rpc_qcommit_unlocked env n count d = commit_call env n (qcommit_opcode count) d"

definition clear_stage :: "driver \<Rightarrow> driver" where
  "clear_stage d = d\<lparr>stage_buffer := clear_stage_buffer_addr (stage_buffer d)\<rparr>"

definition ib_rpc_commit :: "call_env \<Rightarrow> nat \<Rightarrow> driver \<Rightarrow> (int \<times> driver) result" where
  "ib_rpc_commit env n d =
     rbind (ib_rpc_commit_unlocked env n d) (\<lambda>(ret, d'). Inr (ret, clear_stage d'))"

definition ib_rpc_qcommit :: "call_env \<Rightarrow> nat \<Rightarrow> u32 \<Rightarrow> driver \<Rightarrow> (int \<times> driver) result" where
  "ib_rpc_qcommit env n count d =
     rbind (ib_rpc_qcommit_unlocked env n count d) (\<lambda>(ret, d'). Inr (ret, clear_stage d'))"

text \<open>The loop over the connections: those alive are called, the results are or-ed.\<close>

fun commit_each ::
  "(nat \<Rightarrow> driver \<Rightarrow> (int \<times> driver) result) \<Rightarrow> nat list \<Rightarrow> int \<Rightarrow> driver \<Rightarrow> (int \<times> driver) result" where
  "commit_each f [] ret d = Inr (ret, d)"
| "commit_each f (n # ns) ret d =
     (if alive (ctrls d n) then rbind (f n d) (\<lambda>(tret, d'). commit_each f ns (ret OR tret) d')
      else commit_each f ns ret d)"

text \<open>Afterwards the batch and the staging buffer start anew, whatever the calls returned.\<close>

definition restart_batch :: "driver \<Rightarrow> driver result" where
  "restart_batch d =
     deref (get_main_rdma_ctrl d) (\<lambda>_.
       let d1 = clear_stage (d\<lparr>drv_batch := atomic_set (drv_batch d) 0\<rparr>)
       in Inr (d1\<lparr>stage_buffer := stage_buffer_count_reset (stage_buffer d1)\<rparr>))"

definition ib_rpc_commit_all :: "call_env \<Rightarrow> driver \<Rightarrow> (int \<times> driver) result" where
  "ib_rpc_commit_all env d =
     rbind (commit_each (ib_rpc_commit_unlocked env) (ctrl_list d) 0 d) (\<lambda>(ret, d').
     rbind (restart_batch d') (\<lambda>d''. Inr (ret, d'')))"

definition ib_rpc_qcommit_all :: "call_env \<Rightarrow> u32 \<Rightarrow> driver \<Rightarrow> (int \<times> driver) result" where
  "ib_rpc_qcommit_all env count d =
     rbind (commit_each (\<lambda>n. ib_rpc_qcommit_unlocked env n count) (ctrl_list d) 0 d) (\<lambda>(ret, d').
     rbind (restart_batch d') (\<lambda>d''. Inr (ret, d'')))"

section \<open>Page transfers\<close>

definition EINVAL :: int where "EINVAL = 22"
definition ENOMEM :: int where "ENOMEM = 12"

definition get_req_for_page :: "addr option \<Rightarrow> int \<times> addr" where
  "get_req_for_page dma = (case dma of None \<Rightarrow> (- ENOMEM, 0) | Some a \<Rightarrow> (0, a))"

text \<open>
  A multicast send: a rejected request returns at once; an accepted one stages the page and
  waits for the completion.
\<close>

definition drv_multicast_send ::
  "io_env \<Rightarrow> addr \<Rightarrow> u32 \<Rightarrow> addr \<Rightarrow> u32 \<Rightarrow> driver \<Rightarrow> (int \<times> driver) result" where
  "drv_multicast_send io dma header page offset d =
     (let wr0 = blank_wr\<lparr>wr_done := io_done io, sge_addr := dma, sge_length := 0x1000,
                 sge_lkey := mc_lkey d, wr_op := WR_SEND_WITH_IMM, wr_ah := md_ah (mc_dest d),
                 wr_remote_qkey := md_remote_qkey (mc_dest d),
                 wr_remote_qpn := md_remote_qpn (mc_dest d), wr_signaled := True\<rparr>;
          wr = (if header \<noteq> 0 then wr0\<lparr>wr_imm := header\<rparr> else wr0);
          d0 = d\<lparr>drv_done := (drv_done d)(io_done io := 0)\<rparr>
      in
      if io_post io \<noteq> 0 then Inr (io_post io, d0)
      else
        let d1 = d0\<lparr>mc_sent := mc_sent d0 @ [wr]\<rparr> in
        rbind (stage_buffer_store (io_xa_ok io) page offset (stage_buffer d1) (kmem d1)) (\<lambda>(sb, m).
        let d2 = d1\<lparr>stage_buffer := sb, kmem := m\<rparr> in
        rbind (send_loop (io_done io) (io_polls io) (drv_done d2)) (\<lambda>(ok, _, st).
        Inr (if ok then io_post io else - EINVAL, d2\<lparr>drv_done := st\<rparr>))))"

text \<open>An RDMA request on connection \<open>n\<close>; a rejected one is waited for all the same.\<close>

definition drv_rdma_send ::
  "io_env \<Rightarrow> nat \<Rightarrow> addr \<Rightarrow> u32 \<Rightarrow> wr_opcode \<Rightarrow> rdma_info_t \<Rightarrow> u32 \<Rightarrow> driver \<Rightarrow> (int \<times> driver) result"
  where
  "drv_rdma_send io n dma header opcode info offset d =
     (let wr0 = blank_wr\<lparr>wr_done := io_done io, sge_addr := dma, sge_length := 0x1000,
                 sge_lkey := rc_lkey (ctrls d n), wr_signaled := True, wr_op := opcode\<rparr>;
          wr1 = (if \<not> (opcode = WR_SEND \<or> opcode = WR_SEND_WITH_IMM)
                 then wr0\<lparr>wr_remote_addr := remote_addr info + ucast offset, wr_rkey := rkey info\<rparr>
                 else wr0);
          wr = (if header \<noteq> 0 then wr1\<lparr>wr_imm := header\<rparr> else wr1);
          d0 = d\<lparr>drv_done := (drv_done d)(io_done io := 0)\<rparr>;
          d1 = (if io_post io = 0 then upd_ctrl n (\<lambda>c. c\<lparr>rc_sent := rc_sent c @ [wr]\<rparr>) d0 else d0)
      in
      rbind (send_loop (io_done io) (io_polls io) (drv_done d1)) (\<lambda>(ok, _, st).
      Inr (if ok then io_post io else - EINVAL, d1\<lparr>drv_done := st\<rparr>)))"

definition maruswap_multicast_write ::
  "call_env \<Rightarrow> io_env \<Rightarrow> addr \<Rightarrow> u32 \<Rightarrow> driver \<Rightarrow> (int \<times> driver) result" where
  "maruswap_multicast_write env io page offset d =
     deref (get_main_rdma_ctrl d) (\<lambda>_.
     let header = flow_header offset;
         nr_memblock = unat (get_num_memblock offset);
         (ret, dma) = get_req_for_page (io_dma io)
     in
     if ret \<noteq> 0 then Inr (ret, d)
     else
       let d1 = drv_lock d in
       rbind (check_rdma_info nr_memblock d1) (\<lambda>check.
       rbind (if check then ib_rpc_open_all env offset d1 else Inr (0, d1)) (\<lambda>(ret, d2).
       if ret \<noteq> 0 then Inr (1, drv_unlock d2)
       else
         rbind (if sint (atomic_read (drv_batch d2)) \<ge> CONFIG_BATCH
                then ib_rpc_commit_all env d2 else Inr (0, d2)) (\<lambda>(ret, d3).
         if ret \<noteq> 0 then Inr (1, drv_unlock d3)
         else
           let d4 = drv_unlock (d3\<lparr>drv_batch := atomic_inc (drv_batch d3)\<rparr>)
           in drv_multicast_send io dma header page offset d4))))"

definition maruswap_rdma_read :: "io_env \<Rightarrow> addr \<Rightarrow> u32 \<Rightarrow> driver \<Rightarrow> (int \<times> driver) result" where
  "maruswap_rdma_read io page offset d =
     (let send_offset = offset AND 0x3ffff;
          nr_memblock = unat (get_num_memblock offset);
          rdma_ctrl = (if io_cpu io mod 2 \<noteq> 0 then get_main_rdma_ctrl d else get_sub_rdma_ctrl d)
      in
      deref rdma_ctrl (\<lambda>n.
        let (check, m) = stage_buffer_load page offset (stage_buffer d) (kmem d);
            d1 = d\<lparr>kmem := m\<rparr>
        in
        if check \<noteq> NULL then Inr (0, d1)
        else
          let (ret, dma) = get_req_for_page (io_dma io) in
          if ret \<noteq> 0 then Inr (ret, d1)
          else if \<not> nr_memblock < length (rdma_info (ctrls d1 n)) then Inl Out_Of_Bounds
          else drv_rdma_send io n dma 0x0 WR_RDMA_READ (rdma_info (ctrls d1 n) ! nr_memblock)
                 (push_bit 12 send_offset) d1))"

end
