(* ===== verification/Driver_Proofs.thy ===== *)
theory Driver_Proofs
  imports Driver
begin

text \<open>
  Lemmas on the driver's data path: what each remote operation leaves alone, the lock
  balance and the batch invariant of a write, a write and a read on the common path, what a
  commit does, and the open request whose reply cannot be matched.
\<close>

unbundle bit_operations_syntax

section \<open>What the remote calls leave alone\<close>

definition same_core :: "driver \<Rightarrow> driver \<Rightarrow> bool" where
  "same_core d d' \<longleftrightarrow>
     drv_spin d' = drv_spin d \<and> stage_buffer d' = stage_buffer d \<and> kmem d' = kmem d
     \<and> drv_batch d' = drv_batch d \<and> ctrl_list d' = ctrl_list d \<and> main_ctrl d' = main_ctrl d
     \<and> mc_sent d' = mc_sent d \<and> mc_dest d' = mc_dest d \<and> mc_lkey d' = mc_lkey d
     \<and> drv_check_list d' = drv_check_list d
     \<and> (\<forall>n. alive (ctrls d' n) = alive (ctrls d n)
          \<and> length (rdma_info (ctrls d' n)) = length (rdma_info (ctrls d n)))"

lemma same_core_refl [simp]: "same_core d d"
  by (simp add: same_core_def)

lemma same_core_trans: "same_core d d' \<Longrightarrow> same_core d' d'' \<Longrightarrow> same_core d d''"
  by (simp add: same_core_def)

lemma ctrl_rpc_frame [frame_simps]:
  "ctrl_rpc env n opc sz d = Inr (ret, r, d') \<Longrightarrow> same_core d d' \<and> calls d' = calls d + 1
    \<and> (\<forall>k. rdma_info (ctrls d' k) = rdma_info (ctrls d k))"
  by (auto simp: ctrl_rpc_def Let_def rbind_Inr_iff same_core_def upd_ctrl_def split: if_splits)

lemma open_unlocked_frame [frame_simps]:
  assumes "ib_rpc_open_unlocked env n offset d = Inr (ret, d')"
  shows "same_core d d'"
proof (cases "d' = d")
  case False
  with assms obtain ret' r d1 where c: "ctrl_rpc env n (open_opcode offset) 16 d = Inr (ret', r, d1)"
      "(case r of None \<Rightarrow> Inr (ret', d1)
        | Some i \<Rightarrow> Inr (ret', upd_ctrl n (\<lambda>c. c\<lparr>rdma_info := (rdma_info c)
            [unat (get_num_memblock offset) := i], req_info := no_info\<rparr>) d1)) = (Inr (ret, d') :: _ result)"
    by (auto simp: ib_rpc_open_unlocked_def Let_def rbind_Inr_iff split: if_splits)
  then show ?thesis
    using ctrl_rpc_frame [OF c(1)] by (auto simp: same_core_def upd_ctrl_def split: option.splits if_splits)
qed simp

lemma commit_call_frame [frame_simps]:
  "commit_call env n opc d = Inr (ret, d') \<Longrightarrow> same_core d d'
    \<and> (\<forall>k. rdma_info (ctrls d' k) = rdma_info (ctrls d k))"
  by (auto simp: commit_call_def rbind_Inr_iff same_core_def upd_ctrl_def
      dest!: ctrl_rpc_frame split: option.splits if_splits)

lemma open_all_frame [frame_simps]:
  assumes "ib_rpc_open_all env offset d = Inr (ret, d')"
  shows "same_core d d'"
  using assms
  by (auto simp: ib_rpc_open_all_def deref_Inr_iff Let_def rbind_Inr_iff
      split: if_splits dest!: open_unlocked_frame intro: same_core_trans)

text \<open>What every call of the loop keeps, the loop keeps.\<close>

lemma commit_each_rel:
  assumes refl: "\<And>d. R d d" and trans: "\<And>a b c. R a b \<Longrightarrow> R b c \<Longrightarrow> R a c"
    and call: "\<And>n d ret d'. f n d = Inr (ret, d') \<Longrightarrow> R d d'"
  shows "commit_each f ns ret d = Inr (ret', d') \<Longrightarrow> R d d'"
proof (induction ns arbitrary: ret d)
  case Nil
  then show ?case by (simp add: refl)
next
  case (Cons n ns)
  show ?case
  proof (cases "alive (ctrls d n)")
    case True
    with Cons.prems obtain tret d1 where "f n d = Inr (tret, d1)"
        "commit_each f ns (ret OR tret) d1 = Inr (ret', d')"
      by (auto simp: rbind_Inr_iff)
    then show ?thesis using call trans Cons.IH by blast
  qed (use Cons in simp)
qed

lemma commit_each_frame [frame_simps]:
  assumes "\<And>n d ret d'. f n d = Inr (ret, d') \<Longrightarrow> same_core d d'"
  shows "commit_each f ns ret d = Inr (ret', d') \<Longrightarrow> same_core d d'"
  by (rule commit_each_rel [of same_core]) (auto intro: same_core_trans assms)

text \<open>No commit touches what is known of the blocks.\<close>

definition same_infos :: "driver \<Rightarrow> driver \<Rightarrow> bool" where
  "same_infos d d' \<longleftrightarrow> (\<forall>n. rdma_info (ctrls d' n) = rdma_info (ctrls d n))"

lemma commit_unlocked_infos:
  "ib_rpc_commit_unlocked env n d = Inr (ret, d') \<Longrightarrow> same_infos d d'"
  using commit_call_frame by (auto simp: ib_rpc_commit_unlocked_def same_infos_def)

lemma commit_each_infos:
  "commit_each (ib_rpc_commit_unlocked env) ns ret d = Inr (ret', d') \<Longrightarrow> same_infos d d'"
  by (rule commit_each_rel [of same_infos])
    (auto simp: same_infos_def dest: commit_unlocked_infos [unfolded same_infos_def])

lemma commit_unlocked_frame [frame_simps]:
  "ib_rpc_commit_unlocked env n d = Inr (ret, d') \<Longrightarrow> same_core d d'"
  "ib_rpc_qcommit_unlocked env n count d = Inr (ret, d') \<Longrightarrow> same_core d d'"
  by (simp_all add: ib_rpc_commit_unlocked_def ib_rpc_qcommit_unlocked_def commit_call_frame)

section \<open>The batch invariant\<close>

text \<open>
  The staging buffer is in order, holds at most as many pages as were counted since the last
  commit, and that count never passes 1024.
\<close>

definition driver_ok :: "addr \<Rightarrow> driver \<Rightarrow> bool" where
  "driver_ok base d \<longleftrightarrow>
     stage_ok base (stage_buffer d)
     \<and> sb_count (stage_buffer d) \<le> uint (atomic_read (drv_batch d))
     \<and> uint (atomic_read (drv_batch d)) \<le> CONFIG_BATCH"

lemma driver_ok_same_core: "same_core d d' \<Longrightarrow> driver_ok base d' = driver_ok base d"
  by (simp add: same_core_def driver_ok_def)

lemma batch_sint:
  "uint (w :: u32) \<le> CONFIG_BATCH \<Longrightarrow> sint w = uint w"
proof -
  assume h: "uint w \<le> CONFIG_BATCH"
  moreover have "- (2 ^ 31) \<le> uint w" by (rule order_trans [of _ 0]) simp_all
  ultimately show ?thesis by (simp add: sint_uint signed_take_bit_int_eq_self CONFIG_BATCH_def)
qed

lemma restart_batch_eq:
  assumes "driver_ok base d" "restart_batch d = Inr d'"
  shows "d' = d\<lparr>drv_batch := atomic_set (drv_batch d) 0,
      stage_buffer := (stage_buffer d)\<lparr>sb_check_list := [], sb_count := 0\<rparr>\<rparr>"
    and "driver_ok base d'" and "staged (stage_buffer d') m = Map.empty"
proof -
  have st: "stage_ok base (stage_buffer d)" using assms(1) by (simp add: driver_ok_def)
  show eq: "d' = d\<lparr>drv_batch := atomic_set (drv_batch d) 0,
      stage_buffer := (stage_buffer d)\<lparr>sb_check_list := [], sb_count := 0\<rparr>\<rparr>"
    using assms(2) clear_stage_buffer_addr_ok(1) [OF st]
    by (auto simp: restart_batch_def deref_def clear_stage_def Let_def stage_buffer_count_reset_def
        split: ctrl_ptr.splits)
  show "driver_ok base d'"
    using st by (simp add: eq driver_ok_def stage_ok_def CONFIG_BATCH_def atomic_defs)
  show "staged (stage_buffer d') m = Map.empty"
    by (rule ext) (simp add: eq staged_def xa_load_def)
qed

lemma commit_all_result:
  assumes "ib_rpc_commit_all env d = Inr (ret, d')" "driver_ok base d"
  shows "driver_ok base d' \<and> atomic_read (drv_batch d') = 0 \<and> sb_count (stage_buffer d') = 0
    \<and> staged (stage_buffer d') m = Map.empty \<and> drv_spin d' = drv_spin d \<and> kmem d' = kmem d
    \<and> main_ctrl d' = main_ctrl d \<and> ctrl_list d' = ctrl_list d \<and> mc_sent d' = mc_sent d
    \<and> mc_dest d' = mc_dest d \<and> mc_lkey d' = mc_lkey d"
proof -
  obtain d1 where d1: "commit_each (ib_rpc_commit_unlocked env) (ctrl_list d) 0 d = Inr (ret, d1)"
      "restart_batch d1 = Inr d'"
    using assms(1) by (auto simp: ib_rpc_commit_all_def rbind_Inr_iff)
  have sc: "same_core d d1" using commit_each_frame [OF commit_unlocked_frame(1) d1(1)] .
  have ok: "driver_ok base d1" using assms(2) driver_ok_same_core [OF sc] by simp
  note r = restart_batch_eq [OF ok d1(2)]
  show ?thesis
    using r(2,3) sc by (simp add: r(1) same_core_def atomic_defs)
qed


section \<open>A write: locks and invariant on every path\<close>

lemma multicast_send_result:
  assumes "drv_multicast_send io dma header page offset d = Inr (ret, d')"
  shows "drv_spin d' = drv_spin d \<and> drv_batch d' = drv_batch d \<and> main_ctrl d' = main_ctrl d
    \<and> ctrl_list d' = ctrl_list d \<and> ctrls d' = ctrls d
    \<and> (io_post io \<noteq> 0 \<and> ret = io_post io \<and> stage_buffer d' = stage_buffer d \<and> mc_sent d' = mc_sent d
         \<and> kmem d' = kmem d
       \<or> io_post io = 0
         \<and> stage_buffer_store (io_xa_ok io) page offset (stage_buffer d) (kmem d)
             = Inr (stage_buffer d', kmem d')
         \<and> (\<exists>wr. mc_sent d' = mc_sent d @ [wr]))"
  using assms by (auto simp: drv_multicast_send_def Let_def rbind_Inr_iff split: if_splits)

lemma restart_batch_spin: "restart_batch d = Inr d' \<Longrightarrow> drv_spin d' = drv_spin d"
  by (auto simp: restart_batch_def deref_Inr_iff Let_def clear_stage_def)

lemma commit_all_spin: "ib_rpc_commit_all env d = Inr (ret, d') \<Longrightarrow> drv_spin d' = drv_spin d"
  using commit_each_frame [of "ib_rpc_commit_unlocked env" "ctrl_list d" 0 d ret, OF commit_unlocked_frame(1)]
  by (auto simp: ib_rpc_commit_all_def rbind_Inr_iff same_core_def dest!: restart_batch_spin)

text \<open>A write that returns went through one of five paths.\<close>

lemma write_cases [consumes 1, case_names unmapped open_failed commit_failed sent]:
  assumes "maruswap_multicast_write env io page offset d = Inr (ret, d')"
  obtains "io_dma io = None" "ret = - ENOMEM" "d' = d"
    | d2 r where "r \<noteq> 0" "ib_rpc_open_all env offset (drv_lock d) = Inr (r, d2)"
        "ret = 1" "d' = drv_unlock d2"
    | d2 d3 r where "same_core (drv_lock d) d2" "CONFIG_BATCH \<le> sint (atomic_read (drv_batch d2))"
        "ib_rpc_commit_all env d2 = Inr (r, d3)" "r \<noteq> 0" "ret = 1" "d' = drv_unlock d3"
    | dma d2 d3 where "io_dma io = Some dma" "same_core (drv_lock d) d2"
        "if CONFIG_BATCH \<le> sint (atomic_read (drv_batch d2))
         then ib_rpc_commit_all env d2 = Inr (0, d3) else d3 = d2"
        "drv_multicast_send io dma (flow_header offset) page offset
           (drv_unlock (d3\<lparr>drv_batch := atomic_inc (drv_batch d3)\<rparr>)) = Inr (ret, d')"
proof (cases "io_dma io")
  case None
  with assms that(1) show ?thesis
    by (auto simp: maruswap_multicast_write_def deref_Inr_iff get_req_for_page_def ENOMEM_def)
next
  case (Some dma)
  obtain check r d2 where o: "check_rdma_info (unat (get_num_memblock offset)) (drv_lock d) = Inr check"
      "(if check then ib_rpc_open_all env offset (drv_lock d) else Inr (0, drv_lock d)) = Inr (r, d2)"
    and rest: "(if r \<noteq> 0 then Inr (1, drv_unlock d2)
       else
         rbind (if sint (atomic_read (drv_batch d2)) \<ge> CONFIG_BATCH
                then ib_rpc_commit_all env d2 else Inr (0, d2)) (\<lambda>(ret, d3).
         if ret \<noteq> 0 then Inr (1, drv_unlock d3)
         else
           let d4 = drv_unlock (d3\<lparr>drv_batch := atomic_inc (drv_batch d3)\<rparr>)
           in drv_multicast_send io dma (flow_header offset) page offset d4)) = Inr (ret, d')"
    using assms Some
    by (auto simp: maruswap_multicast_write_def deref_Inr_iff get_req_for_page_def rbind_Inr_iff Let_def)
  have sc: "same_core (drv_lock d) d2"
    using o(2) by (auto split: if_splits dest: open_all_frame)
  show ?thesis
  proof (cases "r = 0")
    case False
    with o(2) rest have "ib_rpc_open_all env offset (drv_lock d) = Inr (r, d2)" "ret = 1"
      "d' = drv_unlock d2" by (auto split: if_splits)
    then show ?thesis using False that(2) by blast
  next
    case True
    obtain r' d3 where c: "(if sint (atomic_read (drv_batch d2)) \<ge> CONFIG_BATCH
          then ib_rpc_commit_all env d2 else Inr (0, d2)) = Inr (r', d3)"
      "if r' \<noteq> 0 then ret = 1 \<and> d' = drv_unlock d3
       else drv_multicast_send io dma (flow_header offset) page offset
              (drv_unlock (d3\<lparr>drv_batch := atomic_inc (drv_batch d3)\<rparr>)) = Inr (ret, d')"
      using rest True by (auto simp: rbind_Inr_iff Let_def split: if_splits)
    show ?thesis
    proof (cases "r' = 0")
      case True
      with c have "if CONFIG_BATCH \<le> sint (atomic_read (drv_batch d2))
         then ib_rpc_commit_all env d2 = Inr (0, d3) else d3 = d2" by (auto split: if_splits)
      with c(2) True Some sc that(4) show ?thesis by auto
    next
      case False
      with c have "CONFIG_BATCH \<le> sint (atomic_read (drv_batch d2))" "ib_rpc_commit_all env d2 = Inr (r', d3)"
        "ret = 1" "d' = drv_unlock d3" by (auto split: if_splits)
      with False sc that(3) show ?thesis by blast
    qed
  qed
qed

lemma lock_simps [simp]:
  "drv_spin (drv_lock d) = drv_spin d + 1" "drv_spin (drv_unlock d) = drv_spin d - 1"
  "stage_buffer (drv_lock d) = stage_buffer d" "stage_buffer (drv_unlock d) = stage_buffer d"
  "drv_batch (drv_lock d) = drv_batch d" "drv_batch (drv_unlock d) = drv_batch d"
  "kmem (drv_lock d) = kmem d" "kmem (drv_unlock d) = kmem d"
  "main_ctrl (drv_lock d) = main_ctrl d" "main_ctrl (drv_unlock d) = main_ctrl d"
  "ctrl_list (drv_lock d) = ctrl_list d" "ctrl_list (drv_unlock d) = ctrl_list d"
  "ctrls (drv_lock d) = ctrls d" "ctrls (drv_unlock d) = ctrls d"
  "mc_sent (drv_lock d) = mc_sent d" "mc_sent (drv_unlock d) = mc_sent d"
  "drv_binders (drv_lock d) = drv_binders d" "drv_binders (drv_unlock d) = drv_binders d"
  by (simp_all add: drv_lock_def drv_unlock_def)

lemma driver_ok_locks [simp]:
  "driver_ok base (drv_lock d) = driver_ok base d" "driver_ok base (drv_unlock d) = driver_ok base d"
  by (simp_all add: driver_ok_def)

lemma write_spin_balanced:
  assumes "maruswap_multicast_write env io page offset d = Inr (ret, d')"
  shows "drv_spin d' = drv_spin d"
  using assms
proof (cases rule: write_cases)
  case (open_failed d2 r)
  then show ?thesis using open_all_frame [OF open_failed(2)] by (simp add: same_core_def)
next
  case (commit_failed d2 d3 r)
  then show ?thesis using commit_all_spin [OF commit_failed(3)] by (simp add: same_core_def)
next
  case (sent dma d2 d3)
  have "drv_spin d3 = drv_spin d2"
    using sent(3) commit_all_spin by (auto split: if_splits)
  then show ?thesis using multicast_send_result [OF sent(4)] sent(2) by (simp add: same_core_def)
qed simp

text \<open>After the commit check there is room for one more page.\<close>

lemma room_after_commit:
  assumes "driver_ok base d2"
    and "if CONFIG_BATCH \<le> sint (atomic_read (drv_batch d2))
         then ib_rpc_commit_all env d2 = Inr (0, d3) else d3 = d2"
  shows "driver_ok base d3 \<and> uint (atomic_read (drv_batch d3)) < CONFIG_BATCH
    \<and> uint (atomic_read (atomic_inc (drv_batch d3))) = uint (atomic_read (drv_batch d3)) + 1
    \<and> sb_count (stage_buffer d3) < CONFIG_BATCH"
proof -
  have b2: "sint (atomic_read (drv_batch d2)) = uint (atomic_read (drv_batch d2))"
    using assms(1) by (intro batch_sint) (simp add: driver_ok_def)
  have d3: "driver_ok base d3 \<and> uint (atomic_read (drv_batch d3)) < CONFIG_BATCH"
    using assms b2 commit_all_result [of env d2 0 d3 base]
    by (auto simp: CONFIG_BATCH_def split: if_splits)
  moreover have "uint (atomic_read (atomic_inc (drv_batch d3))) = uint (atomic_read (drv_batch d3)) + 1"
  proof -
    have "0 \<le> uint (atomic_read (drv_batch d3))" by simp
    with d3 show ?thesis
      by (simp add: atomic_defs uint_word_ariths CONFIG_BATCH_def)
  qed
  ultimately show ?thesis by (auto simp: driver_ok_def)
qed

lemma write_driver_ok:
  assumes "maruswap_multicast_write env io page offset d = Inr (ret, d')" "driver_ok base d"
  shows "driver_ok base d'"
  using assms(1)
proof (cases rule: write_cases)
  case (open_failed d2 r)
  then show ?thesis
    using open_all_frame [OF open_failed(2)] assms(2) by (simp add: driver_ok_same_core)
next
  case (commit_failed d2 d3 r)
  have "driver_ok base d2" using commit_failed(1) assms(2) by (simp add: driver_ok_same_core)
  then show ?thesis using commit_all_result [OF commit_failed(3)] commit_failed(6) by simp
next
  case (sent dma d2 d3)
  have "driver_ok base d2" using sent(2) assms(2) by (simp add: driver_ok_same_core)
  note d3 = room_after_commit [OF this sent(3)]
  let ?d4 = "drv_unlock (d3\<lparr>drv_batch := atomic_inc (drv_batch d3)\<rparr>)"
  have nf: "\<not> stage_buffer_full (stage_buffer d3)" and ok: "stage_ok base (stage_buffer d3)"
    using d3 by (auto simp: stage_buffer_full_def driver_ok_def)
  have "stage_ok base (stage_buffer d') \<and> sb_count (stage_buffer d') \<le> sb_count (stage_buffer d3) + 1"
    using multicast_send_result [OF sent(4)] ok
      stage_buffer_store_ok [OF ok nf, of page offset "kmem d3"]
      stage_buffer_store_no_entry [OF ok nf, of page offset "kmem d3"]
    by (cases "io_xa_ok io") auto
  then show ?thesis
    using multicast_send_result [OF sent(4)] d3 by (simp add: driver_ok_def)
qed (use assms(2) in simp)


section \<open>A write on the common path\<close>

text \<open>The adapter takes and completes the transfer.\<close>

definition io_good :: "io_env \<Rightarrow> addr \<Rightarrow> bool" where
  "io_good io dma \<longleftrightarrow>
     io_dma io = Some dma \<and> io_post io = 0 \<and> io_xa_ok io
     \<and> (\<exists>pre w rest. io_polls io = pre @ Poll_Wc w # rest
          \<and> (\<forall>p \<in> set pre. passes_by (io_done io) p) \<and> wr_id w = io_done io \<and> wc_ok w)"

text \<open>Every connection knows the block.\<close>

definition block_open :: "nat \<Rightarrow> driver \<Rightarrow> bool" where
  "block_open nr d \<longleftrightarrow>
     (\<forall>n \<in> set (ctrl_list d). nr < length (rdma_info (ctrls d n)) \<and> rkey (rdma_info (ctrls d n) ! nr) \<noteq> 0)"

lemma check_infos_open:
  "\<forall>n \<in> set ns. nr < length (rdma_info (ctrls d n)) \<and> rkey (rdma_info (ctrls d n) ! nr) \<noteq> 0 \<Longrightarrow>
   check_infos d nr ns c = Inr c"
  by (induction ns) auto

lemma check_rdma_info_open: "block_open nr d \<Longrightarrow> check_rdma_info nr (drv_lock d) = Inr False"
  by (simp add: check_rdma_info_def block_open_def drv_lock_def check_infos_open)

lemma flow_header_nonzero: "flow_header off \<noteq> 0"
proof
  assume "flow_header off = 0"
  then have "ib_get_opcode 0 = MULTICAST_OPCODE_FLOW" using flow_header_fields(1) [of off] by simp
  then show False by (simp add: ib_get_opcode_def opcode_defs)
qed

lemma send_loop_good:
  assumes "io_good io dma"
  shows "\<exists>ps st'. send_loop (io_done io) (io_polls io) (st(io_done io := 0)) = Inr (True, ps, st')"
  using assms send_loop_own unfolding io_good_def by (metis fun_upd_same)

lemma multicast_send_good:
  assumes io: "io_good io dma" and ok: "stage_ok base (stage_buffer d)"
    and nf: "\<not> stage_buffer_full (stage_buffer d)"
  shows "\<exists>d' wr. drv_multicast_send io dma (flow_header off) page off d = Inr (0, d')
    \<and> mc_sent d' = mc_sent d @ [wr] \<and> wr_imm wr = flow_header off \<and> sge_addr wr = dma
    \<and> wr_op wr = WR_SEND_WITH_IMM
    \<and> staged (stage_buffer d') (kmem d') = (staged (stage_buffer d) (kmem d))(off \<mapsto> page_at (kmem d) page)
    \<and> drv_batch d' = drv_batch d \<and> drv_spin d' = drv_spin d \<and> ctrls d' = ctrls d
    \<and> ctrl_list d' = ctrl_list d \<and> main_ctrl d' = main_ctrl d
    \<and> drv_binders d' = drv_binders d"
proof -
  obtain sb where sb: "stage_buffer_store True page off (stage_buffer d) (kmem d) =
      Inr (sb, memcpy (kmem d) (slot base (sb_index (stage_buffer d))) page PAGE_SIZE)"
    "staged sb (memcpy (kmem d) (slot base (sb_index (stage_buffer d))) page PAGE_SIZE)
      = (staged (stage_buffer d) (kmem d))(off \<mapsto> page_at (kmem d) page)"
    using stage_buffer_store_ok [OF ok nf] by blast
  obtain ps st where "send_loop (io_done io) (io_polls io) ((drv_done d)(io_done io := 0)) = Inr (True, ps, st)"
    using send_loop_good [OF io] by blast
  then show ?thesis
    using io sb flow_header_nonzero [of off]
    by (auto simp: drv_multicast_send_def Let_def io_good_def)
qed

text \<open>
  With the block open and room in the batch, a write posts one multicast request that names
  the page, stages the page, counts it, and returns 0.
\<close>

lemma write_common:
  assumes ok: "driver_ok base d" and main: "main_ctrl d = Ctrl mn"
    and op: "block_open (unat (get_num_memblock off)) d"
    and room: "uint (atomic_read (drv_batch d)) < CONFIG_BATCH" and io: "io_good io dma"
  shows "\<exists>d' wr. maruswap_multicast_write env io page off d = Inr (0, d')
    \<and> mc_sent d' = mc_sent d @ [wr] \<and> wr_imm wr = flow_header off \<and> sge_addr wr = dma
    \<and> staged (stage_buffer d') (kmem d') = (staged (stage_buffer d) (kmem d))(off \<mapsto> page_at (kmem d) page)
    \<and> uint (atomic_read (drv_batch d')) = uint (atomic_read (drv_batch d)) + 1
    \<and> ctrls d' = ctrls d \<and> ctrl_list d' = ctrl_list d \<and> main_ctrl d' = main_ctrl d
    \<and> drv_binders d' = drv_binders d"
proof -
  let ?d4 = "drv_unlock ((drv_lock d)\<lparr>drv_batch := atomic_inc (drv_batch d)\<rparr>)"
  have b: "\<not> CONFIG_BATCH \<le> sint (atomic_read (drv_batch d))"
    using room batch_sint [of "atomic_read (drv_batch d)"] by simp
  have st: "stage_ok base (stage_buffer ?d4)" "\<not> stage_buffer_full (stage_buffer ?d4)"
    using ok room by (auto simp: driver_ok_def stage_buffer_full_def)
  have inc: "uint (atomic_read (atomic_inc (drv_batch d))) = uint (atomic_read (drv_batch d)) + 1"
    using room_after_commit [OF ok, of env d] b by simp
  have "io_dma io = Some dma" using io by (simp add: io_good_def)
  then have "maruswap_multicast_write env io page off d =
      drv_multicast_send io dma (flow_header off) page off ?d4"
    using main b check_rdma_info_open [OF op]
    by (simp add: maruswap_multicast_write_def deref_def get_main_rdma_ctrl_def get_req_for_page_def)
  with multicast_send_good [OF io st] inc show ?thesis by fastforce
qed

lemma commit_all_infos: "ib_rpc_commit_all env d = Inr (ret, d') \<Longrightarrow> same_infos d d'"
  using commit_each_infos [of env "ctrl_list d" 0 d ret]
  by (auto simp: ib_rpc_commit_all_def rbind_Inr_iff restart_batch_def deref_Inr_iff Let_def
      clear_stage_def same_infos_def)

section \<open>What a commit sends\<close>

lemma drv_rpc_sends:
  assumes "drv_rpc e lkey opc req sz s = Inr (0, r, s')"
  shows "\<exists>b < NR_BINDERS. map wr_imm (r_sent s') = map wr_imm (r_sent s) @ [rpc_imm opc (of_nat b)]"
proof -
  obtain b rs bs where g: "get_binder (e_draws e) (r_binders s) = Inr (b, rs, bs)"
    using assms by (auto simp: drv_rpc_def rbind_Inr_iff)
  then have "b < NR_BINDERS" using get_binder_result by blast
  moreover have "map wr_imm (r_sent s') = map wr_imm (r_sent s) @ [rpc_imm opc (of_nat b)]"
    using assms g by (auto simp: drv_rpc_def Let_def rbind_Inr_iff split: if_splits option.splits)
  ultimately show ?thesis by blast
qed

lemma commit_call_sends:
  assumes "commit_call env n opc d = Inr (0, d')"
  shows "\<exists>b < NR_BINDERS. map wr_imm (rc_sent (ctrls d' n)) =
      map wr_imm (rc_sent (ctrls d n)) @ [rpc_imm opc (of_nat b)]"
    and "k \<noteq> n \<Longrightarrow> ctrls d' k = ctrls d k"
proof -
  obtain r d1 where c: "ctrl_rpc env n opc 4 d = Inr (0, r, d1)"
      "(case r of None \<Rightarrow> d' = d1
        | Some i \<Rightarrow> d' = upd_ctrl n (\<lambda>c. c\<lparr>rc_commit := ucast (remote_addr i)\<rparr>) d1)"
    using assms by (auto simp: commit_call_def rbind_Inr_iff split: option.splits)
  let ?s = "\<lparr>r_binders = drv_binders d, r_done = drv_done d, r_sent = rc_sent (ctrls d n),
    r_rq = rc_rq (ctrls d n)\<rparr>"
  obtain s' where s': "drv_rpc (env (calls d)) (rc_lkey (ctrls d n)) opc (dma_buffer (ctrls d n)) 4 ?s
      = Inr (0, r, s')"
    "d1 = (upd_ctrl n (\<lambda>c. c\<lparr>rc_sent := r_sent s', rc_rq := r_rq s'\<rparr>) d)
       \<lparr>drv_binders := r_binders s', drv_done := r_done s', calls := calls d + 1\<rparr>"
    using c(1) by (auto simp: ctrl_rpc_def Let_def rbind_Inr_iff)
  show "\<exists>b < NR_BINDERS. map wr_imm (rc_sent (ctrls d' n)) =
      map wr_imm (rc_sent (ctrls d n)) @ [rpc_imm opc (of_nat b)]"
    using drv_rpc_sends [OF s'(1)] c(2) s'(2) by (auto simp: upd_ctrl_def split: option.splits)
  show "k \<noteq> n \<Longrightarrow> ctrls d' k = ctrls d k"
    using c(2) s'(2) by (auto simp: upd_ctrl_def split: option.splits)
qed

lemma or_zero: "(a :: int) OR b = 0 \<longleftrightarrow> a = 0 \<and> b = 0"
  by (rule or_eq_0_iff)

text \<open>A successful round sends every living connection exactly one request, and no other.\<close>

definition sent_one :: "u32 \<Rightarrow> driver \<Rightarrow> driver \<Rightarrow> nat \<Rightarrow> bool" where
  "sent_one opc d d' n \<longleftrightarrow>
     (\<exists>b < NR_BINDERS. map wr_imm (rc_sent (ctrls d' n)) =
        map wr_imm (rc_sent (ctrls d n)) @ [rpc_imm opc (of_nat b)])"

lemma commit_each_sends:
  assumes "commit_each (\<lambda>n. commit_call env n opc) ns ret d = Inr (0, d')" "distinct ns"
  shows "ret = 0 \<and> (\<forall>n \<in> set ns. if alive (ctrls d n) then sent_one opc d d' n
      else ctrls d' n = ctrls d n) \<and> (\<forall>k. k \<notin> set ns \<longrightarrow> ctrls d' k = ctrls d k)"
  using assms
proof (induction ns arbitrary: ret d)
  case Nil
  then show ?case by simp
next
  case (Cons n ns)
  show ?case
  proof (cases "alive (ctrls d n)")
    case True
    with Cons.prems obtain tret d1 where c: "commit_call env n opc d = Inr (tret, d1)"
        "commit_each (\<lambda>n. commit_call env n opc) ns (ret OR tret) d1 = Inr (0, d')"
      by (auto simp: rbind_Inr_iff)
    have ih: "ret OR tret = 0"
      "\<forall>k \<in> set ns. if alive (ctrls d1 k) then sent_one opc d1 d' k else ctrls d' k = ctrls d1 k"
      "\<forall>k. k \<notin> set ns \<longrightarrow> ctrls d' k = ctrls d1 k"
      using Cons.IH [OF c(2)] Cons.prems(2) by auto
    have c0: "commit_call env n opc d = Inr (0, d1)" "ret = 0"
      using ih(1) c(1) by (simp_all add: or_zero)
    note one = commit_call_sends [OF c0(1)]
    have "n \<notin> set ns" using Cons.prems(2) by simp
    then have "sent_one opc d d' n" using one(1) ih(3) by (simp add: sent_one_def)
    moreover have "if alive (ctrls d k) then sent_one opc d d' k else ctrls d' k = ctrls d k"
      if "k \<in> set ns" for k
    proof -
      have "k \<noteq> n" using that \<open>n \<notin> set ns\<close> by auto
      then have e: "ctrls d1 k = ctrls d k" by (rule one(2))
      show ?thesis using bspec [OF ih(2) that] unfolding sent_one_def by (auto simp: e split: if_splits)
    qed
    ultimately show ?thesis using True c0(2) ih(3) one(2) by auto
  next
    case False
    then show ?thesis using Cons.IH [of ret d] Cons.prems by auto
  qed
qed

lemma restart_batch_ctrls: "restart_batch d = Inr d' \<Longrightarrow> ctrls d' = ctrls d"
  by (auto simp: restart_batch_def deref_Inr_iff Let_def clear_stage_def)

lemma commit_all_sends:
  assumes "ib_rpc_commit_all env d = Inr (0, d')" "distinct (ctrl_list d)" "n \<in> set (ctrl_list d)"
    "alive (ctrls d n)"
  shows "sent_one commit_opcode d d' n"
proof -
  obtain d1 where "commit_each (\<lambda>n. commit_call env n commit_opcode) (ctrl_list d) 0 d = Inr (0, d1)"
      "restart_batch d1 = Inr d'"
    using assms(1)
    by (auto simp: ib_rpc_commit_all_def rbind_Inr_iff ib_rpc_commit_unlocked_def [abs_def])
  then show ?thesis
    using commit_each_sends [of env commit_opcode "ctrl_list d" 0 d d1] assms(2-4) restart_batch_ctrls
    by (auto simp: sent_one_def)
qed

section \<open>A read\<close>

text \<open>A staged page is copied out and no server is asked.\<close>

lemma commit_all_silent:
  assumes "ib_rpc_commit_all env d = Inr (0, d')" "distinct (ctrl_list d)"
    "n \<notin> set (ctrl_list d) \<or> \<not> alive (ctrls d n)"
  shows "rc_sent (ctrls d' n) = rc_sent (ctrls d n)"
proof -
  obtain d1 where d1: "commit_each (ib_rpc_commit_unlocked env) (ctrl_list d) 0 d = Inr (0, d1)"
      "restart_batch d1 = Inr d'"
    using assms(1) by (auto simp: ib_rpc_commit_all_def rbind_Inr_iff)
  have c: "commit_each (\<lambda>n. commit_call env n commit_opcode) (ctrl_list d) 0 d = Inr (0, d1)"
    using d1(1) by (simp add: ib_rpc_commit_unlocked_def [abs_def])
  then have "ctrls d1 n = ctrls d n"
    using commit_each_sends [OF c assms(2)] assms(3) by metis
  then show ?thesis using restart_batch_ctrls [OF d1(2)] by simp
qed

lemma read_staged:
  assumes "staged (stage_buffer d) (kmem d) off = Some p" "main_ctrl d = Ctrl mn"
    "get_sub_rdma_ctrl d = Ctrl sn"
  shows "\<exists>d'. maruswap_rdma_read io page off d = Inr (0, d') \<and> page_at (kmem d') page = p
    \<and> ctrls d' = ctrls d"
  using assms stage_buffer_load_staged [of page off "stage_buffer d" "kmem d"]
  by (auto simp: maruswap_rdma_read_def deref_def get_main_rdma_ctrl_def case_prod_unfold)

text \<open>Any other page is read from the place the chosen server gave for its block.\<close>

lemma read_remote:
  assumes "staged (stage_buffer d) (kmem d) off = None"
    and "(if io_cpu io mod 2 \<noteq> 0 then get_main_rdma_ctrl d else get_sub_rdma_ctrl d) = Ctrl n"
    and "unat (get_num_memblock off) < length (rdma_info (ctrls d n))" and "io_good io dma"
  shows "\<exists>d' wr. maruswap_rdma_read io page off d = Inr (0, d')
    \<and> rc_sent (ctrls d' n) = rc_sent (ctrls d n) @ [wr] \<and> wr_op wr = WR_RDMA_READ \<and> sge_addr wr = dma
    \<and> wr_remote_addr wr = remote_addr (rdma_info (ctrls d n) ! unat (get_num_memblock off))
        + ucast (push_bit 12 (off AND 0x3ffff))
    \<and> wr_rkey wr = rkey (rdma_info (ctrls d n) ! unat (get_num_memblock off))"
proof -
  have l: "stage_buffer_load page off (stage_buffer d) (kmem d) = (NULL, kmem d)"
    using stage_buffer_load_staged [of page off "stage_buffer d" "kmem d"] assms(1) by simp
  obtain ps st where "send_loop (io_done io) (io_polls io) ((drv_done d)(io_done io := 0)) = Inr (True, ps, st)"
    using send_loop_good [OF assms(4)] by blast
  then show ?thesis
    using assms l
    by (auto simp: maruswap_rdma_read_def deref_def get_req_for_page_def drv_rdma_send_def Let_def
        io_good_def upd_ctrl_def)
qed


section \<open>Error paths\<close>

text \<open>
  A commit that a server does not answer makes the write fail; by then the staged copies are
  dropped and the count restarted, although the page of this write was never sent.
\<close>

lemma write_commit_failed:
  assumes "maruswap_multicast_write env io page off d = Inr (ret, d')" "driver_ok base d"
    and "main_ctrl d = Ctrl mn" "block_open (unat (get_num_memblock off)) d" "io_dma io = Some dma"
    and "CONFIG_BATCH \<le> uint (atomic_read (drv_batch d))"
    and "ib_rpc_commit_all env (drv_lock d) = Inr (r, d3)" "r \<noteq> 0"
  shows "ret = 1 \<and> mc_sent d' = mc_sent d \<and> atomic_read (drv_batch d') = 0
    \<and> staged (stage_buffer d') m = Map.empty"
proof -
  have b: "CONFIG_BATCH \<le> sint (atomic_read (drv_batch d))"
    using assms(2,6) by (simp add: batch_sint driver_ok_def)
  have "maruswap_multicast_write env io page off d = Inr (1, drv_unlock d3)"
    using assms(3,5,7,8) b check_rdma_info_open [OF assms(4)]
    by (simp add: maruswap_multicast_write_def deref_def get_main_rdma_ctrl_def get_req_for_page_def)
  then have r: "ret = 1" "d' = drv_unlock d3" using assms(1) by simp_all
  have "driver_ok base (drv_lock d)" using assms(2) by simp
  from commit_all_result [OF assms(7) this] show ?thesis by (simp add: r)
qed

text \<open>
  When the xarray cannot be extended the write still reports success, and a page staged
  earlier under the same number goes on hiding the new one.
\<close>

lemma write_stale:
  assumes ok: "driver_ok base d" and main: "main_ctrl d = Ctrl mn"
    and op: "block_open (unat (get_num_memblock off)) d"
    and room: "uint (atomic_read (drv_batch d)) < CONFIG_BATCH"
    and io: "io_good (io\<lparr>io_xa_ok := True\<rparr>) dma" "\<not> io_xa_ok io"
  shows "\<exists>d'. maruswap_multicast_write env io page off d = Inr (0, d')
    \<and> staged (stage_buffer d') (kmem d') = staged (stage_buffer d) (kmem d)
    \<and> ctrl_list d' = ctrl_list d \<and> main_ctrl d' = main_ctrl d"
proof -
  let ?d4 = "drv_unlock ((drv_lock d)\<lparr>drv_batch := atomic_inc (drv_batch d)\<rparr>)"
  have b: "\<not> CONFIG_BATCH \<le> sint (atomic_read (drv_batch d))"
    using room batch_sint [of "atomic_read (drv_batch d)"] by simp
  have st: "stage_ok base (stage_buffer d)" "\<not> stage_buffer_full (stage_buffer d)"
    using ok room by (auto simp: driver_ok_def stage_buffer_full_def)
  obtain sb where sb: "stage_buffer_store False page off (stage_buffer d) (kmem d) =
      Inr (sb, memcpy (kmem d) (slot base (sb_index (stage_buffer d))) page PAGE_SIZE)"
    "staged sb (memcpy (kmem d) (slot base (sb_index (stage_buffer d))) page PAGE_SIZE)
      = staged (stage_buffer d) (kmem d)"
    using stage_buffer_store_no_entry [OF st] by blast
  obtain ps st' where "send_loop (io_done io) (io_polls io) ((drv_done ?d4)(io_done io := 0)) = Inr (True, ps, st')"
    using send_loop_good [OF io(1), of "drv_done ?d4"] by auto
  then show ?thesis
    using io main b sb check_rdma_info_open [OF op]
    by (auto simp: maruswap_multicast_write_def deref_def get_main_rdma_ctrl_def get_req_for_page_def
        io_good_def drv_multicast_send_def Let_def)
qed

section \<open>Opening a block\<close>

text \<open>
  The reply to an open carries back the request's own immediate word. When the page number's
  low byte has a bit the slot number lacks, that word names another slot, and the call never
  returns.
\<close>

definition echoes :: "u32 \<Rightarrow> poll \<Rightarrow> bool" where
  "echoes imm p \<longleftrightarrow> p = Poll_Empty \<or> (\<exists>w. p = Poll_Wc w \<and> imm_data w = imm \<and> wc_ok w)"

definition send_completes :: "'r rpc_env \<Rightarrow> bool" where
  "send_completes e \<longleftrightarrow>
     e_post_ok e \<and> (\<exists>pre w rest. e_send_polls e = pre @ Poll_Wc w # rest
       \<and> (\<forall>p \<in> set pre. passes_by (e_done e) p \<and> p \<noteq> Poll_Error) \<and> wr_id w = e_done e \<and> wc_ok w)"

lemma open_block_bounds: "unat (get_num_memblock off) < 128 \<Longrightarrow> off < 2 ^ 28 \<Longrightarrow>
   b < NR_BINDERS \<Longrightarrow> wc_binder (rpc_imm (open_opcode off) (of_nat b)) = (off AND 0xff) OR of_nat b"
  by (rule open_fields(3)) (simp_all add: NR_BINDERS_def word_less_nat_alt unat_of_nat)

lemma open_stuck:
  assumes len: "length (drv_binders d) = NR_BINDERS"
    and info: "unat (get_num_memblock off) < length (rdma_info (ctrls d n))"
      "rkey (rdma_info (ctrls d n) ! unat (get_num_memblock off)) = 0"
      "length (rdma_info (ctrls d n)) = MAX_BLOCKS" "off < 2 ^ 28"
    and get: "get_binder (e_draws (env (calls d))) (drv_binders d) = Inr (b, rs, bs)"
    and snd: "send_completes (env (calls d))"
    and echo: "\<forall>p \<in> set (e_recv_polls (env (calls d))). echoes (rpc_imm (open_opcode off) (of_nat b)) p"
    and clash: "(off AND 0xff) OR of_nat b \<noteq> of_nat b"
  shows "ib_rpc_open env n off d = Inl Spinning"
proof -
  let ?e = "env (calls d)" and ?c = "ctrls d n"
  let ?s = "\<lparr>r_binders = drv_binders d, r_done = drv_done d, r_sent = rc_sent ?c, r_rq = rc_rq ?c\<rparr>"
  have b: "b < NR_BINDERS" using get_binder_result [OF get] by blast
  have w: "unat (wc_binder (rpc_imm (open_opcode off) (of_nat b))) \<noteq> b"
  proof
    assume "unat (wc_binder (rpc_imm (open_opcode off) (of_nat b))) = b"
    then have "wc_binder (rpc_imm (open_opcode off) (of_nat b)) = of_nat b"
      by (metis word_of_nat_eq_iff word_unat_eq_iff unat_of_nat of_nat_unat ucast_id)
    then show False
      using open_block_bounds [OF _ info(4) b] info(1,3) clash by (simp add: MAX_BLOCKS_def)
  qed
  have others: "\<forall>p \<in> set (e_recv_polls ?e). for_others b p"
    using echo w by (auto simp: for_others_def echoes_def)
  obtain pre ws rest where s: "e_post_ok ?e" "e_send_polls ?e = pre @ Poll_Wc ws # rest"
      "\<forall>p \<in> set pre. passes_by (e_done ?e) p \<and> p \<noteq> Poll_Error" "wr_id ws = e_done ?e" "wc_ok ws"
    using snd unfolding send_completes_def by blast
  have "drv_rpc ?e (rc_lkey ?c) (open_opcode off) (dma_buffer ?c) 16 ?s = Inl Spinning"
    by (rule drv_rpc_waits [OF _ _ s(1,2,3,4,5) others]) (use len get in simp_all)
  then have "ctrl_rpc env n (open_opcode off) 16 d = Inl Spinning"
    by (simp add: ctrl_rpc_def Let_def)
  then show ?thesis using info by (simp add: ib_rpc_open_def ib_rpc_open_unlocked_def Let_def)
qed

text \<open>Otherwise the open returns and files what the server sent for the block.\<close>

lemma open_served:
  assumes len: "length (drv_binders d) = NR_BINDERS"
    and info: "unat (get_num_memblock off) < length (rdma_info (ctrls d n))"
      "rkey (rdma_info (ctrls d n) ! unat (get_num_memblock off)) = 0" "off < 2 ^ 28"
      "unat (get_num_memblock off) < MAX_BLOCKS"
    and get: "get_binder (e_draws (env (calls d))) (drv_binders d) = Inr (b, rs, bs)"
    and srv: "serves (env (calls d)) b pre w" "imm_data w = rpc_imm (open_opcode off) (of_nat b)"
    and fits: "(off AND 0xff) OR of_nat b = of_nat b"
    and reply: "e_rws (env (calls d)) (wr_id w) = Some i"
  shows "\<exists>d'. ib_rpc_open env n off d = Inr (0, d')
    \<and> rdma_info (ctrls d' n) = (rdma_info (ctrls d n))[unat (get_num_memblock off) := i]
    \<and> flag (drv_binders d') b = 0"
proof -
  let ?c = "ctrls d n"
  let ?s = "\<lparr>r_binders = drv_binders d, r_done = drv_done d, r_sent = rc_sent ?c, r_rq = rc_rq ?c\<rparr>"
  have b: "b < NR_BINDERS" using get_binder_result [OF get] by blast
  have own: "unat (wc_binder (imm_data w)) = b"
    using open_block_bounds [OF _ info(3) b] info(4) b fits srv(2)
    by (simp add: MAX_BLOCKS_def NR_BINDERS_def unat_of_nat)
  have "\<exists>s'. drv_rpc (env (calls d)) (rc_lkey ?c) (open_opcode off) (dma_buffer ?c) 16 ?s
        = Inr (0, Some i, s') \<and> flag (r_binders s') b = 0"
    using drv_rpc_served [of ?s "env (calls d)" b rs bs pre w i "rc_lkey ?c" "open_opcode off" "dma_buffer ?c" 16]
      len get srv(1) own reply by auto
  then show ?thesis
    using info by (auto simp: ib_rpc_open_def ib_rpc_open_unlocked_def ctrl_rpc_def Let_def upd_ctrl_def)
qed


lemma open_other_infos:
  assumes "ib_rpc_open env n off d = Inr (ret, d')" "k \<noteq> n"
  shows "rdma_info (ctrls d' k) = rdma_info (ctrls d k)"
  using assms by (auto simp: ib_rpc_open_def ib_rpc_open_unlocked_def Let_def rbind_Inr_iff upd_ctrl_def
      dest!: ctrl_rpc_frame split: if_splits option.splits)

section \<open>Commits that are answered\<close>

definition all_free :: "driver \<Rightarrow> bool" where
  "all_free d \<longleftrightarrow> length (drv_binders d) = NR_BINDERS \<and> (\<forall>i < NR_BINDERS. flag (drv_binders d) i = 0)"

text \<open>Every call draws some slot, and its own reply is the first one it finds.\<close>

definition answers :: "call_env \<Rightarrow> bool" where
  "answers env \<longleftrightarrow>
     (\<forall>i. \<exists>r rs pre w info. e_draws (env i) = r # rs \<and> serves (env i) (r mod NR_BINDERS) pre w
        \<and> (\<forall>p \<in> set pre. p = Poll_Empty) \<and> unat (wc_binder (imm_data w)) = r mod NR_BINDERS
        \<and> e_rws (env i) (wr_id w) = Some info)"

lemma file_all_empties: "\<forall>p \<in> set pre. p = Poll_Empty \<Longrightarrow> file_all pre bs = bs"
  by (induction pre bs rule: file_all.induct) auto

lemma ctrl_rpc_answers:
  assumes "all_free d" "answers env"
  shows "\<exists>i d'. ctrl_rpc env n opc sz d = Inr (0, Some i, d') \<and> all_free d'"
proof -
  let ?c = "ctrls d n"
  let ?s = "\<lparr>r_binders = drv_binders d, r_done = drv_done d, r_sent = rc_sent ?c, r_rq = rc_rq ?c\<rparr>"
  obtain r rs pre w info where e: "e_draws (env (calls d)) = r # rs"
      "serves (env (calls d)) (r mod NR_BINDERS) pre w" "\<forall>p \<in> set pre. p = Poll_Empty"
      "unat (wc_binder (imm_data w)) = r mod NR_BINDERS" "e_rws (env (calls d)) (wr_id w) = Some info"
    using assms(2) unfolding answers_def by metis
  have len: "length (drv_binders d) = NR_BINDERS" using assms(1) by (simp add: all_free_def)
  have "r mod NR_BINDERS < NR_BINDERS" by (simp add: NR_BINDERS_def)
  then have "flag (drv_binders d) (r mod NR_BINDERS) = 0"
    using assms(1) by (simp add: all_free_def)
  then obtain bs where get: "get_binder (e_draws (env (calls d))) (drv_binders d) = Inr (r mod NR_BINDERS, rs, bs)"
    by (simp add: e(1))
  obtain s' where s': "drv_rpc (env (calls d)) (rc_lkey ?c) opc (dma_buffer ?c) sz ?s = Inr (0, Some info, s')"
      "length (r_binders s') = NR_BINDERS" "flag (r_binders s') (r mod NR_BINDERS) = 0"
      "\<forall>i. i \<noteq> r mod NR_BINDERS \<longrightarrow> flag (r_binders s') i = flag (file_all pre (drv_binders d)) i"
    using drv_rpc_served [of ?s "env (calls d)" "r mod NR_BINDERS" rs bs pre w info "rc_lkey ?c" opc
        "dma_buffer ?c" sz] len get e(2,4,5) by auto
  have "\<forall>i < NR_BINDERS. flag (r_binders s') i = 0"
  proof (intro allI impI)
    fix i
    assume "i < NR_BINDERS"
    then show "flag (r_binders s') i = 0"
      using s'(3,4) assms(1) file_all_empties [OF e(3)]
      by (cases "i = r mod NR_BINDERS") (simp_all add: all_free_def)
  qed
  then show ?thesis
    using s'(1,2) by (simp add: ctrl_rpc_def all_free_def upd_ctrl_def)
qed

lemma commit_call_answers:
  "all_free d \<Longrightarrow> answers env \<Longrightarrow> \<exists>d'. commit_call env n opc d = Inr (0, d') \<and> all_free d'"
  using ctrl_rpc_answers [of d env n opc 4]
  by (auto simp: commit_call_def all_free_def upd_ctrl_def)

lemma commit_each_answers:
  "all_free d \<Longrightarrow> answers env \<Longrightarrow>
   \<exists>d'. commit_each (\<lambda>n. commit_call env n opc) ns 0 d = Inr (0, d') \<and> all_free d'"
proof (induction ns arbitrary: d)
  case Nil
  then show ?case by simp
next
  case (Cons n ns)
  show ?case
  proof (cases "alive (ctrls d n)")
    case True
    then show ?thesis using commit_call_answers [OF Cons.prems, of n opc] Cons.IH Cons.prems(2) by auto
  next
    case False
    then show ?thesis using Cons by simp
  qed
qed

lemma commit_all_answers:
  assumes "all_free d" "answers env" "main_ctrl d = Ctrl mn"
  shows "\<exists>d'. ib_rpc_commit_all env d = Inr (0, d') \<and> all_free d'"
proof -
  obtain d1 where d1: "commit_each (\<lambda>n. commit_call env n commit_opcode) (ctrl_list d) 0 d = Inr (0, d1)"
      "all_free d1"
    using commit_each_answers [OF assms(1,2)] by blast
  have sc: "same_core d d1"
    using commit_each_frame [of "\<lambda>n. commit_call env n commit_opcode" "ctrl_list d" 0 d 0 d1]
      commit_call_frame d1(1) by blast
  then have "main_ctrl d1 = Ctrl mn" using assms(3) by (simp add: same_core_def)
  then obtain d2 where "restart_batch d1 = Inr d2" "all_free d2"
    using d1(2)
    by (auto simp: restart_batch_def deref_def get_main_rdma_ctrl_def Let_def clear_stage_def all_free_def)
  with d1(1) show ?thesis
    by (auto simp: ib_rpc_commit_all_def ib_rpc_commit_unlocked_def [abs_def])
qed


section \<open>Everything the driver does\<close>

lemma restart_after_commit:
  assumes "commit_each f ns 0 d = Inr (ret, d1)" "restart_batch d1 = Inr d'" "driver_ok base d"
    and "\<And>n d ret d'. f n d = Inr (ret, d') \<Longrightarrow> same_core d d'"
  shows "driver_ok base d' \<and> drv_spin d' = drv_spin d"
proof -
  have sc: "same_core d d1" by (rule commit_each_frame [OF assms(4) assms(1)])
  have ok: "driver_ok base d1" using assms(3) driver_ok_same_core [OF sc] by simp
  show ?thesis using restart_batch_eq [OF ok assms(2)] sc by (simp add: same_core_def)
qed

lemma qcommit_all_ok:
  "ib_rpc_qcommit_all env count d = Inr (ret, d') \<Longrightarrow> driver_ok base d \<Longrightarrow>
   driver_ok base d' \<and> drv_spin d' = drv_spin d"
  by (auto simp: ib_rpc_qcommit_all_def rbind_Inr_iff
      dest!: restart_after_commit [where f = "\<lambda>n. ib_rpc_qcommit_unlocked env n count"] commit_unlocked_frame(2))

lemma rdma_send_keeps:
  "drv_rdma_send io n dma header opcode info off d = Inr (ret, d') \<Longrightarrow>
   stage_buffer d' = stage_buffer d \<and> drv_batch d' = drv_batch d \<and> drv_spin d' = drv_spin d
   \<and> kmem d' = kmem d \<and> ctrl_list d' = ctrl_list d \<and> main_ctrl d' = main_ctrl d
   \<and> drv_binders d' = drv_binders d \<and> same_infos d d'"
  by (auto simp: drv_rdma_send_def rbind_Inr_iff Let_def upd_ctrl_def same_infos_def)

lemma stage_buffer_load_mem:
  "stage_buffer_load page off sb m = (c, m') \<Longrightarrow> m' = m \<or> (\<exists>src. m' = memcpy m page src PAGE_SIZE)"
  by (auto simp: stage_buffer_load_def Let_def split: if_splits)

text \<open>A read writes nothing but the page it was given.\<close>

lemma read_keeps:
  assumes "maruswap_rdma_read io page off d = Inr (ret, d')"
  shows "stage_buffer d' = stage_buffer d \<and> drv_batch d' = drv_batch d \<and> drv_spin d' = drv_spin d
    \<and> ctrl_list d' = ctrl_list d \<and> main_ctrl d' = main_ctrl d \<and> drv_binders d' = drv_binders d
    \<and> same_infos d d' \<and> (kmem d' = kmem d \<or> (\<exists>src. kmem d' = memcpy (kmem d) page src PAGE_SIZE))"
  using assms stage_buffer_load_mem
  by (auto simp: maruswap_rdma_read_def deref_Inr_iff Let_def case_prod_unfold same_infos_def
      split: if_splits dest!: rdma_send_keeps) (metis prod.collapse)+

lemma read_ok:
  assumes "maruswap_rdma_read io page off d = Inr (ret, d')"
  shows "driver_ok base d' = driver_ok base d \<and> drv_spin d' = drv_spin d"
  using read_keeps [OF assms] by (simp add: driver_ok_def)

text \<open>
  The calls the kernel makes into the driver, in any order and with any environment; \<open>d0\<close> is a
  driver right after its staging buffer was set up.
\<close>

inductive driver_step :: "driver \<Rightarrow> driver \<Rightarrow> bool" where
  step_write: "maruswap_multicast_write env io page off d = Inr (ret, d') \<Longrightarrow> driver_step d d'"
| step_read: "maruswap_rdma_read io page off d = Inr (ret, d') \<Longrightarrow> driver_step d d'"
| step_commit: "ib_rpc_commit_all env d = Inr (ret, d') \<Longrightarrow> driver_step d d'"
| step_qcommit: "ib_rpc_qcommit_all env count d = Inr (ret, d') \<Longrightarrow> driver_step d d'"

inductive driver_reach :: "addr \<Rightarrow> driver \<Rightarrow> bool" for base where
  driver_start: "stage_base base \<Longrightarrow> stage_buffer d = snd (init_stage_buffer base sb) \<Longrightarrow>
    drv_batch d = ATOMIC_INIT 0 \<Longrightarrow> drv_spin d = 0 \<Longrightarrow> driver_reach base d"
| driver_next: "driver_reach base d \<Longrightarrow> driver_step d d' \<Longrightarrow> driver_reach base d'"

lemma driver_step_ok:
  assumes "driver_step d d'" "driver_ok base d"
  shows "driver_ok base d' \<and> drv_spin d' = drv_spin d"
  using assms(1)
proof cases
  case (step_write env io page off ret)
  then show ?thesis using write_driver_ok assms(2) write_spin_balanced by blast
next
  case (step_read io page off ret)
  then show ?thesis using read_ok assms(2) by blast
next
  case (step_commit env ret)
  then show ?thesis using commit_all_result assms(2) by blast
next
  case (step_qcommit env count ret)
  then show ?thesis using qcommit_all_ok assms(2) by blast
qed

lemma driver_reach_ok: "driver_reach base d \<Longrightarrow> driver_ok base d \<and> drv_spin d = 0"
proof (induction rule: driver_reach.induct)
  case (driver_start d sb)
  then show ?case
    using init_stage_buffer_ok [of base sb]
    by (auto simp: driver_ok_def init_stage_buffer_def CONFIG_BATCH_def stage_base_def Let_def)
next
  case (driver_next d d')
  then show ?case using driver_step_ok by metis
qed

text \<open>A write to a block that is open gets through, whether or not the batch is full.\<close>

lemma write_always:
  assumes ok: "driver_ok base d" and main: "main_ctrl d = Ctrl mn"
    and op: "block_open (unat (get_num_memblock off)) d" and io: "io_good io dma"
    and ans: "all_free d" "answers env"
  shows "\<exists>d'. maruswap_multicast_write env io page off d = Inr (0, d')
    \<and> staged (stage_buffer d') (kmem d') off = Some (page_at (kmem d) page)"
proof (cases "uint (atomic_read (drv_batch d)) < CONFIG_BATCH")
  case True
  from write_common [OF ok main op this io, of env page] show ?thesis by auto
next
  case False
  have dma: "io_dma io = Some dma" using io by (simp add: io_good_def)
  have free: "all_free (drv_lock d)" "main_ctrl (drv_lock d) = Ctrl mn" "driver_ok base (drv_lock d)"
    using ans(1) main ok by (simp_all add: all_free_def)
  obtain d3 where d3: "ib_rpc_commit_all env (drv_lock d) = Inr (0, d3)"
    using commit_all_answers [OF free(1) ans(2) free(2)] by blast
  have r: "driver_ok base d3" "sb_count (stage_buffer d3) = 0" "kmem d3 = kmem d"
    using commit_all_result [OF d3 free(3)] by simp_all
  have full: "CONFIG_BATCH \<le> sint (atomic_read (drv_batch d))"
    using ok False batch_sint [of "atomic_read (drv_batch d)"] by (simp add: driver_ok_def)
  let ?d4 = "drv_unlock (d3\<lparr>drv_batch := atomic_inc (drv_batch d3)\<rparr>)"
  have "maruswap_multicast_write env io page off d =
      drv_multicast_send io dma (flow_header off) page off ?d4"
    using main full check_rdma_info_open [OF op] d3 dma
    by (simp add: maruswap_multicast_write_def deref_def get_main_rdma_ctrl_def get_req_for_page_def)
  moreover have "stage_ok base (stage_buffer ?d4)" "\<not> stage_buffer_full (stage_buffer ?d4)"
    using r(1,2) by (simp_all add: driver_ok_def stage_buffer_full_def CONFIG_BATCH_def)
  ultimately show ?thesis using multicast_send_good [OF io, of base ?d4 off page] r(3) by fastforce
qed

section \<open>A full batch\<close>

text \<open>What a commit does is the same with the driver's lock held.\<close>

lemma ctrl_rpc_lock:
  "ctrl_rpc env n opc sz d = Inr (r, x, d') \<Longrightarrow> ctrl_rpc env n opc sz (drv_lock d) = Inr (r, x, drv_lock d')"
  by (auto simp: ctrl_rpc_def drv_lock_def upd_ctrl_def Let_def rbind_Inr_iff)

lemma commit_unlocked_lock:
  assumes "ib_rpc_commit_unlocked env n d = Inr (r, d')"
  shows "ib_rpc_commit_unlocked env n (drv_lock d) = Inr (r, drv_lock d')"
proof -
  obtain x d1 where c: "ctrl_rpc env n commit_opcode 4 d = Inr (r, x, d1)"
    "d' = (case x of None \<Rightarrow> d1 | Some i \<Rightarrow> upd_ctrl n (\<lambda>c. c\<lparr>rc_commit := ucast (remote_addr i)\<rparr>) d1)"
    using assms by (auto simp: ib_rpc_commit_unlocked_def commit_call_def rbind_Inr_iff split: option.splits)
  then show ?thesis
    using ctrl_rpc_lock [OF c(1)]
    by (auto simp: ib_rpc_commit_unlocked_def commit_call_def drv_lock_def upd_ctrl_def split: option.split)
qed

lemma commit_each_lock:
  "commit_each (ib_rpc_commit_unlocked env) ns ret d = Inr (r, d') \<Longrightarrow>
   commit_each (ib_rpc_commit_unlocked env) ns ret (drv_lock d) = Inr (r, drv_lock d')"
proof (induction ns arbitrary: ret d)
  case (Cons n ns)
  have l: "ctrls (drv_lock d) = ctrls d" by (simp add: drv_lock_def)
  show ?case
    using Cons commit_unlocked_lock by (fastforce simp: l rbind_Inr_iff split: if_splits)
qed simp

lemma commit_all_lock:
  assumes "ib_rpc_commit_all env d = Inr (r, d')"
  shows "ib_rpc_commit_all env (drv_lock d) = Inr (r, drv_lock d')"
proof -
  obtain d1 where c: "commit_each (ib_rpc_commit_unlocked env) (ctrl_list d) 0 d = Inr (r, d1)"
      "restart_batch d1 = Inr d'"
    using assms by (auto simp: ib_rpc_commit_all_def rbind_Inr_iff)
  have "restart_batch (drv_lock d1) = Inr (drv_lock d')"
    using c(2) by (auto simp: restart_batch_def deref_Inr_iff get_main_rdma_ctrl_def drv_lock_def clear_stage_def Let_def)
  moreover have "ctrl_list (drv_lock d) = ctrl_list d" by (simp add: drv_lock_def)
  ultimately show ?thesis using commit_each_lock [OF c(1)] by (simp add: ib_rpc_commit_all_def)
qed

lemma write_full:
  assumes ok: "driver_ok base d" and main: "main_ctrl d = Ctrl mn"
    and op: "block_open (unat (get_num_memblock off)) d" and dma: "io_dma io = Some dma"
    and full: "uint (atomic_read (drv_batch d)) = CONFIG_BATCH"
    and cm: "ib_rpc_commit_all env d = Inr (r, d1)"
  shows "maruswap_multicast_write env io page off d =
    (if r \<noteq> 0 then Inr (1, d1) else maruswap_multicast_write env io page off d1)"
proof -
  note k = commit_all_result [OF cm ok]
  have full': "CONFIG_BATCH \<le> sint (atomic_read (drv_batch (drv_lock d)))"
    using full batch_sint [of "atomic_read (drv_batch d)"] by simp
  have "block_open (unat (get_num_memblock off)) d1"
    using op commit_all_infos [OF cm] k by (simp add: block_open_def same_infos_def)
  then have c: "check_rdma_info (unat (get_num_memblock off)) (drv_lock d1) = Inr False"
    using check_rdma_info_open by blast
  have room: "\<not> CONFIG_BATCH \<le> sint (atomic_read (drv_batch (drv_lock d1)))"
    using k by (simp add: CONFIG_BATCH_def)
  have "drv_unlock (drv_lock d1) = d1" by (simp add: drv_lock_def drv_unlock_def)
  then show ?thesis
    using main k dma full' check_rdma_info_open [OF op] commit_all_lock [OF cm] c room
    by (simp add: maruswap_multicast_write_def deref_def get_main_rdma_ctrl_def get_req_for_page_def)
qed

section \<open>A block not open yet\<close>

lemma lock_targets [simp]:
  "ctrls (drv_lock d) = ctrls d" "get_main_rdma_ctrl (drv_lock d) = get_main_rdma_ctrl d"
  "get_sub_rdma_ctrl (drv_lock d) = get_sub_rdma_ctrl d"
  by (simp_all add: drv_lock_def get_main_rdma_ctrl_def get_sub_rdma_ctrl_def)

lemma open_unlocked_lock:
  assumes "ib_rpc_open_unlocked env n off d = Inr (r, d')"
  shows "ib_rpc_open_unlocked env n off (drv_lock d) = Inr (r, drv_lock d')"
proof (cases "rkey (rdma_info (ctrls d n) ! unat (get_num_memblock off)) = 0")
  case True
  with assms obtain x d1 where c: "unat (get_num_memblock off) < length (rdma_info (ctrls d n))"
    "ctrl_rpc env n (open_opcode off) 16 d = Inr (r, x, d1)"
    "d' = (case x of None \<Rightarrow> d1 | Some i \<Rightarrow> upd_ctrl n (\<lambda>c. c\<lparr>rdma_info := (rdma_info c)
       [unat (get_num_memblock off) := i], req_info := no_info\<rparr>) d1)"
    by (auto simp: ib_rpc_open_unlocked_def Let_def rbind_Inr_iff split: if_splits option.splits)
  then show ?thesis
    using ctrl_rpc_lock [OF c(2)] True
    by (auto simp: ib_rpc_open_unlocked_def Let_def drv_lock_def upd_ctrl_def split: option.split)
next
  case False
  then show ?thesis using assms by (auto simp: ib_rpc_open_unlocked_def Let_def split: if_splits)
qed

lemma open_alive_lock:
  assumes "(if alive (ctrls d n) then ib_rpc_open_unlocked env n off d else Inr (t, d)) = Inr (r, d')"
  shows "(if alive (ctrls d n) then ib_rpc_open_unlocked env n off (drv_lock d) else Inr (t, drv_lock d))
    = Inr (r, drv_lock d')"
  using assms open_unlocked_lock by (simp split: if_splits)

lemma open_all_lock:
  assumes "ib_rpc_open_all env off d = Inr (r, d')"
  shows "ib_rpc_open_all env off (drv_lock d) = Inr (r, drv_lock d')"
proof -
  obtain sn t d1 mn t' where s: "get_sub_rdma_ctrl d = Ctrl sn"
      "(if alive (ctrls d sn) then ib_rpc_open_unlocked env sn off d else Inr (0, d)) = Inr (t, d1)"
      "get_main_rdma_ctrl d = Ctrl mn"
      "(if alive (ctrls d1 mn) then ib_rpc_open_unlocked env mn off d1 else Inr (t, d1)) = Inr (t', d')"
      "r = (0 OR t) OR t'"
    using assms
    unfolding ib_rpc_open_all_def Let_def deref_Inr_iff rbind_Inr_iff split_paired_Ex prod.case
      sum.inject prod.inject by blast
  show ?thesis
    using s(1,3,5) open_alive_lock [OF s(2)] open_alive_lock [OF s(4)]
    by (simp add: ib_rpc_open_all_def deref_def)
qed

lemma write_unopened:
  assumes main: "main_ctrl d = Ctrl mn" and dma: "io_dma io = Some dma"
    and new: "check_rdma_info (unat (get_num_memblock off)) d = Inr True"
    and op: "ib_rpc_open_all env off d = Inr (r, d1)"
    and key: "r = 0 \<Longrightarrow> block_open (unat (get_num_memblock off)) d1"
  shows "maruswap_multicast_write env io page off d =
    (if r \<noteq> 0 then Inr (1, d1) else maruswap_multicast_write env io page off d1)"
proof -
  have m1: "main_ctrl d1 = Ctrl mn" using open_all_frame [OF op] main by (simp add: same_core_def)
  have "check_infos (drv_lock d) nr ns c = check_infos d nr ns c" for nr ns c
    by (induction ns arbitrary: c) (simp_all add: drv_lock_def)
  then have c: "check_rdma_info (unat (get_num_memblock off)) (drv_lock d) = Inr True"
    using new by (simp add: check_rdma_info_def drv_lock_def)
  have "drv_unlock (drv_lock d1) = d1" by (simp add: drv_lock_def drv_unlock_def)
  then show ?thesis
    using main dma c m1 open_all_lock [OF op] check_rdma_info_open [OF key]
    by (simp add: maruswap_multicast_write_def deref_def get_main_rdma_ctrl_def get_req_for_page_def)
qed

text \<open>The driver as loading leaves it: two connections, both alive, with their tables.\<close>

definition both_servers :: "nat \<Rightarrow> nat \<Rightarrow> driver \<Rightarrow> bool" where
  "both_servers mn sn d \<longleftrightarrow>
     main_ctrl d = Ctrl mn \<and> get_sub_rdma_ctrl d = Ctrl sn \<and> set (ctrl_list d) = {mn, sn}
     \<and> (\<forall>n \<in> {mn, sn}. alive (ctrls d n) \<and> length (rdma_info (ctrls d n)) = MAX_BLOCKS)"

text \<open>Replies that carry a key.\<close>

definition keyed :: "call_env \<Rightarrow> bool" where
  "keyed env \<longleftrightarrow> (\<forall>i a info. e_rws (env i) a = Some info \<longrightarrow> rkey info \<noteq> 0)"

lemma check_infos_eq:
  "\<forall>n \<in> set ns. nr < length (rdma_info (ctrls d n)) \<Longrightarrow>
   check_infos d nr ns c = Inr (c \<or> (\<exists>n \<in> set ns. rkey (rdma_info (ctrls d n) ! nr) = 0))"
  by (induction ns arbitrary: c) auto

lemma drv_rpc_reply: "drv_rpc e lkey opc a sz s = Inr (ret, Some i, s') \<Longrightarrow> \<exists>w. e_rws e w = Some i"
  by (auto simp: drv_rpc_def Let_def rbind_Inr_iff split: if_splits option.splits prod.splits)

lemma open_unlocked_answers:
  assumes free: "all_free d" and ans: "answers env" and key: "keyed env"
    and nr: "unat (get_num_memblock off) < length (rdma_info (ctrls d n))"
  shows "\<exists>d'. ib_rpc_open_unlocked env n off d = Inr (0, d') \<and> all_free d'
    \<and> rkey (rdma_info (ctrls d' n) ! unat (get_num_memblock off)) \<noteq> 0
    \<and> (\<forall>k. k \<noteq> n \<longrightarrow> rdma_info (ctrls d' k) = rdma_info (ctrls d k))"
proof (cases "rkey (rdma_info (ctrls d n) ! unat (get_num_memblock off)) = 0")
  case True
  obtain i d1 where c: "ctrl_rpc env n (open_opcode off) 16 d = Inr (0, Some i, d1)" "all_free d1"
    using ctrl_rpc_answers [OF free ans] by blast
  then have "rkey i \<noteq> 0"
    using key unfolding keyed_def ctrl_rpc_def Let_def by (auto simp: rbind_Inr_iff dest!: drv_rpc_reply)
  then show ?thesis
    using True nr c ctrl_rpc_frame [OF c(1)]
    by (auto simp: ib_rpc_open_unlocked_def Let_def upd_ctrl_def all_free_def)
next
  case False
  then show ?thesis using nr free by (simp add: ib_rpc_open_unlocked_def Let_def)
qed

lemma open_all_answers:
  assumes "all_free d" "answers env" "keyed env" "both_servers mn sn d"
    and nr: "unat (get_num_memblock off) < MAX_BLOCKS" and ne: "sn \<noteq> mn"
  shows "\<exists>d'. ib_rpc_open_all env off d = Inr (0, d') \<and> all_free d'
    \<and> block_open (unat (get_num_memblock off)) d'"
proof -
  have b: "main_ctrl d = Ctrl mn" "get_sub_rdma_ctrl d = Ctrl sn" "set (ctrl_list d) = {mn, sn}"
    "alive (ctrls d sn)" "alive (ctrls d mn)" "length (rdma_info (ctrls d sn)) = MAX_BLOCKS"
    "length (rdma_info (ctrls d mn)) = MAX_BLOCKS"
    using assms(4) by (simp_all add: both_servers_def)
  obtain d1 where d1: "ib_rpc_open_unlocked env sn off d = Inr (0, d1)" "all_free d1"
      "rkey (rdma_info (ctrls d1 sn) ! unat (get_num_memblock off)) \<noteq> 0"
    using open_unlocked_answers [OF assms(1-3), of off sn] nr b(6) by auto
  have s1: "same_core d d1" using open_unlocked_frame [OF d1(1)] .
  then have b1: "alive (ctrls d1 mn)" "length (rdma_info (ctrls d1 n)) = length (rdma_info (ctrls d n))" for n
    using b(5) by (simp_all add: same_core_def)
  obtain d2 where d2: "ib_rpc_open_unlocked env mn off d1 = Inr (0, d2)" "all_free d2"
      "rkey (rdma_info (ctrls d2 mn) ! unat (get_num_memblock off)) \<noteq> 0"
      "\<forall>k. k \<noteq> mn \<longrightarrow> rdma_info (ctrls d2 k) = rdma_info (ctrls d1 k)"
    using open_unlocked_answers [OF d1(2) assms(2,3), of off mn] nr b(7) b1(2) by auto
  have s2: "same_core d d2" using same_core_trans [OF s1 open_unlocked_frame [OF d2(1)]] .
  have "ib_rpc_open_all env off d = Inr (0, d2)"
    using b(1,2,4) d1(1) b1(1) d2(1)
    by (simp add: ib_rpc_open_all_def deref_def get_main_rdma_ctrl_def)
  moreover have "block_open (unat (get_num_memblock off)) d2"
    using d1(3) d2(3,4) ne b(3,6,7) nr s2 by (auto simp: block_open_def same_core_def)
  ultimately show ?thesis using d2(2) by blast
qed

text \<open>A store to any block gets through.\<close>

lemma write_any:
  assumes ok: "driver_ok base d" and two: "both_servers mn sn d" "sn \<noteq> mn" and io: "io_good io dma"
    and ans: "all_free d" "answers env" "keyed env" and nr: "unat (get_num_memblock off) < MAX_BLOCKS"
  shows "\<exists>d'. maruswap_multicast_write env io page off d = Inr (0, d')
    \<and> staged (stage_buffer d') (kmem d') off = Some (page_at (kmem d) page)"
proof -
  have main: "main_ctrl d = Ctrl mn" using two by (simp add: both_servers_def)
  have dma: "io_dma io = Some dma" using io by (simp add: io_good_def)
  obtain c where c: "check_rdma_info (unat (get_num_memblock off)) d = Inr c"
      "c \<longleftrightarrow> (\<exists>n \<in> set (ctrl_list d). rkey (rdma_info (ctrls d n) ! unat (get_num_memblock off)) = 0)"
    using two nr by (simp add: check_rdma_info_def check_infos_eq both_servers_def)
  show ?thesis
  proof (cases c)
    case True
    obtain d1 where d1: "ib_rpc_open_all env off d = Inr (0, d1)" "all_free d1"
        "block_open (unat (get_num_memblock off)) d1"
      using open_all_answers [OF ans two(1) nr two(2)] by blast
    have s: "same_core d d1" using open_all_frame [OF d1(1)] .
    then have "main_ctrl d1 = Ctrl mn" "kmem d1 = kmem d" "driver_ok base d1"
      using main ok driver_ok_same_core [OF s] by (simp_all add: same_core_def)
    moreover have "maruswap_multicast_write env io page off d = maruswap_multicast_write env io page off d1"
      using write_unopened [OF main dma _ d1(1) d1(3), of page] c(1) True by simp
    ultimately show ?thesis using write_always [OF _ _ d1(3) io d1(2) ans(2), of base mn page] by simp
  next
    case False
    then have "block_open (unat (get_num_memblock off)) d"
      using c(2) two(1) nr by (simp add: block_open_def both_servers_def)
    from write_always [OF ok main this io ans(1,2)] show ?thesis .
  qed
qed

end
