(* ===== verification/Memblock.thy ===== *)
theory Memblock
  imports Prelude
begin

text \<open>
  The far-memory blocks of the server (\<open>lib/memblock.c\<close>, \<open>include/memblock.h\<close>): a block is
  1 GiB obtained with \<open>mmap\<close> and registered with the adapter, kept in a table of 128
  pointers by block number.

  What \<open>malloc\<close>, \<open>mmap\<close> and \<open>ibv_reg_mr\<close> return for a block is the argument \<open>block_env\<close>.
  Indexing the table beyond its 128 entries is the fault \<open>Out_Of_Bounds\<close>. The teardown is
  modelled by the system calls it makes, in order.
\<close>

unbundle bit_operations_syntax

record mr =
  mr_ptr :: addr      \<comment> \<open>address of the \<open>struct ibv_mr\<close> itself\<close>
  mr_addr :: addr     \<comment> \<open>start of the registered memory\<close>
  mr_lkey :: u32
  mr_rkey :: u32

record memblock =
  memblock_id :: nat
  buffer :: addr
  block_mr :: "mr option"

definition MAX_MEMBLOCK :: nat where "MAX_MEMBLOCK = 128"
definition MEMBLOCK_SIZE :: u64 where "MEMBLOCK_SIZE = 2 ^ 30"

record block_env =
  malloc_ok :: bool
  mmap_ret :: addr
  reg_ret :: "(addr \<times> u32 \<times> u32) option"   \<comment> \<open>the \<open>ibv_mr\<close>'s address, lkey and rkey\<close>

text \<open>The documented failure value of \<open>mmap\<close>.\<close>

definition MAP_FAILED :: addr where "MAP_FAILED = - 1"

section \<open>Allocation, registration and the table\<close>

definition alloc_memblock :: "block_env \<Rightarrow> nat \<Rightarrow> memblock option" where
  "alloc_memblock e nr =
     (if \<not> malloc_ok e then None
      else
        let mb = \<lparr>memblock_id = nr, buffer = mmap_ret e, block_mr = None\<rparr>
        in if buffer mb = 0 then None else Some mb)"

definition ibv_reg_mr :: "(addr \<times> u32 \<times> u32) option \<Rightarrow> addr \<Rightarrow> mr option" where
  "ibv_reg_mr r a =
     (case r of
        None \<Rightarrow> None
      | Some (p, l, k) \<Rightarrow> Some \<lparr>mr_ptr = p, mr_addr = a, mr_lkey = l, mr_rkey = k\<rparr>)"

definition set_memblock :: "block_env \<Rightarrow> memblock \<Rightarrow> bool \<times> memblock" where
  "set_memblock e mb =
     (let mb' = mb\<lparr>block_mr := ibv_reg_mr (reg_ret e) (buffer mb)\<rparr>
      in if block_mr mb' = None then (False, mb') else (True, mb'))"

record blocks_state =
  memblocks :: "memblock option list"
  memblock_list :: "nat list"

definition add_memblock ::
  "block_env \<Rightarrow> nat \<Rightarrow> 'z blocks_state_scheme \<Rightarrow> (bool \<times> 'z blocks_state_scheme) result" where
  "add_memblock e nr s =
     (if \<not> nr < length (memblocks s) then Inl Out_Of_Bounds
      else if memblocks s ! nr \<noteq> None then Inr (True, s)
      else (case alloc_memblock e nr of
              None \<Rightarrow> Inr (False, s)
            | Some mb \<Rightarrow>
                let (ok, mb') = set_memblock e mb in
                if \<not> ok then Inr (False, s)
                else Inr (True, s\<lparr>memblock_list := memblock_list s @ [nr],
                                 memblocks := (memblocks s)[nr := Some mb']\<rparr>)))"

section \<open>Teardown\<close>

datatype sys_call = Dereg_Mr "mr option" | Munmap addr u64 | Free_Block nat

text \<open>\<open>memblock_die\<close> deregisters, unmaps \<open>mb->mr\<close> and frees the struct.\<close>

definition memblock_die :: "memblock \<Rightarrow> sys_call list" where
  "memblock_die mb =
     [Dereg_Mr (block_mr mb),
      Munmap (case block_mr mb of None \<Rightarrow> 0 | Some m \<Rightarrow> mr_ptr m) MEMBLOCK_SIZE,
      Free_Block (memblock_id mb)]"

section \<open>Well-formed tables\<close>

text \<open>
  A block in use is registered at its own buffer and filed under its own number; the list
  names the blocks in the order they were added.
\<close>

definition block_ok :: "nat \<Rightarrow> memblock \<Rightarrow> bool" where
  "block_ok i mb \<longleftrightarrow> memblock_id mb = i \<and> (\<exists>m. block_mr mb = Some m \<and> mr_addr m = buffer mb)"

definition blocks_ok :: "'z blocks_state_scheme \<Rightarrow> bool" where
  "blocks_ok s \<longleftrightarrow>
     length (memblocks s) = MAX_MEMBLOCK
     \<and> (\<forall>i < MAX_MEMBLOCK. \<forall>mb. memblocks s ! i = Some mb \<longrightarrow> block_ok i mb)
     \<and> distinct (memblock_list s)
     \<and> set (memblock_list s) = {i. i < MAX_MEMBLOCK \<and> memblocks s ! i \<noteq> None}"

lemma alloc_set_memblock:
  "alloc_memblock e nr = Some mb \<Longrightarrow> set_memblock e mb = (True, mb') \<Longrightarrow>
   block_ok nr mb' \<and> buffer mb' = mmap_ret e"
  by (auto simp: alloc_memblock_def set_memblock_def ibv_reg_mr_def block_ok_def Let_def
      split: if_splits option.splits)

lemma add_memblock_cases:
  assumes "add_memblock e nr s = Inr (ok, s')"
  obtains "nr < length (memblocks s)" "memblocks s ! nr \<noteq> None" "ok" "s' = s"
    | "nr < length (memblocks s)" "memblocks s ! nr = None" "\<not> ok" "s' = s"
    | mb where "nr < length (memblocks s)" "memblocks s ! nr = None" "ok" "block_ok nr mb"
        "buffer mb = mmap_ret e" "buffer mb \<noteq> 0"
        "s' = s\<lparr>memblock_list := memblock_list s @ [nr], memblocks := (memblocks s)[nr := Some mb]\<rparr>"
proof (cases "nr < length (memblocks s) \<and> memblocks s ! nr = None")
  case False
  then show ?thesis
    using assms that(1) by (auto simp: add_memblock_def split: if_splits)
next
  case free: True
  show ?thesis
  proof (cases "alloc_memblock e nr")
    case None
    with free assms have "\<not> ok" "s' = s" by (auto simp: add_memblock_def)
    with free that(2) show ?thesis by blast
  next
    case (Some mb)
    obtain st mb' where st: "set_memblock e mb = (st, mb')" by (cases "set_memblock e mb")
    have n: "buffer mb \<noteq> 0"
      using Some by (auto simp: alloc_memblock_def Let_def split: if_splits)
    have b: "buffer mb' = buffer mb"
      using st by (auto simp: set_memblock_def Let_def split: if_splits)
    show ?thesis
    proof (cases st)
      case False
      with free Some st assms have "\<not> ok" "s' = s" by (auto simp: add_memblock_def)
      with free that(2) show ?thesis by blast
    next
      case True
      with free Some st assms have ok: "ok"
        and s': "s' = s\<lparr>memblock_list := memblock_list s @ [nr], memblocks := (memblocks s)[nr := Some mb']\<rparr>"
        by (auto simp: add_memblock_def)
      have "block_ok nr mb'" "buffer mb' = mmap_ret e"
        using alloc_set_memblock [OF Some] st True by auto
      then show ?thesis using free ok s' n b by (intro that(3)) auto
    qed
  qed
qed

lemma add_memblock_ok:
  assumes "add_memblock e nr s = Inr (ok, s')" "blocks_ok s"
  shows "blocks_ok s'"
  using assms(1)
proof (cases rule: add_memblock_cases)
  case (3 mb)
  with assms(2) show ?thesis
    by (auto simp: blocks_ok_def nth_list_update split: if_splits)
qed (use assms(2) in simp_all)

lemma add_memblock_keeps:
  assumes "add_memblock e nr s = Inr (ok, s')" "memblocks s ! i = Some mb"
  shows "memblocks s' ! i = Some mb"
  using assms(1)
proof (cases rule: add_memblock_cases)
  case (3 mb')
  with assms(2) show ?thesis by (cases "i = nr") simp_all
qed (use assms(2) in simp_all)

lemma add_memblock_present:
  "add_memblock e nr s = Inr (True, s') \<Longrightarrow> \<exists>mb. memblocks s' ! nr = Some mb"
  by (erule add_memblock_cases) auto

section \<open>The table's main property\<close>

text \<open>
  Adding a block keeps the table well formed: every block carries its own number, is registered
  with its own memory, and the list names each present block once. Blocks already there stay
  where they are. When the call succeeds the block is present; when it fails (no memory, no
  registration) nothing has changed.
\<close>

theorem add_memblock_table:
  assumes "add_memblock e nr s = Inr (ok, s')" "blocks_ok s"
  shows "blocks_ok s' \<and> nr < MAX_MEMBLOCK
    \<and> (\<forall>i mb. memblocks s ! i = Some mb \<longrightarrow> memblocks s' ! i = Some mb)
    \<and> (if ok then \<exists>mb. memblocks s' ! nr = Some mb \<and> block_ok nr mb else s' = s)"
proof -
  have len: "length (memblocks s) = MAX_MEMBLOCK" using assms(2) by (simp add: blocks_ok_def)
  have ok': "blocks_ok s'" using add_memblock_ok [OF assms] .
  have nr: "nr < MAX_MEMBLOCK" using assms(1) len by (auto simp: add_memblock_def split: if_splits)
  have "\<exists>mb. memblocks s' ! nr = Some mb \<and> block_ok nr mb" if ok
    using add_memblock_present [of e nr s s'] assms(1) that ok' nr by (auto simp: blocks_ok_def)
  moreover have "s' = s" if "\<not> ok" using add_memblock_cases [OF assms(1)] that by metis
  ultimately show ?thesis using ok' nr add_memblock_keeps [OF assms(1)] by simp
qed

definition ex_blocks :: blocks_state where
  "ex_blocks = \<lparr>memblocks = replicate MAX_MEMBLOCK None, memblock_list = []\<rparr>"

theorem add_memblock_table_witness:
  "\<exists>s'. add_memblock \<lparr>malloc_ok = True, mmap_ret = 0x40000000, reg_ret = Some (1, 2, 3)\<rparr> 5 ex_blocks =
     Inr (True, s') \<and> blocks_ok s'"
proof -
  have "\<exists>s'. add_memblock \<lparr>malloc_ok = True, mmap_ret = 0x40000000, reg_ret = Some (1, 2, 3)\<rparr> 5 ex_blocks =
     Inr (True, s')"
    by (simp add: add_memblock_def ex_blocks_def MAX_MEMBLOCK_def alloc_memblock_def set_memblock_def
        ibv_reg_mr_def)
  moreover have "blocks_ok ex_blocks" by (simp add: blocks_ok_def ex_blocks_def)
  ultimately show ?thesis using add_memblock_table by blast
qed

end
