(* ===== verification/Server.thy ===== *)
theory Server
  imports Memblock Verbs Atomic Wire
begin

text \<open>
  The request handlers of the far-memory server (\<open>lib/handler.c\<close>).

  \<open>server\<close> joins what the two handlers of one connection keep: the block table, byte memory,
  the counter of pages copied since the last commit, the list of received pages, the receive
  work requests by address, the two receive queues, and the replies sent. Received pages wait
  in a work request; \<open>ib_convey_page\<close> copies one to its place in a block. The commit list is
  the HOL list its circular list implements (see \<open>List_Head\<close>). Lock operations count, so a
  lock released twice shows.

  Every handler ignores what \<open>__ib_rdma_send\<close> returns; a send appends to \<open>replies\<close>. What the
  allocation of block \<open>nr\<close> meets is \<open>env nr\<close>. While a commit waits for its pages the
  multicast thread goes on: the completions it processes meanwhile are a list argument.
\<close>

unbundle bit_operations_syntax

section \<open>State\<close>

record recv_work =
  rw_id :: u64
  rw_buffer :: addr
  rw_wc :: wc
  rw_convey :: bool

datatype reply =
    Open_Info u64 u32   \<comment> \<open>address and key of a block\<close>
  | Page_Data page
  | Ack                 \<comment> \<open>one byte over the connection of the requester\<close>
  | Multicast_Ack       \<comment> \<open>one byte to the multicast group\<close>

record server = blocks_state +
  smem :: memory
  batch :: atomic_t
  commit_list :: "addr list"
  works :: "addr \<Rightarrow> recv_work"
  multicast_rq :: "addr list"
  rdma_rq :: "addr list"
  replies :: "(u32 \<times> reply) list"
  spin :: int
  mutex :: int

definition UD_EXTRA :: u64 where "UD_EXTRA = 40"
definition SERVER_BATCH :: u32 where "SERVER_BATCH = 2 ^ 9"

definition send_reply :: "u32 \<Rightarrow> reply \<Rightarrow> server \<Rightarrow> server" where
  "send_reply imm r s = s\<lparr>replies := replies s @ [(imm, r)]\<rparr>"

definition spin_lock :: "server \<Rightarrow> server" where "spin_lock s = s\<lparr>spin := spin s + 1\<rparr>"
definition spin_unlock :: "server \<Rightarrow> server" where "spin_unlock s = s\<lparr>spin := spin s - 1\<rparr>"
definition mutex_lock :: "server \<Rightarrow> server" where "mutex_lock s = s\<lparr>mutex := mutex s + 1\<rparr>"
definition mutex_unlock :: "server \<Rightarrow> server" where "mutex_unlock s = s\<lparr>mutex := mutex s - 1\<rparr>"

lemmas lock_defs = spin_lock_def spin_unlock_def mutex_lock_def mutex_unlock_def

definition upd_work :: "addr \<Rightarrow> (recv_work \<Rightarrow> recv_work) \<Rightarrow> server \<Rightarrow> server" where
  "upd_work rw f s = s\<lparr>works := (works s)(rw := f (works s rw))\<rparr>"

section \<open>Copying a page into its block\<close>

text \<open>Where page number \<open>offset\<close> of block \<open>mb\<close> lives; the shift is on 32 bits.\<close>

definition page_addr :: "memblock \<Rightarrow> u32 \<Rightarrow> addr" where
  "page_addr mb offset = buffer mb + ucast (push_bit 12 offset)"

definition convey_into :: "memblock \<Rightarrow> u32 \<Rightarrow> wc \<Rightarrow> server \<Rightarrow> server" where
  "convey_into mb offset w s =
     (let rw = wr_id w;
          src_buffer = rw_buffer (works s rw) + UD_EXTRA;
          dst_buffer = page_addr mb offset;
          s' = upd_work rw (\<lambda>r. r\<lparr>rw_convey := True\<rparr>)
                 (s\<lparr>smem := memcpy (smem s) dst_buffer src_buffer PAGE_SIZE\<rparr>)
      in s'\<lparr>batch := atomic_inc (batch s')\<rparr>)"

definition ib_convey_page :: "(nat \<Rightarrow> block_env) \<Rightarrow> wc \<Rightarrow> server \<Rightarrow> (bool \<times> server) result" where
  "ib_convey_page env w s =
     (case interpret_header (imm_data w) of
        None \<Rightarrow> Inr (False, s)
      | Some (opcode, nr_block, offset) \<Rightarrow>
          let nr = unat nr_block in
          if \<not> nr < length (memblocks s) then Inl Out_Of_Bounds
          else
            rbind (if memblocks s ! nr = None then add_memblock (env nr) nr s else Inr (True, s))
              (\<lambda>(ok, s').
                if \<not> ok then Inr (False, s')
                else (case memblocks s' ! nr of
                        None \<Rightarrow> Inl Null_Pointer
                      | Some mb \<Rightarrow> Inr (True, convey_into mb offset w s'))))"

section \<open>Multicast requests\<close>

text \<open>A page: file the completion in its work request, add it to the commit list, copy it.\<close>

definition process_multicast_flow :: "(nat \<Rightarrow> block_env) \<Rightarrow> wc \<Rightarrow> server \<Rightarrow> server result" where
  "process_multicast_flow env w s =
     (let rw = wr_id w;
          s1 = upd_work rw (\<lambda>r. r\<lparr>rw_wc := w\<rparr>) s;
          s2 = s1\<lparr>commit_list := rw # commit_list s1\<rparr>;
          s3 = spin_lock s2
      in if \<not> rw_convey (works s3 rw)
         then rbind (ib_convey_page env w s3) (\<lambda>(_, s4). Inr (spin_unlock s4))
         else Inr (spin_unlock s3))"

fun convey_all :: "(nat \<Rightarrow> block_env) \<Rightarrow> addr list \<Rightarrow> server \<Rightarrow> server result" where
  "convey_all env [] s = Inr s"
| "convey_all env (rw # rws) s =
     rbind (ib_convey_page env (rw_wc (works s rw)) s)
       (\<lambda>(ok, s'). if \<not> ok then Inr s' else convey_all env rws s')"

definition del_and_putback :: "addr \<Rightarrow> server \<Rightarrow> server" where
  "del_and_putback rw s =
     s\<lparr>commit_list := remove1 rw (commit_list s),
       multicast_rq := multicast_rq s @ [wr_id (rw_wc (works s rw))]\<rparr>"

text \<open>A multicast commit copies every listed page (again), answers, and empties the list.\<close>

definition process_multicast_commit :: "(nat \<Rightarrow> block_env) \<Rightarrow> wc \<Rightarrow> server \<Rightarrow> server result" where
  "process_multicast_commit env w s =
     (if commit_list s = [] then Inr (send_reply (imm_data w) Ack s)
      else
        rbind (convey_all env (commit_list s) s) (\<lambda>s1.
          let s2 = send_reply (imm_data w) Multicast_Ack s1
          in Inr (fold del_and_putback (commit_list s2) s2)))"

definition process_multicast_completion :: "(nat \<Rightarrow> block_env) \<Rightarrow> wc \<Rightarrow> server \<Rightarrow> server result" where
  "process_multicast_completion env w s =
     (let opcode = ib_get_opcode (imm_data w) in
      if opcode = MULTICAST_OPCODE_FLOW then process_multicast_flow env w s
      else if opcode = MULTICAST_OPCODE_CHECK then Inr s
      else if opcode = MULTICAST_OPCODE_COMMIT then process_multicast_commit env w s
      else Inr s)"

text \<open>
  One pass of the worker \<open>process_multicast_memory_work\<close> over its list of filed completions;
  \<open>free\<close> is whether \<open>pthread_spin_trylock\<close> got the lock.
\<close>

fun process_works :: "(nat \<Rightarrow> block_env) \<Rightarrow> addr list \<Rightarrow> server \<Rightarrow> server result" where
  "process_works env [] s = Inr s"
| "process_works env (rw # rws) s =
     rbind (process_multicast_completion env (rw_wc (works s rw)) s) (process_works env rws)"

definition process_multicast_memory_work ::
  "(nat \<Rightarrow> block_env) \<Rightarrow> bool \<Rightarrow> addr list \<Rightarrow> server \<Rightarrow> (addr list \<times> server) result" where
  "process_multicast_memory_work env free work_list s =
     (if free then rbind (process_works env work_list s) (\<lambda>s'. Inr ([], s'))
      else Inr (work_list, s))"

section \<open>RDMA requests\<close>

text \<open>An open: make sure the block exists, answer with its address and key.\<close>

definition process_rpc_open :: "(nat \<Rightarrow> block_env) \<Rightarrow> wc \<Rightarrow> server \<Rightarrow> server result" where
  "process_rpc_open env w s =
     (let s1 = mutex_lock s in
      case interpret_header (imm_data w) of
        None \<Rightarrow> Inr s1
      | Some (opcode, nr_block, offset) \<Rightarrow>
          let nr = unat nr_block in
          if \<not> nr < length (memblocks s1) then Inl Out_Of_Bounds
          else
            rbind (if memblocks s1 ! nr = None then add_memblock (env nr) nr s1 else Inr (True, s1))
              (\<lambda>(_, s2).
                case memblocks s2 ! nr of
                  None \<Rightarrow> Inl Null_Pointer
                | Some mb \<Rightarrow>
                    (case block_mr mb of
                       None \<Rightarrow> Inl Null_Pointer
                     | Some m \<Rightarrow>
                         Inr (mutex_unlock
                           (send_reply (imm_data w) (Open_Info (mr_addr m) (mr_rkey m)) s2)))))"

text \<open>
  A commit waits until enough pages have been copied: the count it names for a qcommit
  (compared unsigned), the batch size otherwise (compared signed). Meanwhile the multicast
  thread processes \<open>arrivals\<close>.
\<close>

definition enough_pages :: "u32 \<Rightarrow> server \<Rightarrow> bool" where
  "enough_pages imm s \<longleftrightarrow>
     (if commit_is_q imm then \<not> atomic_read (batch s) < commit_count imm
      else \<not> sint (atomic_read (batch s)) < sint SERVER_BATCH)"

fun wait_pages :: "(nat \<Rightarrow> block_env) \<Rightarrow> u32 \<Rightarrow> wc list \<Rightarrow> server \<Rightarrow> (wc list \<times> server) result" where
  "wait_pages env imm [] s = (if enough_pages imm s then Inr ([], s) else Inl Spinning)"
| "wait_pages env imm (w # ws) s =
     (if enough_pages imm s then Inr (w # ws, s)
      else rbind (process_multicast_completion env w s) (wait_pages env imm ws))"

text \<open>
  The first pass copies what is not copied yet, and stops at a failure after releasing the
  lock; the second pass makes every listed work request ready for the next page.
\<close>

fun convey_pending :: "(nat \<Rightarrow> block_env) \<Rightarrow> addr list \<Rightarrow> server \<Rightarrow> server result" where
  "convey_pending env [] s = Inr s"
| "convey_pending env (rw # rws) s =
     (if \<not> rw_convey (works s rw)
      then rbind (ib_convey_page env (rw_wc (works s rw)) s)
             (\<lambda>(ok, s'). if \<not> ok then Inr (spin_unlock s') else convey_pending env rws s')
      else convey_pending env rws s)"

definition release_work :: "addr \<Rightarrow> server \<Rightarrow> server" where
  "release_work rw s =
     del_and_putback rw (upd_work rw (\<lambda>r. r\<lparr>rw_convey := False\<rparr>) s)"

definition process_rpc_commit ::
  "(nat \<Rightarrow> block_env) \<Rightarrow> wc list \<Rightarrow> wc \<Rightarrow> server \<Rightarrow> (wc list \<times> server) result" where
  "process_rpc_commit env arrivals w s =
     (if commit_list s = [] then Inr (arrivals, send_reply (imm_data w) Ack s)
      else
        rbind (wait_pages env (imm_data w) arrivals s) (\<lambda>(rest, s1).
        rbind (convey_pending env (commit_list s1) (spin_lock s1)) (\<lambda>s2.
          let s3 = fold release_work (commit_list s2) s2;
              s4 = spin_unlock (s3\<lparr>batch := atomic_set (batch s3) 0\<rparr>)
          in Inr (rest, send_reply (imm_data w) Ack s4))))"

text \<open>
  A get searches the commit list for a page whose 28-bit offset equals the requested page
  number, over and over; the last match is sent.
\<close>

definition find_page :: "u32 \<Rightarrow> server \<Rightarrow> page option" where
  "find_page offset s =
     fold (\<lambda>rw found.
       if imm_data (rw_wc (works s rw)) AND 0xfffffff = offset
       then Some (page_at (smem s) (rw_buffer (works s rw) + UD_EXTRA)) else found)
       (commit_list s) None"

fun get_page_loop ::
  "(nat \<Rightarrow> block_env) \<Rightarrow> u32 \<Rightarrow> wc list \<Rightarrow> server \<Rightarrow> (page \<times> wc list \<times> server) result" where
  "get_page_loop env offset [] s =
     (case find_page offset s of Some p \<Rightarrow> Inr (p, [], s) | None \<Rightarrow> Inl Spinning)"
| "get_page_loop env offset (w # ws) s =
     (case find_page offset s of
        Some p \<Rightarrow> Inr (p, w # ws, s)
      | None \<Rightarrow> rbind (process_multicast_completion env w s) (get_page_loop env offset ws))"

definition process_rpc_get_page ::
  "(nat \<Rightarrow> block_env) \<Rightarrow> wc list \<Rightarrow> wc \<Rightarrow> server \<Rightarrow> (wc list \<times> server) result" where
  "process_rpc_get_page env arrivals w s =
     (case interpret_header (imm_data w) of
        None \<Rightarrow> Inr (arrivals, s)
      | Some (opcode, nr_block, offset) \<Rightarrow>
          rbind (get_page_loop env offset arrivals s)
            (\<lambda>(p, rest, s'). Inr (rest, send_reply (imm_data w) (Page_Data p) s')))"

definition process_rdma_completion ::
  "(nat \<Rightarrow> block_env) \<Rightarrow> wc list \<Rightarrow> wc \<Rightarrow> server \<Rightarrow> (wc list \<times> server) result" where
  "process_rdma_completion env arrivals w s =
     (let opcode = ib_get_opcode (imm_data w) in
      if opcode = RDMA_OPCODE_OPEN then rbind (process_rpc_open env w s) (\<lambda>s'. Inr (arrivals, s'))
      else if opcode = RDMA_OPCODE_CLOSE then Inr (arrivals, s)
      else if opcode = RDMA_OPCODE_TRANSITION then Inr (arrivals, s)
      else if opcode = RDMA_OPCODE_CHECK then Inr (arrivals, s)
      else if opcode = RDMA_OPCODE_COMMIT \<or> opcode = RDMA_OPCODE_QCOMMIT
        then process_rpc_commit env arrivals w s
      else if opcode = RDMA_OPCODE_GET then process_rpc_get_page env arrivals w s
      else Inr (arrivals, s))"

section \<open>The two threads\<close>

text \<open>
  The multicast thread polls until it is told to stop, a poll fails, or a completion has
  failed; the result says whether it is still running.
\<close>

fun multicast_memory_thread ::
  "(nat \<Rightarrow> block_env) \<Rightarrow> poll list \<Rightarrow> server \<Rightarrow> (bool \<times> server) result" where
  "multicast_memory_thread env [] s = Inr (True, s)"
| "multicast_memory_thread env (p # ps) s =
     (case p of
        Poll_Empty \<Rightarrow> multicast_memory_thread env ps s
      | Poll_Error \<Rightarrow> Inr (False, s)
      | Poll_Wc w \<Rightarrow>
          if \<not> wc_ok w then Inr (False, s)
          else rbind (process_multicast_completion env w s) (multicast_memory_thread env ps))"

text \<open>The RDMA thread also gives each request's receive buffer back.\<close>

fun rdma_memory_thread ::
  "(nat \<Rightarrow> block_env) \<Rightarrow> wc list \<Rightarrow> poll list \<Rightarrow> server \<Rightarrow> (bool \<times> wc list \<times> server) result" where
  "rdma_memory_thread env arrivals [] s = Inr (True, arrivals, s)"
| "rdma_memory_thread env arrivals (p # ps) s =
     (case p of
        Poll_Empty \<Rightarrow> rdma_memory_thread env arrivals ps s
      | Poll_Error \<Rightarrow> Inr (False, arrivals, s)
      | Poll_Wc w \<Rightarrow>
          if \<not> wc_ok w then Inr (False, arrivals, s)
          else rbind (process_rdma_completion env arrivals w s) (\<lambda>(rest, s').
                 rdma_memory_thread env rest ps (s'\<lparr>rdma_rq := rdma_rq s' @ [wr_id w]\<rparr>)))"

end
