(* ===== verification/Far_Memory.thy ===== *)
theory Far_Memory
  imports Server Page_Store
begin

text \<open>
  What the server's handlers amount to: far memory as a map from page numbers to pages.

  \<open>far\<close> reads the page kept for a 28-bit page number out of the blocks; \<open>deliver\<close> is the
  adapter writing an incoming packet into the first posted receive. \<open>layout\<close> states what
  the server relies on of \<open>mmap\<close>: blocks and receive buffers do not overlap. The invariant
  \<open>server_ok\<close> says that the block table is well formed and that every receive work request
  is either on the commit list or posted, once. The lemmas show that a delivered page is
  readable afterwards and disturbs no other page, and that a commit posts every listed work
  request again.
\<close>

unbundle bit_operations_syntax

section \<open>Pages of a block\<close>

definition in_block :: "addr \<Rightarrow> addr \<Rightarrow> bool" where
  "in_block base x \<longleftrightarrow> x - base < MEMBLOCK_SIZE"

lemma unat_page_offset: "(o' :: u32) < 2 ^ 18 \<Longrightarrow> unat (push_bit 12 o') = unat o' * 4096"
proof -
  assume h: "o' < 2 ^ 18"
  have "unat o' < 2 ^ 18" using h by (simp add: word_less_nat_alt)
  then have "unat o' * 2 ^ 12 < 2 ^ LENGTH(32)" by simp
  then show ?thesis
    by (simp add: push_bit_eq_mult unat_mult_lem [THEN iffD1] unat_word_ariths mult.commute)
qed

lemma page_window:
  assumes "o' < 2 ^ 18"
  shows "unat (page_addr mb o' + ucast (i :: 12 word) - buffer mb) = unat o' * 4096 + unat i"
proof -
  have o: "unat o' < 2 ^ 18" using assms by (simp add: word_less_nat_alt)
  have i: "unat i < 4096" using unsigned_less [of i] by simp
  have u: "unat (ucast (push_bit 12 o') :: u64) = unat o' * 4096"
    using o by (simp add: unat_page_offset [OF assms] unsigned_ucast_eq take_bit_nat_eq_self)
  have v: "unat (ucast i :: u64) = unat i"
    using i by (simp add: unsigned_ucast_eq take_bit_nat_eq_self)
  have "page_addr mb o' + ucast i - buffer mb = ucast (push_bit 12 o') + ucast i"
    by (simp add: page_addr_def)
  moreover have "unat (ucast (push_bit 12 o') + ucast i :: u64) = unat o' * 4096 + unat i"
    using o i u v by (simp add: unat_word_ariths)
  ultimately show ?thesis by (simp only:)
qed

lemma page_in_block:
  assumes "o' < 2 ^ 18"
  shows "in_block (buffer mb) (page_addr mb o' + ucast (i :: 12 word))"
proof -
  have o: "unat o' < 2 ^ 18" using assms by (simp add: word_less_nat_alt)
  have i: "unat i < 4096" using unsigned_less [of i] by simp
  have "unat o' * 4096 + unat i < 2 ^ 30" using o i by simp
  then show ?thesis
    by (simp add: in_block_def MEMBLOCK_SIZE_def word_less_nat_alt page_window [OF assms])
qed

lemma pages_apart_same:
  assumes "o' < 2 ^ 18" "o'' < 2 ^ 18" "o' \<noteq> o''"
  shows "apart (page_addr mb o') (page_addr mb o'')"
  unfolding apart_def
proof (intro allI notI)
  fix i j :: "12 word"
  assume eq: "page_addr mb o' + ucast i = page_addr mb o'' + ucast j"
  have split: "unat x = (unat x * 4096 + unat k) div 4096" for x :: u32 and k :: "12 word"
  proof -
    have "unat k < 4096" using unsigned_less [of k] by simp
    then show ?thesis by simp
  qed
  have "unat o' * 4096 + unat i = unat o'' * 4096 + unat j"
    using page_window [OF assms(1), of mb i] page_window [OF assms(2), of mb j]
    unfolding eq by (rule box_equals [OF refl])
  then have "unat o' = unat o''"
    using split [of o' i] split [of o'' j] by (simp only:)
  with assms(3) show False by (simp add: word_unat_eq_iff)
qed

text \<open>A 28-bit page number is its block and its page in the block.\<close>

lemma page_number_eqI:
  assumes "off < (2 ^ 28 :: u32)" "off' < 2 ^ 28"
    and "get_num_memblock off = get_num_memblock off'" "off AND 0x3ffff = off' AND 0x3ffff"
  shows "off = off'"
proof (rule bit_word_eqI)
  fix n assume "n < LENGTH(32)"
  have hi: "bit (drop_bit 18 off AND mask 10) m = bit (drop_bit 18 off' AND mask 10) m"
    and lo: "bit (off AND mask 18) m = bit (off' AND mask 18) m" for m
    using assms(3,4) by (simp_all add: get_num_memblock_def mask_words)
  show "bit off n = bit off' n"
  proof (cases "n < 18")
    case True
    then show ?thesis using lo [of n] by (auto simp: bit_simps)
  next
    case ge: False
    show ?thesis
    proof (cases "n < 28")
      case True
      then show ?thesis using hi [of "n - 18"] ge by (auto simp: bit_simps)
    next
      case False
      then show ?thesis
        using small_word_bits [OF assms(1), of n] small_word_bits [OF assms(2), of n] by auto
    qed
  qed
qed

lemma low_page_less: "off AND 0x3ffff < (2 ^ 18 :: u32)"
  unfolding mask_words by (rule and_mask_less') simp

section \<open>Far memory\<close>

definition far_page :: "server \<Rightarrow> nat \<Rightarrow> u32 \<Rightarrow> page option" where
  "far_page s nr offset =
     (case memblocks s ! nr of
        None \<Rightarrow> None
      | Some mb \<Rightarrow> Some (page_at (smem s) (page_addr mb offset)))"

definition far :: "server \<Rightarrow> u32 \<Rightarrow> page option" where
  "far s off =
     (if off < 2 ^ 28 \<and> unat (get_num_memblock off) < MAX_MEMBLOCK
      then far_page s (unat (get_num_memblock off)) (off AND 0x3ffff) else None)"

text \<open>The adapter takes the first posted receive and writes the packet behind its header room.\<close>

definition deliver :: "u32 \<Rightarrow> page \<Rightarrow> server \<Rightarrow> (wc \<times> server) option" where
  "deliver imm p s =
     (case multicast_rq s of
        [] \<Rightarrow> None
      | rw # rest \<Rightarrow>
          Some (\<lparr>wr_id = rw, imm_data = imm, wc_ok = True\<rparr>,
            s\<lparr>multicast_rq := rest,
              smem := put_page (smem s) (rw_buffer (works s rw) + UD_EXTRA) p\<rparr>))"

text \<open>Blocks and the page windows of the receive buffers occupy disjoint memory.\<close>

definition layout :: "(nat \<Rightarrow> block_env) \<Rightarrow> addr set \<Rightarrow> (addr \<Rightarrow> addr) \<Rightarrow> bool" where
  "layout env W bufs \<longleftrightarrow>
     (\<forall>n < MAX_MEMBLOCK. \<forall>m < MAX_MEMBLOCK. \<forall>x.
        n \<noteq> m \<longrightarrow> in_block (mmap_ret (env n)) x \<longrightarrow> \<not> in_block (mmap_ret (env m)) x)
     \<and> (\<forall>rw \<in> W. \<forall>n < MAX_MEMBLOCK. \<forall>i :: 12 word.
          \<not> in_block (mmap_ret (env n)) (bufs rw + UD_EXTRA + ucast i))
     \<and> (\<forall>rw \<in> W. \<forall>rw' \<in> W. rw \<noteq> rw' \<longrightarrow> apart (bufs rw + UD_EXTRA) (bufs rw' + UD_EXTRA))"

definition server_ok :: "(nat \<Rightarrow> block_env) \<Rightarrow> addr set \<Rightarrow> (addr \<Rightarrow> addr) \<Rightarrow> server \<Rightarrow> bool" where
  "server_ok env W bufs s \<longleftrightarrow>
     blocks_ok s
     \<and> (\<forall>nr < MAX_MEMBLOCK. \<forall>mb. memblocks s ! nr = Some mb \<longrightarrow> buffer mb = mmap_ret (env nr))
     \<and> distinct (commit_list s @ multicast_rq s) \<and> set (commit_list s @ multicast_rq s) = W
     \<and> (\<forall>rw \<in> W. rw_buffer (works s rw) = bufs rw)
     \<and> (\<forall>rw \<in> set (multicast_rq s). \<not> rw_convey (works s rw))
     \<and> (\<forall>rw \<in> set (commit_list s). wr_id (rw_wc (works s rw)) = rw)"

text \<open>Every listed page is in its block already.\<close>

definition all_copied :: "server \<Rightarrow> bool" where
  "all_copied s \<longleftrightarrow> (\<forall>rw \<in> set (commit_list s). rw_convey (works s rw))"


section \<open>Disjointness\<close>

lemma layout_blocks:
  assumes "layout env W bufs" "n \<noteq> m" "buffer mb = mmap_ret (env n)" "buffer mb' = mmap_ret (env m)"
    and "o' < 2 ^ 18" "o'' < 2 ^ 18" "n < MAX_MEMBLOCK" "m < MAX_MEMBLOCK"
  shows "apart (page_addr mb o') (page_addr mb' o'')"
  unfolding apart_def
proof (intro allI notI)
  fix i j :: "12 word"
  assume "page_addr mb o' + ucast i = page_addr mb' o'' + ucast j"
  then have "in_block (mmap_ret (env n)) (page_addr mb o' + ucast i)"
    "in_block (mmap_ret (env m)) (page_addr mb o' + ucast i)"
    using page_in_block [OF assms(5), of mb i] page_in_block [OF assms(6), of mb' j] assms(3,4)
    by simp_all
  then show False using assms(1,2,7,8) unfolding layout_def by blast
qed

lemma layout_buffer:
  assumes "layout env W bufs" "rw \<in> W" "buffer mb = mmap_ret (env n)" "o' < 2 ^ 18" "n < MAX_MEMBLOCK"
  shows "apart (bufs rw + UD_EXTRA) (page_addr mb o')"
  unfolding apart_def
proof (intro allI notI)
  fix i j :: "12 word"
  assume "bufs rw + UD_EXTRA + ucast i = page_addr mb o' + ucast j"
  then have "in_block (mmap_ret (env n)) (bufs rw + UD_EXTRA + ucast i)"
    using page_in_block [OF assms(4), of mb j] assms(3) by simp
  then show False using assms(1,2,5) unfolding layout_def by blast
qed

section \<open>Copying one page\<close>

lemma convey_into_simps [simp]:
  "memblocks (convey_into mb offset w s) = memblocks s"
  "memblock_list (convey_into mb offset w s) = memblock_list s"
  "commit_list (convey_into mb offset w s) = commit_list s"
  "multicast_rq (convey_into mb offset w s) = multicast_rq s"
  "rdma_rq (convey_into mb offset w s) = rdma_rq s"
  "replies (convey_into mb offset w s) = replies s"
  "spin (convey_into mb offset w s) = spin s"
  "mutex (convey_into mb offset w s) = mutex s"
  "batch (convey_into mb offset w s) = atomic_inc (batch s)"
  "works (convey_into mb offset w s) = (works s)(wr_id w := (works s (wr_id w))\<lparr>rw_convey := True\<rparr>)"
  "smem (convey_into mb offset w s) =
     memcpy (smem s) (page_addr mb offset) (rw_buffer (works s (wr_id w)) + UD_EXTRA) PAGE_SIZE"
  by (simp_all add: convey_into_def Let_def upd_work_def)

lemma far_page_convey_into:
  assumes "memblocks s ! nr = Some mb" "offset < 2 ^ 18"
  shows "far_page (convey_into mb offset w s) nr offset =
    Some (page_at (smem s) (rw_buffer (works s (wr_id w)) + UD_EXTRA))"
  using assms by (simp add: far_page_def)

lemma far_page_convey_other:
  assumes "layout env W bufs" "server_ok env W bufs s"
    and "memblocks s ! nr = Some mb" "nr < MAX_MEMBLOCK" "offset < 2 ^ 18"
    and "n < MAX_MEMBLOCK" "o' < 2 ^ 18" "(n, o') \<noteq> (nr, offset)"
  shows "far_page (convey_into mb offset w s) n o' = far_page s n o'"
proof (cases "memblocks s ! n")
  case None
  then show ?thesis by (simp add: far_page_def)
next
  case (Some mb')
  have b: "buffer mb = mmap_ret (env nr)" "buffer mb' = mmap_ret (env n)"
    using assms(2-4,6) Some unfolding server_ok_def by blast+
  have "apart (page_addr mb offset) (page_addr mb' o')"
  proof (cases "n = nr")
    case True
    then have "mb' = mb" "o' \<noteq> offset" using Some assms(3,8) by auto
    with assms(5,7) show ?thesis by (simp add: pages_apart_same)
  next
    case False
    then show ?thesis using layout_blocks [OF assms(1) _ b assms(5,7,4,6)] by auto
  qed
  then show ?thesis using Some by (simp add: far_page_def page_at_memcpy_apart)
qed

text \<open>Allocating a block keeps the table's part of the invariant and every page.\<close>

lemma add_memblock_server_ok:
  assumes "add_memblock (env nr) nr s = Inr (ok, s')" "server_ok env W bufs s" "nr < MAX_MEMBLOCK"
  shows "server_ok env W bufs s'"
  using assms(1)
proof (cases rule: add_memblock_cases)
  case (3 mb)
  have "blocks_ok s'" using add_memblock_ok [OF assms(1)] assms(2) by (simp add: server_ok_def)
  then show ?thesis
    using 3 assms(2,3) by (auto simp: server_ok_def nth_list_update blocks_ok_def split: if_splits)
qed (use assms(2) in simp_all)

lemma add_memblock_frame:
  assumes "add_memblock e nr (s :: server) = Inr (ok, s')"
  shows "smem s' = smem s" "commit_list s' = commit_list s" "multicast_rq s' = multicast_rq s"
    "works s' = works s" "batch s' = batch s" "replies s' = replies s" "spin s' = spin s"
    "mutex s' = mutex s" "rdma_rq s' = rdma_rq s"
  by (use assms in \<open>cases rule: add_memblock_cases; simp\<close>)+

lemma add_memblock_far_page:
  assumes "add_memblock e nr (s :: server) = Inr (ok, s')" "far_page s n o' = Some p"
  shows "far_page s' n o' = Some p"
proof -
  obtain mb where mb: "memblocks s ! n = Some mb"
    using assms(2) by (auto simp: far_page_def split: option.splits)
  then show ?thesis
    using add_memblock_keeps [OF assms(1) mb] assms(2)
    by (simp add: far_page_def add_memblock_frame(1) [OF assms(1)])
qed


section \<open>\<open>ib_convey_page\<close>\<close>

lemma flow_block_less: "unat (get_num_memblock off) < 1024"
proof -
  have "get_num_memblock off < 2 ^ 10"
    unfolding get_num_memblock_def mask_words by (rule and_mask_less') simp
  then show ?thesis by (simp add: word_less_nat_alt)
qed

text \<open>The copy either fails and changes nothing, or copies into the block, allocated if need be.\<close>

lemma ib_convey_page_cases:
  assumes "ib_convey_page env w s = Inr (ok, s')" "server_ok env W bufs s"
  obtains "\<not> ok" "s' = s"
    | opc nr offset s1 mb where "ok" "interpret_header (imm_data w) = Some (opc, nr, offset)"
        "unat nr < MAX_MEMBLOCK" "offset < 2 ^ 18" "memblocks s1 ! unat nr = Some mb"
        "s1 = s \<or> add_memblock (env (unat nr)) (unat nr) s = Inr (True, s1)"
        "s' = convey_into mb offset w s1"
proof -
  obtain opc nr offset where ih: "interpret_header (imm_data w) = Some (opc, nr, offset)"
      "offset < 2 ^ 18"
    by (metis interpret_header_eq low_page_less)
  have len: "length (memblocks s) = MAX_MEMBLOCK"
    using assms(2) by (simp add: server_ok_def blocks_ok_def)
  show ?thesis
  proof (cases "memblocks s ! unat nr")
    case (Some mb)
    with assms(1) ih len have "unat nr < MAX_MEMBLOCK" "ok" "s' = convey_into mb offset w s"
      by (auto simp: ib_convey_page_def Let_def split: if_splits)
    with Some ih that(2) show ?thesis by blast
  next
    case None
    with assms(1) ih len have nr: "unat nr < MAX_MEMBLOCK"
      and r: "rbind (add_memblock (env (unat nr)) (unat nr) s)
              (\<lambda>(ok, s').
                if \<not> ok then Inr (False, s')
                else (case memblocks s' ! unat nr of
                        None \<Rightarrow> Inl Null_Pointer
                      | Some mb \<Rightarrow> Inr (True, convey_into mb offset w s'))) = Inr (ok, s')"
      by (auto simp: ib_convey_page_def Let_def split: if_splits)
    then obtain b s1 where add: "add_memblock (env (unat nr)) (unat nr) s = Inr (b, s1)"
      by (auto simp: rbind_Inr_iff)
    show ?thesis
    proof (cases b)
      case True
      then obtain mb where "memblocks s1 ! unat nr = Some mb" using add add_memblock_present by simp blast
      with True r add nr ih that(2) show ?thesis by auto
    next
      case False
      then have "s1 = s" using add by (auto elim: add_memblock_cases)
      with False r add that(1) show ?thesis by auto
    qed
  qed
qed

lemma server_ok_convey_into:
  assumes "server_ok env W bufs s" "wr_id w \<in> set (commit_list s)"
  shows "server_ok env W bufs (convey_into mb offset w s)"
proof -
  have "wr_id w \<notin> set (multicast_rq s)" using assms by (auto simp: server_ok_def)
  then show ?thesis using assms(1) by (auto simp: server_ok_def blocks_ok_def)
qed

lemma ib_convey_page_ok:
  assumes "ib_convey_page env w s = Inr (ok, s')" "server_ok env W bufs s"
    "wr_id w \<in> set (commit_list s)"
  shows "server_ok env W bufs s' \<and> commit_list s' = commit_list s \<and> multicast_rq s' = multicast_rq s
    \<and> replies s' = replies s \<and> spin s' = spin s
    \<and> works s' = (if ok then (works s)(wr_id w := (works s (wr_id w))\<lparr>rw_convey := True\<rparr>) else works s)"
  using assms(1,2)
proof (cases rule: ib_convey_page_cases [case_names failed copied])
  case (copied opc nr offset s1 mb)
  have fr: "commit_list s1 = commit_list s" "multicast_rq s1 = multicast_rq s" "replies s1 = replies s"
    "spin s1 = spin s" "works s1 = works s"
    using copied(6) add_memblock_frame by auto
  have "server_ok env W bufs s1"
    using copied(3,6) assms(2) add_memblock_server_ok by blast
  then have "server_ok env W bufs s'"
    using copied(7) assms(3) server_ok_convey_into fr(1) by simp
  then show ?thesis using copied(1,7) fr by simp
qed (use assms(2) in simp_all)

text \<open>A successful copy makes the page readable and disturbs no other.\<close>

lemma ib_convey_page_far:
  assumes "ib_convey_page env w s = Inr (True, s')" "server_ok env W bufs s" "layout env W bufs"
    and "imm_data w = flow_header off" "off < 2 ^ 28"
  shows "far s' off = Some (page_at (smem s) (rw_buffer (works s (wr_id w)) + UD_EXTRA))"
    and "k \<noteq> off \<Longrightarrow> far s k = Some p \<Longrightarrow> far s' k = Some p"
proof -
  obtain opc nr offset s1 mb where copied: "True"
      "interpret_header (imm_data w) = Some (opc, nr, offset)" "unat nr < MAX_MEMBLOCK"
      "offset < 2 ^ 18" "memblocks s1 ! unat nr = Some mb"
      "s1 = s \<or> add_memblock (env (unat nr)) (unat nr) s = Inr (True, s1)"
      "s' = convey_into mb offset w s1"
    using assms(1,2) by (rule ib_convey_page_cases) auto
  have hdr: "nr = get_num_memblock off" "offset = off AND 0x3ffff"
    using copied(2) assms(4) by (auto simp: header_simps)
  have fr: "smem s1 = smem s" "works s1 = works s"
    using copied(6) add_memblock_frame by auto
  have ok1: "server_ok env W bufs s1"
    using copied(3,6) assms(2) add_memblock_server_ok by blast
  show "far s' off = Some (page_at (smem s) (rw_buffer (works s (wr_id w)) + UD_EXTRA))"
    using copied(3,7) hdr assms(5) far_page_convey_into [OF copied(5,4)] by (simp add: far_def fr)
  show "far s' k = Some p" if k: "k \<noteq> off" "far s k = Some p"
  proof -
    let ?n = "unat (get_num_memblock k)" and ?o = "k AND 0x3ffff"
    have kk: "k < 2 ^ 28" "?n < MAX_MEMBLOCK" "far_page s ?n ?o = Some p"
      using k(2) by (auto simp: far_def split: if_splits)
    then have p1: "far_page s1 ?n ?o = Some p"
      using copied(6) add_memblock_far_page by blast
    have ne: "(?n, ?o) \<noteq> (unat nr, offset)"
      using k(1) page_number_eqI [OF kk(1) assms(5)] hdr by (auto simp: word_unat_eq_iff)
    have "far_page s' ?n ?o = far_page s1 ?n ?o"
      unfolding copied(7)
      by (rule far_page_convey_other [OF assms(3) ok1 copied(5,3,4) kk(2) low_page_less ne])
    then show ?thesis using p1 kk by (simp add: far_def)
  qed
qed


section \<open>A page arrives\<close>

text \<open>The state between delivery and the handler, with the work request filed and listed.\<close>

definition listed :: "wc \<Rightarrow> server \<Rightarrow> server" where
  "listed w s =
     spin_lock ((upd_work (wr_id w) (\<lambda>r. r\<lparr>rw_wc := w\<rparr>) s)\<lparr>commit_list := wr_id w # commit_list s\<rparr>)"

lemma listed_simps [simp]:
  "memblocks (listed w s) = memblocks s" "memblock_list (listed w s) = memblock_list s"
  "commit_list (listed w s) = wr_id w # commit_list s" "multicast_rq (listed w s) = multicast_rq s"
  "works (listed w s) = (works s)(wr_id w := (works s (wr_id w))\<lparr>rw_wc := w\<rparr>)"
  "smem (listed w s) = smem s" "replies (listed w s) = replies s" "spin (listed w s) = spin s + 1"
  "batch (listed w s) = batch s" "mutex (listed w s) = mutex s"
  by (simp_all add: listed_def lock_defs upd_work_def)

lemma process_multicast_flow_eq:
  "process_multicast_flow env w s =
     (if \<not> rw_convey (works s (wr_id w))
      then rbind (ib_convey_page env w (listed w s)) (\<lambda>(_, s'). Inr (spin_unlock s'))
      else Inr (spin_unlock (listed w s)))"
  by (simp add: process_multicast_flow_def Let_def listed_def upd_work_def lock_defs)

lemma server_ok_spin_unlock [simp]: "server_ok env W bufs (spin_unlock s) = server_ok env W bufs s"
  by (simp add: server_ok_def blocks_ok_def lock_defs)

lemma far_spin_unlock [simp]: "far (spin_unlock s) = far s"
  by (rule ext) (simp add: far_def far_page_def lock_defs split: option.split)

lemma delivered_server_ok:
  assumes "deliver imm p s = Some (w, s1)" "server_ok env W bufs s"
  shows "server_ok env W bufs (listed w s1)" "wr_id w \<in> W" "imm_data w = imm"
    "wr_id w \<notin> set (commit_list s)" "\<not> rw_convey (works s1 (wr_id w))"
    "page_at (smem s1) (bufs (wr_id w) + UD_EXTRA) = p" "works s1 = works s"
    "commit_list s1 = commit_list s" "spin s1 = spin s" "replies s1 = replies s"
    "multicast_rq s = wr_id w # multicast_rq s1"
proof -
  obtain rw rest where q: "multicast_rq s = rw # rest"
    using assms(1) by (auto simp: deliver_def split: list.splits)
  with assms(1) have d: "wr_id w = rw" "imm_data w = imm"
      "s1 = s\<lparr>multicast_rq := rest, smem := put_page (smem s) (rw_buffer (works s rw) + UD_EXTRA) p\<rparr>"
    by (auto simp: deliver_def)
  show "server_ok env W bufs (listed w s1)"
    using assms(2) q d unfolding server_ok_def blocks_ok_def by auto
  show "wr_id w \<in> W" "wr_id w \<notin> set (commit_list s)" "\<not> rw_convey (works s1 (wr_id w))"
    using assms(2) q d unfolding server_ok_def by auto
  show "page_at (smem s1) (bufs (wr_id w) + UD_EXTRA) = p"
    using assms(2) q d unfolding server_ok_def by auto
  show "imm_data w = imm" "works s1 = works s" "commit_list s1 = commit_list s" "spin s1 = spin s"
    "replies s1 = replies s" "multicast_rq s = wr_id w # multicast_rq s1"
    using d q by simp_all
qed

lemma delivered_far:
  assumes "deliver imm p s = Some (w, s1)" "server_ok env W bufs s" "layout env W bufs"
  shows "far (listed w s1) = far s"
proof (rule ext)
  fix k
  obtain rw rest where q: "multicast_rq s = rw # rest"
    using assms(1) by (auto simp: deliver_def split: list.splits)
  with assms(1) have d: "s1 = s\<lparr>multicast_rq := rest,
      smem := put_page (smem s) (rw_buffer (works s rw) + UD_EXTRA) p\<rparr>"
    by (auto simp: deliver_def)
  let ?n = "unat (get_num_memblock k)"
  show "far (listed w s1) k = far s k"
  proof (cases "memblocks s ! ?n")
    case None
    then show ?thesis by (simp add: far_def far_page_def d)
  next
    case (Some mb)
    show ?thesis
    proof (cases "?n < MAX_MEMBLOCK")
      case True
      have "buffer mb = mmap_ret (env ?n)" "rw \<in> W" "rw_buffer (works s rw) = bufs rw"
        using assms(2) Some True q unfolding server_ok_def by auto
      then have "apart (rw_buffer (works s rw) + UD_EXTRA) (page_addr mb (k AND 0x3ffff))"
        using layout_buffer [OF assms(3) _ _ low_page_less True] by simp
      then show ?thesis using Some by (simp add: far_def far_page_def d page_at_put_page_apart)
    qed (simp add: far_def)
  qed
qed

text \<open>
  One page from the network to its place: deliver it, run the multicast handler. It is
  refused when no receive is posted, the number names no block, or the block cannot be had.
\<close>

definition serve_page :: "(nat \<Rightarrow> block_env) \<Rightarrow> u32 \<Rightarrow> page \<Rightarrow> server \<Rightarrow> server option" where
  "serve_page env off p s =
     (if \<not> off < 2 ^ 28 then None
      else (case deliver (flow_header off) p s of
              None \<Rightarrow> None
            | Some (w, s1) \<Rightarrow>
                (case process_multicast_completion env w s1 of
                   Inl _ \<Rightarrow> None
                 | Inr s2 \<Rightarrow> if rw_convey (works s2 (wr_id w)) then Some s2 else None)))"

lemma flow_completion: "imm_data w = flow_header off \<Longrightarrow>
  process_multicast_completion env w s = process_multicast_flow env w s"
  by (simp add: process_multicast_completion_def header_simps)

lemma serve_page_cases:
  assumes "serve_page env off p s = Some s'" "server_ok env W bufs s"
  obtains w s1 s2 where "off < 2 ^ 28" "deliver (flow_header off) p s = Some (w, s1)"
    "ib_convey_page env w (listed w s1) = Inr (True, s2)" "s' = spin_unlock s2"
proof -
  obtain w s1 where d: "off < 2 ^ 28" "deliver (flow_header off) p s = Some (w, s1)"
    using assms(1) by (auto simp: serve_page_def split: if_splits option.splits)
  note dl = delivered_server_ok [OF d(2) assms(2)]
  have fl: "process_multicast_flow env w s1 = Inr s'" and cv: "rw_convey (works s' (wr_id w))"
    using assms(1) d flow_completion [OF dl(3)]
    by (auto simp: serve_page_def split: sum.splits if_splits)
  from fl dl(5) obtain b s2 where b: "ib_convey_page env w (listed w s1) = Inr (b, s2)"
      "s' = spin_unlock s2"
    by (auto simp: process_multicast_flow_eq rbind_Inr_iff)
  have "works s2 = (if b then (works (listed w s1))(wr_id w := (works (listed w s1) (wr_id w))\<lparr>rw_convey := True\<rparr>)
     else works (listed w s1))"
    using ib_convey_page_ok [OF b(1) dl(1)] by auto
  then have "b = True" using cv b(2) dl(5) by (auto simp: lock_defs split: if_splits)
  then show ?thesis using b by (intro that [OF d]) simp_all
qed

lemma serve_page_ok:
  assumes "serve_page env off p s = Some s'" "server_ok env W bufs s" "all_copied s"
  shows "server_ok env W bufs s' \<and> all_copied s' \<and> spin s' = spin s \<and> replies s' = replies s
    \<and> (\<exists>rw. multicast_rq s = rw # multicast_rq s' \<and> commit_list s' = rw # commit_list s)"
proof -
  obtain w s1 s2 where c: "deliver (flow_header off) p s = Some (w, s1)"
    "ib_convey_page env w (listed w s1) = Inr (True, s2)" "s' = spin_unlock s2"
    using assms(1,2) by (rule serve_page_cases)
  note dl = delivered_server_ok [OF c(1) assms(2)]
  have k: "server_ok env W bufs s2" "commit_list s2 = commit_list (listed w s1)"
      "multicast_rq s2 = multicast_rq (listed w s1)" "replies s2 = replies (listed w s1)"
      "spin s2 = spin (listed w s1)"
      "works s2 = (works (listed w s1))(wr_id w := (works (listed w s1) (wr_id w))\<lparr>rw_convey := True\<rparr>)"
    using ib_convey_page_ok [OF c(2) dl(1)] by auto
  have "all_copied s'"
    using assms(3) dl(7,8) k(2,6) by (simp add: all_copied_def c(3) lock_defs)
  then show ?thesis using k dl by (simp add: c(3)) (simp add: lock_defs)
qed

text \<open>Every page taken in counts.\<close>

lemma serve_page_counts:
  assumes "serve_page env off p s = Some s'" "server_ok env W bufs s"
  shows "atomic_read (batch s') = atomic_read (batch s) + 1"
proof -
  obtain w s1 s2 where c: "deliver (flow_header off) p s = Some (w, s1)"
    "ib_convey_page env w (listed w s1) = Inr (True, s2)" "s' = spin_unlock s2"
    using assms by (rule serve_page_cases)
  have "batch s1 = batch s" using c(1) by (auto simp: deliver_def split: list.splits)
  from c(2) delivered_server_ok(1) [OF c(1) assms(2)]
  have "atomic_read (batch s2) = atomic_read (batch s1) + 1"
  proof (cases rule: ib_convey_page_cases [case_names failed copied])
    case (copied opc nr offset s3 mb)
    then have "batch s3 = batch (listed w s1)" using add_memblock_frame(5) by auto
    then show ?thesis using copied(7) by (simp add: convey_into_def Let_def upd_work_def atomic_defs)
  qed simp
  then show ?thesis using \<open>batch s1 = batch s\<close> by (simp add: c(3) lock_defs)
qed

lemma serve_page_far:
  assumes "serve_page env off p s = Some s'" "server_ok env W bufs s" "layout env W bufs"
  shows "far s' off = Some p" "k \<noteq> off \<Longrightarrow> far s k = Some q \<Longrightarrow> far s' k = Some q"
proof -
  obtain w s1 s2 where c: "off < 2 ^ 28" "deliver (flow_header off) p s = Some (w, s1)"
    "ib_convey_page env w (listed w s1) = Inr (True, s2)" "s' = spin_unlock s2"
    using assms(1,2) by (rule serve_page_cases)
  note dl = delivered_server_ok [OF c(2) assms(2)]
  note fr = ib_convey_page_far [OF c(3) dl(1) assms(3) dl(3) c(1)]
  have "rw_buffer (works s (wr_id w)) = bufs (wr_id w)"
    using assms(2) dl(2) by (simp add: server_ok_def)
  then show "far s' off = Some p" using fr(1) dl(6,7) by (simp add: c(4))
  show "far s' k = Some q" if "k \<noteq> off" "far s k = Some q"
    using fr(2) that delivered_far [OF c(2) assms(2,3)] by (simp add: c(4))
qed

text \<open>So a server keeps the page-store contract.\<close>

definition serving :: "(nat \<Rightarrow> block_env) \<Rightarrow> addr set \<Rightarrow> (addr \<Rightarrow> addr) \<Rightarrow> server \<Rightarrow> bool" where
  "serving env W bufs s \<longleftrightarrow> layout env W bufs \<and> server_ok env W bufs s \<and> all_copied s"

interpretation far_memory: page_store "serving env W bufs" far "serve_page env"
  for env W bufs
  by unfold_locales (auto simp: serving_def dest: serve_page_ok serve_page_far)


section \<open>Pages are taken in\<close>

text \<open>An allocation in block \<open>nr\<close> succeeds.\<close>

definition grants :: "(nat \<Rightarrow> block_env) \<Rightarrow> nat \<Rightarrow> bool" where
  "grants env nr \<longleftrightarrow> malloc_ok (env nr) \<and> mmap_ret (env nr) \<noteq> 0 \<and> reg_ret (env nr) \<noteq> None"

lemma add_memblock_grants:
  assumes "grants env nr" "nr < length (memblocks s)" "memblocks s ! nr = None"
  shows "\<exists>s'. add_memblock (env nr) nr s = Inr (True, s') \<and> memblocks s' ! nr \<noteq> None"
  using assms
  by (auto simp: grants_def add_memblock_def alloc_memblock_def set_memblock_def ibv_reg_mr_def)

lemma ib_convey_page_some:
  assumes "server_ok env W bufs s" "imm_data w = flow_header off"
    and "unat (get_num_memblock off) < MAX_MEMBLOCK" "grants env (unat (get_num_memblock off))"
  shows "\<exists>s'. ib_convey_page env w s = Inr (True, s')"
proof -
  let ?nr = "unat (get_num_memblock off)"
  have len: "?nr < length (memblocks s)"
    using assms(1,3) by (simp add: server_ok_def blocks_ok_def)
  show ?thesis
  proof (cases "memblocks s ! ?nr = None")
    case True
    from add_memblock_grants [OF assms(4) len True] obtain s' where
      "add_memblock (env ?nr) ?nr s = Inr (True, s')" "memblocks s' ! ?nr \<noteq> None" by blast
    then show ?thesis using True len assms(2) by (auto simp: ib_convey_page_def flow_header_fields)
  next
    case False
    then show ?thesis using len assms(2) by (auto simp: ib_convey_page_def flow_header_fields)
  qed
qed

lemma serve_page_some:
  assumes "server_ok env W bufs s" "multicast_rq s \<noteq> []" "off < 2 ^ 28"
    and "unat (get_num_memblock off) < MAX_MEMBLOCK" "grants env (unat (get_num_memblock off))"
  shows "\<exists>s'. serve_page env off p s = Some s' \<and> length (multicast_rq s) = length (multicast_rq s') + 1"
proof -
  obtain w s1 where d: "deliver (flow_header off) p s = Some (w, s1)"
    using assms(2) by (cases "multicast_rq s") (auto simp: deliver_def)
  note dl = delivered_server_ok [OF d assms(1)]
  obtain s2 where s2: "ib_convey_page env w (listed w s1) = Inr (True, s2)"
    using ib_convey_page_some [OF dl(1,3) assms(4,5)] by blast
  note k = ib_convey_page_ok [OF s2 dl(1)]
  have "process_multicast_completion env w s1 = Inr (spin_unlock s2)"
    using s2 dl(5) flow_completion [OF dl(3)] by (simp add: process_multicast_flow_eq)
  then show ?thesis
    using assms(3) d k dl(11) by (auto simp: serve_page_def lock_defs)
qed

text \<open>As many pages as there are receive buffers are taken in one after the other.\<close>

lemma write_all_some:
  assumes "serving env W bufs s" "length ws \<le> length (multicast_rq s)"
    and "\<forall>(off, p) \<in> set ws. off < 2 ^ 28 \<and> unat (get_num_memblock off) < MAX_MEMBLOCK
      \<and> grants env (unat (get_num_memblock off))"
  shows "\<exists>s'. write_all (serve_page env) ws s = Some s'"
  using assms
proof (induction ws arbitrary: s)
  case Nil
  then show ?case by simp
next
  case (Cons w ws)
  obtain off p where w: "w = (off, p)" by (cases w)
  have "server_ok env W bufs s" "multicast_rq s \<noteq> []"
    using Cons.prems(1,2) by (auto simp: serving_def)
  from serve_page_some [OF this, of off p] Cons.prems(3) w
  obtain s1 where s1: "serve_page env off p s = Some s1" "length (multicast_rq s) = length (multicast_rq s1) + 1"
    by auto
  have "serving env W bufs s1" using far_memory.write_inv [OF Cons.prems(1) s1(1)] .
  then show ?case using Cons.IH [of s1] Cons.prems(2,3) s1 by (simp add: w)
qed

section \<open>A commit\<close>

lemma convey_pending_all_copied:
  "\<forall>rw \<in> set rws. rw_convey (works s rw) \<Longrightarrow> convey_pending env rws s = Inr s"
  by (induction rws) auto

lemma fold_release_work:
  assumes "commit_list s = rws @ ys" "distinct rws" "\<forall>rw \<in> set rws. wr_id (rw_wc (works s rw)) = rw"
  shows "fold release_work rws s = s\<lparr>commit_list := ys, multicast_rq := multicast_rq s @ rws,
    works := \<lambda>rw. if rw \<in> set rws then (works s rw)\<lparr>rw_convey := False\<rparr> else works s rw\<rparr>"
  using assms
proof (induction rws arbitrary: s)
  case Nil
  then show ?case by simp
next
  case (Cons rw rws)
  let ?s = "s\<lparr>commit_list := rws @ ys, multicast_rq := multicast_rq s @ [rw],
    works := (works s)(rw := (works s rw)\<lparr>rw_convey := False\<rparr>)\<rparr>"
  have "release_work rw s = ?s"
    using Cons.prems by (simp add: release_work_def del_and_putback_def upd_work_def)
  moreover have "fold release_work rws ?s = ?s\<lparr>commit_list := ys, multicast_rq := multicast_rq ?s @ rws,
    works := \<lambda>rw. if rw \<in> set rws then (works ?s rw)\<lparr>rw_convey := False\<rparr> else works ?s rw\<rparr>"
    using Cons.prems by (intro Cons.IH) auto
  ultimately show ?case using Cons.prems(2) by (auto intro!: arg_cong2 [of _ _ _ _ works_update] ext cong: if_cong)
qed

lemma far_cong:
  "memblocks s' = memblocks s \<Longrightarrow> smem s' = smem s \<Longrightarrow> far s' = far s"
  by (rule ext) (simp add: far_def far_page_def split: option.split)

text \<open>
  With every listed page copied and enough pages counted, a commit answers at once, posts
  all listed work requests behind those still posted, starts counting from 0, and leaves
  every page as it is.
\<close>

lemma process_rpc_commit_drains:
  assumes "server_ok env W bufs s" "all_copied s" "commit_list s \<noteq> []" "enough_pages (imm_data w) s"
  shows "\<exists>s'. process_rpc_commit env arrivals w s = Inr (arrivals, s')
    \<and> server_ok env W bufs s' \<and> commit_list s' = [] \<and> multicast_rq s' = multicast_rq s @ commit_list s
    \<and> atomic_read (batch s') = 0 \<and> far s' = far s \<and> spin s' = spin s
    \<and> replies s' = replies s @ [(imm_data w, Ack)]"
proof -
  let ?l = "commit_list s"
  let ?s3 = "(spin_lock s)\<lparr>commit_list := [], multicast_rq := multicast_rq s @ ?l,
    works := \<lambda>rw. if rw \<in> set ?l then (works s rw)\<lparr>rw_convey := False\<rparr> else works s rw\<rparr>"
  let ?s' = "send_reply (imm_data w) Ack (spin_unlock (?s3\<lparr>batch := atomic_set (batch s) 0\<rparr>))"
  have wait: "wait_pages env (imm_data w) arrivals s = Inr (arrivals, s)"
    using assms(4) by (cases arrivals) auto
  have pend: "convey_pending env ?l (spin_lock s) = Inr (spin_lock s)"
    using assms(2) by (intro convey_pending_all_copied) (simp add: all_copied_def lock_defs)
  have rel: "fold release_work ?l (spin_lock s) = ?s3"
    using assms(1) by (subst fold_release_work [where ys = "[]"]) (auto simp: server_ok_def lock_defs cong: if_cong)
  have "process_rpc_commit env arrivals w s = Inr (arrivals, ?s')"
    using assms(3) wait pend rel by (simp add: process_rpc_commit_def lock_defs)
  moreover have "server_ok env W bufs ?s'"
    using assms(1) by (auto simp: server_ok_def blocks_ok_def send_reply_def lock_defs)
  moreover have "far ?s' = far s" by (rule far_cong) (simp_all add: send_reply_def lock_defs)
  ultimately show ?thesis by (auto simp: send_reply_def lock_defs atomic_defs)
qed

text \<open>
  A commit that finds listed pages answers only when enough pages are counted: it goes on
  processing the multicast thread's completions, and hangs when these run out first.
\<close>

lemma wait_pages_enough:
  "wait_pages env imm ws s = Inr (rest, s') \<Longrightarrow> enough_pages imm s'"
  by (induction ws arbitrary: s) (auto simp: rbind_Inr_iff split: if_splits)

lemma wait_pages_spins:
  "\<not> enough_pages imm s \<Longrightarrow> wait_pages env imm [] s = Inl Spinning"
  by simp

text \<open>A commit on an empty list answers at once, whatever the requested count.\<close>

lemma process_rpc_commit_empty:
  "commit_list s = [] \<Longrightarrow>
   process_rpc_commit env arrivals w s = Inr (arrivals, send_reply (imm_data w) Ack s)"
  by (simp add: process_rpc_commit_def)

end
