(* ===== verification/Server_Faults.thy ===== *)
theory Server_Faults
  imports Far_Memory
begin

text \<open>
  The server's replies to an open, and the handlers' error paths: an open whose block cannot
  be had, a block number beyond the table, a commit that fails to copy a listed page, the
  multicast commit that leaves its work requests marked as copied, and a get.
\<close>

unbundle bit_operations_syntax

section \<open>Open\<close>

lemma server_ok_block:
  assumes "server_ok env W bufs s" "memblocks s ! nr = Some mb" "nr < MAX_MEMBLOCK"
  obtains m where "block_mr mb = Some m" "mr_addr m = mmap_ret (env nr)" "buffer mb = mmap_ret (env nr)"
proof -
  have "block_ok nr mb" "buffer mb = mmap_ret (env nr)"
    using assms(1-3) unfolding server_ok_def blocks_ok_def by blast+
  then show ?thesis using that by (auto simp: block_ok_def)
qed

text \<open>The block an open request names.\<close>

definition open_block :: "u32 \<Rightarrow> nat" where
  "open_block imm = unat (drop_bit 18 imm AND 0x3ff)"

lemma process_rpc_open_eq:
  "process_rpc_open env w s =
     (let s1 = mutex_lock s; nr = open_block (imm_data w) in
      if \<not> nr < length (memblocks s) then Inl Out_Of_Bounds
      else rbind (if memblocks s ! nr = None then add_memblock (env nr) nr s1 else Inr (True, s1))
        (\<lambda>(_, s2). case memblocks s2 ! nr of
           None \<Rightarrow> Inl Null_Pointer
         | Some mb \<Rightarrow> (case block_mr mb of
             None \<Rightarrow> Inl Null_Pointer
           | Some m \<Rightarrow> Inr (mutex_unlock
               (send_reply (imm_data w) (Open_Info (mr_addr m) (mr_rkey m)) s2)))))"
  by (simp add: process_rpc_open_def interpret_header_eq Let_def open_block_def lock_defs
      split: option.split)

lemma mutex_lock_ok [simp]:
  "server_ok env W bufs (mutex_lock s) = server_ok env W bufs s"
  "memblocks (mutex_lock s) = memblocks s" "replies (mutex_lock s) = replies s"
  by (simp_all add: server_ok_def blocks_ok_def lock_defs)

lemma open_reply_simps [simp]:
  "server_ok env W bufs (mutex_unlock (send_reply i r s)) = server_ok env W bufs s"
  "memblocks (mutex_unlock (send_reply i r s)) = memblocks s"
  "replies (mutex_unlock (send_reply i r s)) = replies s @ [(i, r)]"
  by (simp_all add: server_ok_def blocks_ok_def lock_defs send_reply_def)

text \<open>
  An answered open has the block in the table and replies with the address the block is
  mapped at, under the request's own immediate word.
\<close>

lemma process_rpc_open_cases:
  assumes "process_rpc_open env w s = Inr s'"
  obtains b s2 mb m where
    "(if memblocks s ! open_block (imm_data w) = None
      then add_memblock (env (open_block (imm_data w))) (open_block (imm_data w)) (mutex_lock s)
      else Inr (True, mutex_lock s)) = Inr (b, s2)"
    "memblocks s2 ! open_block (imm_data w) = Some mb" "block_mr mb = Some m"
    "s' = mutex_unlock (send_reply (imm_data w) (Open_Info (mr_addr m) (mr_rkey m)) s2)"
    "open_block (imm_data w) < length (memblocks s)"
  using assms by (auto simp: process_rpc_open_eq Let_def rbind_Inr_iff split: if_splits option.splits)

lemma process_rpc_open_ok:
  assumes "process_rpc_open env w s = Inr s'" "server_ok env W bufs s"
  shows "server_ok env W bufs s' \<and> open_block (imm_data w) < MAX_MEMBLOCK
    \<and> (\<exists>mb key. memblocks s' ! open_block (imm_data w) = Some mb
        \<and> replies s' = replies s @ [(imm_data w, Open_Info (mmap_ret (env (open_block (imm_data w)))) key)])"
proof -
  let ?nr = "open_block (imm_data w)" and ?s = "mutex_lock s"
  have len: "length (memblocks s) = MAX_MEMBLOCK"
    using assms(2) by (simp add: server_ok_def blocks_ok_def)
  have nr: "?nr < MAX_MEMBLOCK"
    using assms(1) len by (auto simp: process_rpc_open_eq Let_def split: if_splits)
  obtain b s2 mb m where s2: "(if memblocks s ! ?nr = None then add_memblock (env ?nr) ?nr (mutex_lock s)
        else Inr (True, mutex_lock s)) = Inr (b, s2)"
      "memblocks s2 ! ?nr = Some mb" "block_mr mb = Some m"
      "s' = mutex_unlock (send_reply (imm_data w) (Open_Info (mr_addr m) (mr_rkey m)) s2)"
      "?nr < length (memblocks s)"
    by (rule process_rpc_open_cases [OF assms(1)])
  have "server_ok env W bufs s2 \<and> replies s2 = replies s"
  proof (cases "memblocks s ! ?nr")
    case None
    with s2(1) have "add_memblock (env ?nr) ?nr ?s = Inr (b, s2)" by simp
    then show ?thesis
      using add_memblock_server_ok [of env ?nr ?s b s2] add_memblock_frame(6) assms(2) nr by auto
  next
    case (Some a)
    with s2(1) assms(2) show ?thesis by auto
  qed
  then show ?thesis
    using s2(2-4) nr by (auto elim!: server_ok_block [OF _ s2(2) nr])
qed

text \<open>An open keeps every page the server holds, and the pages listed stay copied.\<close>

lemma process_rpc_open_serving:
  assumes "process_rpc_open env w s = Inr s'" "serving env W bufs s"
  shows "serving env W bufs s' \<and> far s \<subseteq>\<^sub>m far s' \<and> commit_list s' = commit_list s
    \<and> multicast_rq s' = multicast_rq s \<and> batch s' = batch s"
proof -
  let ?nr = "open_block (imm_data w)"
  obtain b s2 mb m where s2: "(if memblocks s ! ?nr = None then add_memblock (env ?nr) ?nr (mutex_lock s)
        else Inr (True, mutex_lock s)) = Inr (b, s2)"
      "memblocks s2 ! ?nr = Some mb" "block_mr mb = Some m"
      "s' = mutex_unlock (send_reply (imm_data w) (Open_Info (mr_addr m) (mr_rkey m)) s2)"
      "?nr < length (memblocks s)"
    by (rule process_rpc_open_cases [OF assms(1)])
  have f: "far_page (mutex_lock s) n o' = far_page s n o'" "far_page s' n o' = far_page s2 n o'" for n o'
    by (simp_all add: s2(4) far_page_def lock_defs send_reply_def split: option.split)
  have fr: "commit_list s2 = commit_list s \<and> works s2 = works s \<and> multicast_rq s2 = multicast_rq s
    \<and> batch s2 = batch s
    \<and> (\<forall>n o' p. far_page s n o' = Some p \<longrightarrow> far_page s2 n o' = Some p)"
  proof (cases "memblocks s ! ?nr = None")
    case True
    then have a: "add_memblock (env ?nr) ?nr (mutex_lock s) = Inr (b, s2)" using s2(1) by simp
    show ?thesis
      using add_memblock_frame(2-5) [OF a] add_memblock_far_page [OF a] f(1) by (auto simp: lock_defs)
  next
    case False
    then have "s2 = mutex_lock s" using s2(1) by auto
    then show ?thesis using f(1) by (simp add: lock_defs)
  qed
  then have "all_copied s' \<longleftrightarrow> all_copied s" "far s \<subseteq>\<^sub>m far s'"
      "commit_list s' = commit_list s \<and> multicast_rq s' = multicast_rq s \<and> batch s' = batch s"
    using f(2) by (auto simp: all_copied_def s2(4) lock_defs send_reply_def map_le_def far_def split: if_splits)
  then show ?thesis
    using process_rpc_open_ok [OF assms(1)] assms(2) by (simp add: serving_def)
qed

text \<open>An open for a block beyond the table, or one that cannot be allocated, faults.\<close>

lemma process_rpc_open_faults:
  assumes "length (memblocks s) = MAX_MEMBLOCK"
  shows "\<not> open_block (imm_data w) < MAX_MEMBLOCK \<Longrightarrow> process_rpc_open env w s = Inl Out_Of_Bounds"
    and "open_block (imm_data w) < MAX_MEMBLOCK \<Longrightarrow> memblocks s ! open_block (imm_data w) = None \<Longrightarrow>
      \<not> malloc_ok (env (open_block (imm_data w))) \<Longrightarrow> process_rpc_open env w s = Inl Null_Pointer"
  using assms by (auto simp: process_rpc_open_eq Let_def add_memblock_def alloc_memblock_def)

text \<open>An open fails only for a number beyond the table or a block that cannot be had.\<close>

lemma process_rpc_open_Inl:
  assumes "process_rpc_open env w s = Inl e" "server_ok env W bufs s"
  shows "if open_block (imm_data w) < MAX_MEMBLOCK
    then e = Null_Pointer \<and> memblocks s ! open_block (imm_data w) = None
      \<and> \<not> grants env (open_block (imm_data w))
    else e = Out_Of_Bounds"
proof -
  let ?nr = "open_block (imm_data w)"
  have len: "length (memblocks s) = MAX_MEMBLOCK"
    using assms(2) by (simp add: server_ok_def blocks_ok_def)
  show ?thesis
  proof (cases "?nr < MAX_MEMBLOCK")
    case True
    have "memblocks s ! ?nr = None"
    proof (rule ccontr)
      assume "memblocks s ! ?nr \<noteq> None"
      then obtain mb where mb: "memblocks s ! ?nr = Some mb" by blast
      obtain m where "block_mr mb = Some m" using server_ok_block [OF assms(2) mb True] by blast
      then show False using assms(1) True len mb by (simp add: process_rpc_open_eq Let_def)
    qed
    moreover have "\<not> grants env ?nr"
    proof
      assume "grants env ?nr"
      then have "\<exists>s'. process_rpc_open env w s = Inr s'"
        using True len calculation
        by (auto simp: process_rpc_open_eq Let_def grants_def add_memblock_def alloc_memblock_def
            set_memblock_def ibv_reg_mr_def)
      then show False using assms(1) by simp
    qed
    moreover have "e = Null_Pointer"
      using assms(1) True len calculation(1)
      by (auto simp: process_rpc_open_eq Let_def add_memblock_def rbind_Inl_iff Let_def
          split: if_splits option.splits prod.splits)
    ultimately show ?thesis using True by simp
  next
    case False
    then show ?thesis using assms(1) process_rpc_open_faults(1) [OF len False, of env] by simp
  qed
qed

section \<open>A commit that fails to copy a listed page\<close>

lemma ib_convey_page_fails:
  assumes "length (memblocks s) = MAX_MEMBLOCK" "unat (get_num_memblock off) < MAX_MEMBLOCK"
    "imm_data w = flow_header off" "memblocks s ! unat (get_num_memblock off) = None"
    "\<not> malloc_ok (env (unat (get_num_memblock off)))"
  shows "ib_convey_page env w s = Inr (False, s)"
  using assms
  by (simp add: ib_convey_page_def Let_def header_simps add_memblock_def alloc_memblock_def)

text \<open>
  The failed copy releases the spin lock and leaves the first pass; the second pass still
  posts every work request again, so the page is gone, the lock is released a second time,
  and the driver is told the commit is done.
\<close>

lemma process_rpc_commit_drops:
  assumes "server_ok env W bufs s" "commit_list s = rw # rest" "enough_pages (imm_data w) s"
    and "\<not> rw_convey (works s rw)" "imm_data (rw_wc (works s rw)) = flow_header off"
    and "unat (get_num_memblock off) < MAX_MEMBLOCK" "memblocks s ! unat (get_num_memblock off) = None"
    and "\<not> malloc_ok (env (unat (get_num_memblock off)))"
  shows "\<exists>s'. process_rpc_commit env arrivals w s = Inr (arrivals, s')
    \<and> commit_list s' = [] \<and> far s' = far s \<and> far s off = None \<and> spin s' = spin s - 1
    \<and> replies s' = replies s @ [(imm_data w, Ack)]"
proof -
  let ?l = "commit_list s"
  let ?s3 = "s\<lparr>commit_list := [], multicast_rq := multicast_rq s @ ?l,
    works := \<lambda>rw. if rw \<in> set ?l then (works s rw)\<lparr>rw_convey := False\<rparr> else works s rw\<rparr>"
  let ?s' = "send_reply (imm_data w) Ack (spin_unlock (?s3\<lparr>batch := atomic_set (batch s) 0\<rparr>))"
  have len: "length (memblocks s) = MAX_MEMBLOCK"
    using assms(1) by (simp add: server_ok_def blocks_ok_def)
  have wait: "wait_pages env (imm_data w) arrivals s = Inr (arrivals, s)"
    using assms(3) by (cases arrivals) auto
  have "ib_convey_page env (rw_wc (works s rw)) (spin_lock s) = Inr (False, spin_lock s)"
    using len assms(5-8) by (intro ib_convey_page_fails [of _ off]) (simp_all add: lock_defs)
  then have pend: "convey_pending env ?l (spin_lock s) = Inr s"
    using assms(2,4) by (simp add: lock_defs)
  have rel: "fold release_work ?l s = ?s3"
    using assms(1) by (subst fold_release_work [where ys = "[]"]) (auto simp: server_ok_def)
  have "process_rpc_commit env arrivals w s = Inr (arrivals, ?s')"
    using assms(2) wait pend rel by (simp add: process_rpc_commit_def)
  moreover have "far ?s' = far s" by (rule far_cong) (simp_all add: send_reply_def lock_defs)
  ultimately show ?thesis using assms(7) by (auto simp: send_reply_def lock_defs far_def far_page_def)
qed

section \<open>The multicast commit leaves its work requests marked\<close>

lemma fold_del_and_putback:
  assumes "commit_list s = rws @ ys" "\<forall>rw \<in> set rws. wr_id (rw_wc (works s rw)) = rw"
  shows "fold del_and_putback rws s = s\<lparr>commit_list := ys, multicast_rq := multicast_rq s @ rws\<rparr>"
  using assms
proof (induction rws arbitrary: s)
  case Nil
  then show ?case by simp
next
  case (Cons rw rws)
  let ?s = "s\<lparr>commit_list := rws @ ys, multicast_rq := multicast_rq s @ [rw]\<rparr>"
  have "del_and_putback rw s = ?s" using Cons.prems by (simp add: del_and_putback_def)
  moreover have "fold del_and_putback rws ?s =
      ?s\<lparr>commit_list := ys, multicast_rq := multicast_rq ?s @ rws\<rparr>"
    using Cons.prems by (intro Cons.IH) auto
  ultimately show ?case by simp
qed

text \<open>\<open>rw_convey\<close> only ever goes from false to true while pages are copied.\<close>

lemma convey_all_keeps:
  assumes "convey_all env rws s = Inr s'" "server_ok env W bufs s" "set rws \<subseteq> set (commit_list s)"
  shows "server_ok env W bufs s' \<and> commit_list s' = commit_list s \<and> multicast_rq s' = multicast_rq s
    \<and> (\<forall>rw. rw_convey (works s rw) \<longrightarrow> rw_convey (works s' rw))"
  using assms
proof (induction rws arbitrary: s)
  case Nil
  then show ?case by simp
next
  case (Cons rw rws)
  obtain ok s1 where c: "ib_convey_page env (rw_wc (works s rw)) s = Inr (ok, s1)"
      "if \<not> ok then s' = s1 else convey_all env rws s1 = Inr s'"
    using Cons.prems(1) by (auto simp: rbind_Inr_iff split: if_splits)
  have "wr_id (rw_wc (works s rw)) = rw" "rw \<in> set (commit_list s)"
    using Cons.prems(2,3) by (auto simp: server_ok_def)
  then have s1: "server_ok env W bufs s1 \<and> commit_list s1 = commit_list s \<and> multicast_rq s1 = multicast_rq s
      \<and> (\<forall>r. rw_convey (works s r) \<longrightarrow> rw_convey (works s1 r))"
    using ib_convey_page_ok [OF c(1) Cons.prems(2)] by auto
  show ?case
  proof (cases ok)
    case True
    then show ?thesis using c(2) s1 Cons.IH [of s1] Cons.prems(3) by auto
  qed (use c(2) s1 in simp)
qed

lemma process_multicast_commit_marked:
  assumes "process_multicast_commit env w s = Inr s'" "server_ok env W bufs s" "commit_list s \<noteq> []"
    "all_copied s"
  shows "commit_list s' = [] \<and> multicast_rq s' = multicast_rq s @ commit_list s
    \<and> (\<forall>rw \<in> set (commit_list s). rw_convey (works s' rw))"
proof -
  obtain s1 where s1: "convey_all env (commit_list s) s = Inr s1"
      "s' = fold del_and_putback (commit_list s1) (send_reply (imm_data w) Multicast_Ack s1)"
    using assms(1,3) by (auto simp: process_multicast_commit_def rbind_Inr_iff Let_def send_reply_def)
  have k: "server_ok env W bufs s1" "commit_list s1 = commit_list s" "multicast_rq s1 = multicast_rq s"
      "\<And>rw. rw_convey (works s rw) \<Longrightarrow> rw_convey (works s1 rw)"
    using convey_all_keeps [OF s1(1) assms(2)] by auto
  have "s' = (send_reply (imm_data w) Multicast_Ack s1)\<lparr>commit_list := [],
      multicast_rq := multicast_rq s1 @ commit_list s1\<rparr>"
    unfolding s1(2) using k(1)
    by (subst fold_del_and_putback [where ys = "[]"]) (auto simp: send_reply_def server_ok_def)
  then show ?thesis using k assms(4) by (auto simp: send_reply_def all_copied_def)
qed

text \<open>A page that arrives in a marked work request is listed but not copied.\<close>

lemma marked_page_skipped:
  "rw_convey (works s (wr_id w)) \<Longrightarrow>
   process_multicast_flow env w s = Inr (spin_unlock (listed w s)) \<and> far (spin_unlock (listed w s)) = far s"
  by (simp add: process_multicast_flow_eq) (rule far_cong; simp)

section \<open>Get\<close>

text \<open>
  A get compares the 28-bit page number of each listed page with the page's number inside
  its block, so it can only ever find pages of block 0.
\<close>

lemma find_page_none:
  assumes "\<forall>rw \<in> set (commit_list s). imm_data (rw_wc (works s rw)) AND 0xfffffff \<noteq> offset"
  shows "find_page offset s = None"
proof -
  have "fold (\<lambda>rw found. if imm_data (rw_wc (works s rw)) AND 0xfffffff = offset
      then Some (page_at (smem s) (rw_buffer (works s rw) + UD_EXTRA)) else found) rws None = None"
    if "\<forall>rw \<in> set rws. imm_data (rw_wc (works s rw)) AND 0xfffffff \<noteq> offset" for rws
    using that by (induction rws) auto
  with assms show ?thesis by (simp add: find_page_def)
qed

lemma get_page_spins:
  assumes "\<forall>rw \<in> set (commit_list s). 2 ^ 18 \<le> imm_data (rw_wc (works s rw)) AND 0xfffffff"
  shows "process_rpc_get_page env [] w s = Inl Spinning"
proof -
  obtain opc nr offset where ih: "interpret_header (imm_data w) = Some (opc, nr, offset)"
      "offset < 2 ^ 18"
    by (metis interpret_header_eq low_page_less)
  have "find_page offset s = None"
    using assms ih(2) by (intro find_page_none) (auto simp: not_less [symmetric])
  then show ?thesis by (simp add: process_rpc_get_page_def ih)
qed

lemma flow_block_nonzero:
  assumes "imm_data v = flow_header off" "get_num_memblock off \<noteq> 0"
  shows "2 ^ 18 \<le> imm_data v AND 0xfffffff"
proof -
  have "\<not> (off AND 0xfffffff) < 2 ^ 18"
  proof
    assume a: "(off AND 0xfffffff) < 2 ^ 18"
    have "get_num_memblock off = 0"
    proof (rule bit_eqI)
      fix n
      have "\<not> bit (off AND 0xfffffff) (18 + n)" using small_word_bits [OF a, of "18 + n"] by auto
      then show "bit (get_num_memblock off) n = bit (0 :: u32) n"
        by (auto simp: get_num_memblock_def mask_words bit_simps)
    qed
    then show False using assms(2) by simp
  qed
  then show ?thesis using assms(1) by (simp add: flow_header_fields)
qed

text \<open>Copying listed pages into blocks that are there succeeds.\<close>

lemma conveyed_again:
  assumes "server_ok env W bufs s" "set rws \<subseteq> set (commit_list s)"
    and "\<forall>rw \<in> set rws. \<exists>off. imm_data (rw_wc (works s rw)) = flow_header off
      \<and> unat (get_num_memblock off) < MAX_MEMBLOCK \<and> grants env (unat (get_num_memblock off))"
  shows "\<exists>s'. convey_all env rws s = Inr s'"
  using assms
proof (induction rws arbitrary: s)
  case Nil
  then show ?case by simp
next
  case (Cons rw rws)
  let ?w = "rw_wc (works s rw)"
  obtain off where off: "imm_data ?w = flow_header off" "unat (get_num_memblock off) < MAX_MEMBLOCK"
      "grants env (unat (get_num_memblock off))"
    using Cons.prems(3) by auto
  obtain s1 where s1: "ib_convey_page env ?w s = Inr (True, s1)"
    using ib_convey_page_some [OF Cons.prems(1) off] by blast
  have "wr_id ?w \<in> set (commit_list s)" using Cons.prems(1,2) by (simp add: server_ok_def)
  note k = ib_convey_page_ok [OF s1 Cons.prems(1) this]
  then have "\<forall>r. rw_wc (works s1 r) = rw_wc (works s r)" by simp
  then show ?case using Cons.IH [of s1] Cons.prems(2,3) k s1 by auto
qed

end
