(* ===== verification/System.thy ===== *)
theory System
  imports Driver_Proofs Server_Faults
begin

text \<open>
  The frontswap interface (\<open>drive/maruswap.c\<close>) and the whole system: one driver and its
  servers.

  The network is modelled by what the adapters do: the page of an accepted multicast write
  is delivered to every server of the list and handled there (\<open>serve_page\<close>); an RDMA read
  copies a page of server memory into the page given. \<open>envs n\<close> is what server \<open>n\<close>'s
  allocations meet. The properties say that what was stored is what is loaded: from the
  staging buffer before a commit, from either server after it.
\<close>

unbundle bit_operations_syntax

section \<open>Frontswap\<close>

text \<open>A page id is 64 bits wide; the driver's page numbers are 32.\<close>

definition maruswap_store :: "call_env \<Rightarrow> io_env \<Rightarrow> u64 \<Rightarrow> addr \<Rightarrow> driver \<Rightarrow> (int \<times> driver) result" where
  "maruswap_store env io pageid page d =
     rbind (maruswap_multicast_write env io page (ucast pageid) d) (\<lambda>(ret, d').
       if ret \<noteq> 0 then Inr (- 1, d') else Inr (0, d'))"

definition maruswap_load :: "io_env \<Rightarrow> u64 \<Rightarrow> addr \<Rightarrow> driver \<Rightarrow> (int \<times> driver) result" where
  "maruswap_load io pageid page d =
     rbind (maruswap_rdma_read io page (ucast pageid) d) (\<lambda>(ret, d').
       if ret \<noteq> 0 then Inr (- 1, d') else Inr (0, d'))"

text \<open>Invalidation does nothing: a page stays staged and stored.\<close>

definition maruswap_invalidate_page :: "nat \<Rightarrow> u64 \<Rightarrow> driver \<Rightarrow> driver" where
  "maruswap_invalidate_page type offset d = d"

definition maruswap_invalidate_area :: "nat \<Rightarrow> driver \<Rightarrow> driver" where
  "maruswap_invalidate_area type d = d"

section \<open>The network\<close>

fun serve_all ::
  "(nat \<Rightarrow> nat \<Rightarrow> block_env) \<Rightarrow> u32 \<Rightarrow> page \<Rightarrow> nat list \<Rightarrow> (nat \<Rightarrow> server) \<Rightarrow> (nat \<Rightarrow> server) option" where
  "serve_all envs off p [] srv = Some srv"
| "serve_all envs off p (n # ns) srv =
     (case serve_page (envs n) off p (srv n) of
        None \<Rightarrow> None
      | Some s \<Rightarrow> serve_all envs off p ns (srv(n := s)))"

text \<open>A store that succeeds, and the delivery of the page it sent.\<close>

definition system_store ::
  "call_env \<Rightarrow> (nat \<Rightarrow> nat \<Rightarrow> block_env) \<Rightarrow> io_env \<Rightarrow> u64 \<Rightarrow> addr \<Rightarrow> driver \<times> (nat \<Rightarrow> server)
   \<Rightarrow> (driver \<times> (nat \<Rightarrow> server)) option" where
  "system_store env envs io pageid page st =
     (case st of (d, srv) \<Rightarrow>
       (case maruswap_store env io pageid page d of
          Inl _ \<Rightarrow> None
        | Inr (ret, d') \<Rightarrow>
            if ret \<noteq> 0 then None
            else
              (case serve_all envs (ucast pageid) (page_at (kmem d) page) (ctrl_list d) srv of
                 None \<Rightarrow> None | Some srv' \<Rightarrow> Some (d', srv'))))"

text \<open>The server the processor's load goes to.\<close>

definition read_target :: "io_env \<Rightarrow> driver \<Rightarrow> ctrl_ptr" where
  "read_target io d = (if io_cpu io mod 2 \<noteq> 0 then get_main_rdma_ctrl d else get_sub_rdma_ctrl d)"

text \<open>
  A load that succeeds; if it sent a read to server \<open>n\<close>, the adapter fills the page from the
  server's memory.
\<close>

definition system_load :: "io_env \<Rightarrow> u64 \<Rightarrow> addr \<Rightarrow> driver \<times> (nat \<Rightarrow> server) \<Rightarrow> (page \<times> driver) option" where
  "system_load io pageid page st =
     (case st of (d, srv) \<Rightarrow>
       (case maruswap_load io pageid page d of
          Inl _ \<Rightarrow> None
        | Inr (ret, d') \<Rightarrow>
            if ret \<noteq> 0 then None
            else
              (case read_target io d of
                 Ctrl n \<Rightarrow>
                   if length (rc_sent (ctrls d' n)) > length (rc_sent (ctrls d n))
                   then Some (page_at (smem (srv n)) (wr_remote_addr (last (rc_sent (ctrls d' n)))), d')
                   else Some (page_at (kmem d') page, d')
               | _ \<Rightarrow> None)))"

section \<open>Agreement of driver and servers\<close>

text \<open>
  The servers hold their invariant, and the address the driver keeps for a block is where
  the server has it.
\<close>

definition servers_ok ::
  "(nat \<Rightarrow> nat \<Rightarrow> block_env) \<Rightarrow> (nat \<Rightarrow> addr set) \<Rightarrow> (nat \<Rightarrow> addr \<Rightarrow> addr) \<Rightarrow> driver \<times> (nat \<Rightarrow> server) \<Rightarrow> bool"
  where
  "servers_ok envs W bufs st \<longleftrightarrow>
     (case st of (d, srv) \<Rightarrow>
       distinct (ctrl_list d)
       \<and> (\<forall>n \<in> set (ctrl_list d). serving (envs n) (W n) (bufs n) (srv n)
            \<and> length (rdma_info (ctrls d n)) = MAX_MEMBLOCK
            \<and> (\<forall>nr < MAX_MEMBLOCK. rkey (rdma_info (ctrls d n) ! nr) \<noteq> 0 \<longrightarrow>
                 remote_addr (rdma_info (ctrls d n) ! nr) = mmap_ret (envs n nr))))"

lemma serve_all_each:
  assumes "serve_all envs off p ns srv = Some srv'" "distinct ns"
  shows "(\<forall>n \<in> set ns. serve_page (envs n) off p (srv n) = Some (srv' n))
    \<and> (\<forall>n. n \<notin> set ns \<longrightarrow> srv' n = srv n)"
  using assms
proof (induction ns arbitrary: srv)
  case Nil
  then show ?case by simp
next
  case (Cons n ns)
  then obtain s where s: "serve_page (envs n) off p (srv n) = Some s"
      "serve_all envs off p ns (srv(n := s)) = Some srv'"
    by (auto split: option.splits)
  have ih: "\<forall>k \<in> set ns. serve_page (envs k) off p ((srv(n := s)) k) = Some (srv' k)"
    "\<forall>k. k \<notin> set ns \<longrightarrow> srv' k = (srv(n := s)) k"
    using Cons.IH [OF s(2)] Cons.prems(2) by auto
  have n: "n \<notin> set ns" using Cons.prems(2) by simp
  have "srv' n = s" using ih(2) n by simp
  moreover have "serve_page (envs k) off p (srv k) = Some (srv' k)" if "k \<in> set ns" for k
    using bspec [OF ih(1) that] that n by (auto split: if_splits)
  moreover have "srv' k = srv k" if "k \<noteq> n" "k \<notin> set ns" for k
    using ih(2) that by simp
  ultimately show ?case using s(1) by auto
qed

text \<open>What \<open>far\<close> says a server holds is what an RDMA read of its block returns.\<close>

lemma remote_page:
  assumes "server_ok env W bufs s" "far s off = Some p"
    and "a = mmap_ret (env (unat (get_num_memblock off)))"
  shows "page_at (smem s) (a + ucast (push_bit 12 (off AND 0x3ffff))) = p"
proof -
  let ?nr = "unat (get_num_memblock off)"
  have nr: "?nr < MAX_MEMBLOCK" "far_page s ?nr (off AND 0x3ffff) = Some p"
    using assms(2) by (auto simp: far_def split: if_splits)
  then obtain mb where mb: "memblocks s ! ?nr = Some mb" "page_at (smem s) (page_addr mb (off AND 0x3ffff)) = p"
    by (auto simp: far_page_def split: option.splits)
  have "buffer mb = a" using assms(1,3) mb(1) nr(1) unfolding server_ok_def by blast
  then show ?thesis using mb(2) by (simp add: page_addr_def)
qed

section \<open>What was stored is loaded\<close>

text \<open>A page in the staging buffer is loaded from there, whichever server is asked.\<close>

lemma load_staged:
  assumes "staged (stage_buffer d) (kmem d) (ucast pageid) = Some p"
    and "read_target io d = Ctrl n"
  shows "\<exists>d'. system_load io pageid page (d, srv) = Some (p, d')"
proof -
  have l: "case staged (stage_buffer d) (kmem d) (ucast pageid) of
     None \<Rightarrow> stage_buffer_load page (ucast pageid) (stage_buffer d) (kmem d) = (NULL, kmem d)
   | Some p \<Rightarrow> fst (stage_buffer_load page (ucast pageid) (stage_buffer d) (kmem d)) \<noteq> NULL
       \<and> page_at (snd (stage_buffer_load page (ucast pageid) (stage_buffer d) (kmem d))) page = p"
    by (rule stage_buffer_load_staged)
  then show ?thesis
    using assms by (auto simp: system_load_def maruswap_load_def maruswap_rdma_read_def read_target_def
        deref_def case_prod_unfold)
qed

text \<open>A page the servers hold and the driver does not stage is loaded from a server's block.\<close>

lemma load_remote:
  assumes ok: "servers_ok envs W bufs (d, srv)"
    and "staged (stage_buffer d) (kmem d) (ucast pageid) = None"
    and target: "read_target io d = Ctrl n" "n \<in> set (ctrl_list d)"
    and far: "far (srv n) (ucast pageid) = Some p"
    and op: "block_open (unat (get_num_memblock (ucast pageid))) d"
    and io: "io_good io dma"
  shows "\<exists>d'. system_load io pageid page (d, srv) = Some (p, d')"
proof -
  let ?off = "ucast pageid :: u32"
  let ?nr = "unat (get_num_memblock ?off)" and ?info = "rdma_info (ctrls d n)"
  have nr: "?nr < MAX_MEMBLOCK" using far by (auto simp: far_def split: if_splits)
  have s: "serving (envs n) (W n) (bufs n) (srv n)" "length ?info = MAX_MEMBLOCK"
      "rkey (?info ! ?nr) \<noteq> 0 \<longrightarrow> remote_addr (?info ! ?nr) = mmap_ret (envs n ?nr)"
    using ok target(2) nr by (auto simp: servers_ok_def)
  have "rkey (?info ! ?nr) \<noteq> 0" using op target(2) by (simp add: block_open_def)
  then have a: "remote_addr (?info ! ?nr) = mmap_ret (envs n ?nr)" using s(3) by simp
  obtain d' wr where r: "maruswap_rdma_read io page ?off d = Inr (0, d')"
      "rc_sent (ctrls d' n) = rc_sent (ctrls d n) @ [wr]"
      "wr_remote_addr wr = remote_addr (?info ! ?nr) + ucast (push_bit 12 (?off AND 0x3ffff))"
    using read_remote [OF assms(2) target(1) [unfolded read_target_def] _ io, of page] nr s(2) by auto
  have "server_ok (envs n) (W n) (bufs n) (srv n)" using s(1) by (simp add: serving_def)
  then have "page_at (smem (srv n)) (wr_remote_addr wr) = p"
    unfolding r(3) using remote_page far a by blast
  then show ?thesis
    using r(1,2) target(1) by (simp add: system_load_def maruswap_load_def)
qed

text \<open>A store leaves the page staged and in the far memory of every server.\<close>

lemma store_everywhere:
  assumes st: "system_store env envs io pageid page (d, srv) = Some (d', srv')"
    and ok: "servers_ok envs W bufs (d, srv)" and dok: "driver_ok base d"
    and main: "main_ctrl d = Ctrl mn" and op: "block_open (unat (get_num_memblock (ucast pageid))) d"
    and room: "uint (atomic_read (drv_batch d)) < CONFIG_BATCH" and io: "io_good io dma"
  shows "staged (stage_buffer d') (kmem d') =
      (staged (stage_buffer d) (kmem d))(ucast pageid \<mapsto> page_at (kmem d) page)"
    and "\<forall>n \<in> set (ctrl_list d). far (srv' n) (ucast pageid) = Some (page_at (kmem d) page)"
    and "\<forall>n \<in> set (ctrl_list d). serving (envs n) (W n) (bufs n) (srv' n)"
proof -
  let ?off = "ucast pageid :: u32" and ?p = "page_at (kmem d) page"
  obtain d1 where d1: "maruswap_multicast_write env io page ?off d = Inr (0, d1)"
      "staged (stage_buffer d1) (kmem d1) = (staged (stage_buffer d) (kmem d))(?off \<mapsto> ?p)"
    using write_common [OF dok main op room io, of env page] by blast
  with st have sv: "d' = d1" "serve_all envs ?off ?p (ctrl_list d) srv = Some srv'"
    by (auto simp: system_store_def maruswap_store_def split: option.splits)
  show "staged (stage_buffer d') (kmem d') = (staged (stage_buffer d) (kmem d))(?off \<mapsto> ?p)"
    using d1(2) by (simp add: sv(1))
  have each: "\<forall>n \<in> set (ctrl_list d). serve_page (envs n) ?off ?p (srv n) = Some (srv' n)"
    and good: "\<forall>n \<in> set (ctrl_list d). serving (envs n) (W n) (bufs n) (srv n)"
    using serve_all_each [OF sv(2)] ok by (auto simp: servers_ok_def)
  show "\<forall>n \<in> set (ctrl_list d). far (srv' n) ?off = Some ?p"
    using each good far_memory.write_same by blast
  show "\<forall>n \<in> set (ctrl_list d). serving (envs n) (W n) (bufs n) (srv' n)"
    using each good far_memory.write_inv by blast
qed


section \<open>Across a commit\<close>

text \<open>
  Every server handles the commit request the driver sent it last; \<open>rid n\<close> is the receive it
  arrived in.
\<close>

definition commit_request :: "(nat \<Rightarrow> addr) \<Rightarrow> driver \<Rightarrow> nat \<Rightarrow> wc" where
  "commit_request rid d n =
     \<lparr>wr_id = rid n, imm_data = wr_imm (last (rc_sent (ctrls d n))), wc_ok = True\<rparr>"

fun commit_servers ::
  "(nat \<Rightarrow> nat \<Rightarrow> block_env) \<Rightarrow> (nat \<Rightarrow> wc) \<Rightarrow> nat list \<Rightarrow> (nat \<Rightarrow> server) \<Rightarrow> (nat \<Rightarrow> server) option" where
  "commit_servers envs w [] srv = Some srv"
| "commit_servers envs w (n # ns) srv =
     (case process_rpc_commit (envs n) [] (w n) (srv n) of
        Inl _ \<Rightarrow> None
      | Inr (_, s) \<Rightarrow> commit_servers envs w ns (srv(n := s)))"

definition system_commit ::
  "call_env \<Rightarrow> (nat \<Rightarrow> nat \<Rightarrow> block_env) \<Rightarrow> (nat \<Rightarrow> addr) \<Rightarrow> driver \<times> (nat \<Rightarrow> server)
   \<Rightarrow> (driver \<times> (nat \<Rightarrow> server)) option" where
  "system_commit env envs rid st =
     (case st of (d, srv) \<Rightarrow>
       (case ib_rpc_commit_all env d of
          Inl _ \<Rightarrow> None
        | Inr (ret, d') \<Rightarrow>
            if ret \<noteq> 0 then None
            else
              (case commit_servers envs (commit_request rid d') (ctrl_list d) srv of
                 None \<Rightarrow> None | Some srv' \<Rightarrow> Some (d', srv'))))"

lemma server_commit_far:
  assumes "serving env W bufs s" "commit_list s = [] \<or> enough_pages (imm_data w) s"
  shows "\<exists>s'. process_rpc_commit env [] w s = Inr ([], s') \<and> far s' = far s \<and> serving env W bufs s'"
proof (cases "commit_list s = []")
  case True
  have "far (send_reply (imm_data w) Ack s) = far s" by (rule far_cong) (simp_all add: send_reply_def)
  moreover have "serving env W bufs (send_reply (imm_data w) Ack s)"
    using assms(1) by (simp add: serving_def server_ok_def blocks_ok_def all_copied_def send_reply_def)
  ultimately show ?thesis using True by (simp add: process_rpc_commit_empty)
next
  case False
  have "server_ok env W bufs s" "all_copied s" "enough_pages (imm_data w) s"
    using assms False by (simp_all add: serving_def)
  from process_rpc_commit_drains [OF this(1,2) False this(3), of "[]"] show ?thesis
    using assms(1) by (auto simp: serving_def all_copied_def)
qed

lemma commit_servers_far:
  assumes "\<forall>n \<in> set ns. serving (envs n) (W n) (bufs n) (srv n)
      \<and> (commit_list (srv n) = [] \<or> enough_pages (imm_data (w n)) (srv n))" "distinct ns"
  shows "\<exists>srv'. commit_servers envs w ns srv = Some srv'
    \<and> (\<forall>n \<in> set ns. far (srv' n) = far (srv n) \<and> serving (envs n) (W n) (bufs n) (srv' n))
    \<and> (\<forall>n. n \<notin> set ns \<longrightarrow> srv' n = srv n)"
  using assms
proof (induction ns arbitrary: srv)
  case Nil
  then show ?case by simp
next
  case (Cons n ns)
  obtain s where s: "process_rpc_commit (envs n) [] (w n) (srv n) = Inr ([], s)" "far s = far (srv n)"
      "serving (envs n) (W n) (bufs n) s"
    using server_commit_far [of "envs n" "W n" "bufs n" "srv n" "w n"] Cons.prems(1) by auto
  have n: "n \<notin> set ns" using Cons.prems(2) by simp
  then have "\<forall>k \<in> set ns. (srv(n := s)) k = srv k" by auto
  then obtain srv' where srv': "commit_servers envs w ns (srv(n := s)) = Some srv'"
      "\<forall>k \<in> set ns. far (srv' k) = far (srv k) \<and> serving (envs k) (W k) (bufs k) (srv' k)"
      "\<forall>k. k \<notin> set ns \<longrightarrow> srv' k = (srv(n := s)) k"
    using Cons.IH [of "srv(n := s)"] Cons.prems by fastforce
  then show ?case using s n by auto
qed

text \<open>
  A commit the servers answer empties the staging buffer and leaves far memory as it is, so
  what was staged and stored is then loaded from the servers.
\<close>

lemma commit_request_enough:
  assumes "sent_one commit_opcode d d' n" "\<not> sint (atomic_read (batch s)) < sint SERVER_BATCH"
  shows "enough_pages (imm_data (commit_request rid d' n)) s"
proof -
  obtain b where b: "b < NR_BINDERS"
      "map wr_imm (rc_sent (ctrls d' n)) = map wr_imm (rc_sent (ctrls d n)) @ [rpc_imm commit_opcode (of_nat b)]"
    using assms(1) by (auto simp: sent_one_def)
  then have "rc_sent (ctrls d' n) \<noteq> []" by auto
  then have "wr_imm (last (rc_sent (ctrls d' n))) = last (map wr_imm (rc_sent (ctrls d' n)))"
    by (simp add: last_map)
  then have i: "imm_data (commit_request rid d' n) = rpc_imm commit_opcode (of_nat b)"
    using b(2) by (simp add: commit_request_def)
  have "(of_nat b :: u32) < 256"
    using b(1) by (simp add: NR_BINDERS_def word_less_nat_alt unat_of_nat)
  then show ?thesis using assms(2) by (simp add: i enough_pages_def commit_fields)
qed

text \<open>A server that is alive and has counted a batch of 512 pages, or has none listed.\<close>

definition ready_to_commit :: "driver \<Rightarrow> (nat \<Rightarrow> server) \<Rightarrow> bool" where
  "ready_to_commit d srv \<longleftrightarrow>
     (\<forall>n \<in> set (ctrl_list d). alive (ctrls d n)
        \<and> (commit_list (srv n) = [] \<or> \<not> sint (atomic_read (batch (srv n))) < sint SERVER_BATCH))"

lemma commit_keeps_pages:
  assumes ok: "servers_ok envs W bufs (d, srv)" and dok: "driver_ok base d"
    and cm: "ib_rpc_commit_all env d = Inr (0, d')" and ready: "ready_to_commit d srv"
  shows "\<exists>srv'. system_commit env envs rid (d, srv) = Some (d', srv')
    \<and> servers_ok envs W bufs (d', srv') \<and> driver_ok base d'
    \<and> (\<forall>n \<in> set (ctrl_list d). far (srv' n) = far (srv n))
    \<and> staged (stage_buffer d') (kmem d') = Map.empty
    \<and> ctrl_list d' = ctrl_list d \<and> main_ctrl d' = main_ctrl d \<and> same_infos d d'"
proof -
  let ?w = "commit_request rid d'"
  have dist: "distinct (ctrl_list d)" using ok by (simp add: servers_ok_def)
  have "\<forall>n \<in> set (ctrl_list d). serving (envs n) (W n) (bufs n) (srv n)
      \<and> (commit_list (srv n) = [] \<or> enough_pages (imm_data (?w n)) (srv n))"
  proof
    fix n assume n: "n \<in> set (ctrl_list d)"
    then have "sent_one commit_opcode d d' n"
      using commit_all_sends [OF cm dist] ready by (simp add: ready_to_commit_def)
    then have "commit_list (srv n) = [] \<or> enough_pages (imm_data (?w n)) (srv n)"
      using ready n commit_request_enough unfolding ready_to_commit_def by blast
    then show "serving (envs n) (W n) (bufs n) (srv n)
      \<and> (commit_list (srv n) = [] \<or> enough_pages (imm_data (?w n)) (srv n))"
      using ok n by (simp add: servers_ok_def)
  qed
  then obtain srv' where srv': "commit_servers envs ?w (ctrl_list d) srv = Some srv'"
      "\<forall>n \<in> set (ctrl_list d). far (srv' n) = far (srv n) \<and> serving (envs n) (W n) (bufs n) (srv' n)"
    using commit_servers_far [of "ctrl_list d" envs W bufs srv ?w] dist by auto
  have c: "driver_ok base d'" "staged (stage_buffer d') (kmem d') = Map.empty"
      "ctrl_list d' = ctrl_list d" "main_ctrl d' = main_ctrl d"
    using commit_all_result [OF cm dok] by auto
  have i: "same_infos d d'" using commit_all_infos [OF cm] .
  have "servers_ok envs W bufs (d', srv')"
    using ok srv'(2) c(3) i by (auto simp: servers_ok_def same_infos_def)
  then show ?thesis using srv' c i cm by (auto simp: system_commit_def)
qed

lemma read_target_cong:
  "ctrl_list d' = ctrl_list d \<Longrightarrow> main_ctrl d' = main_ctrl d \<Longrightarrow> read_target io d' = read_target io d"
  by (simp add: read_target_def get_main_rdma_ctrl_def get_sub_rdma_ctrl_def)

text \<open>After a commit a load returns what far memory holds.\<close>

lemma commit_then_load:
  assumes ok: "servers_ok envs W bufs (d1, srv1)" and dok: "driver_ok base d1"
    and cm: "ib_rpc_commit_all env' d1 = Inr (0, d2)" and ready: "ready_to_commit d1 srv1"
    and target: "read_target io' d1 = Ctrl n" "n \<in> set (ctrl_list d1)" and io': "io_good io' dma'"
    and far: "far (srv1 n) (ucast pageid) = Some p"
    and op: "block_open (unat (get_num_memblock (ucast pageid))) d1"
  shows "\<exists>srv2 d3. system_commit env' envs rid (d1, srv1) = Some (d2, srv2)
    \<and> system_load io' pageid page' (d2, srv2) = Some (p, d3)"
proof -
  obtain srv2 where c: "system_commit env' envs rid (d1, srv1) = Some (d2, srv2)"
      "servers_ok envs W bufs (d2, srv2)" "\<forall>n \<in> set (ctrl_list d1). far (srv2 n) = far (srv1 n)"
      "staged (stage_buffer d2) (kmem d2) = Map.empty" "ctrl_list d2 = ctrl_list d1"
      "main_ctrl d2 = main_ctrl d1" "same_infos d1 d2"
    using commit_keeps_pages [OF ok dok cm ready] by blast
  have "read_target io' d2 = Ctrl n" using target(1) c(5,6) read_target_cong [of d2 d1 io'] by simp
  moreover have "n \<in> set (ctrl_list d2)" "far (srv2 n) (ucast pageid) = Some p"
    using target(2) c(3,5) far by auto
  moreover have "block_open (unat (get_num_memblock (ucast pageid))) d2"
    using op c(5,7) by (simp add: block_open_def same_infos_def)
  moreover have "staged (stage_buffer d2) (kmem d2) (ucast pageid) = None" using c(4) by simp
  ultimately have "\<exists>d3. system_load io' pageid page' (d2, srv2) = Some (p, d3)"
    using load_remote [OF c(2)] io' by blast
  then show ?thesis using c(1) by blast
qed

text \<open>A write changes nothing the servers' agreement speaks of.\<close>

lemma write_keeps_agreement:
  assumes dok: "driver_ok base d" and main: "main_ctrl d = Ctrl mn"
    and op: "block_open (unat (get_num_memblock off)) d"
    and room: "uint (atomic_read (drv_batch d)) < CONFIG_BATCH" and io: "io_good io dma"
  shows "\<exists>d1. maruswap_multicast_write env io page off d = Inr (0, d1) \<and> driver_ok base d1
    \<and> ctrls d1 = ctrls d \<and> ctrl_list d1 = ctrl_list d \<and> main_ctrl d1 = main_ctrl d
    \<and> drv_binders d1 = drv_binders d \<and> block_open (unat (get_num_memblock off)) d1
    \<and> read_target io' d1 = read_target io' d"
proof -
  obtain d1 where d1: "maruswap_multicast_write env io page off d = Inr (0, d1)"
      "ctrls d1 = ctrls d" "ctrl_list d1 = ctrl_list d" "main_ctrl d1 = main_ctrl d"
      "drv_binders d1 = drv_binders d"
    using write_common [OF dok main op room io, of env page] by blast
  moreover have "driver_ok base d1" using write_driver_ok [OF d1(1) dok] by simp
  moreover have "block_open (unat (get_num_memblock off)) d1" using op d1(2,3) by (simp add: block_open_def)
  ultimately show ?thesis using read_target_cong [of d1 d io'] by blast
qed

text \<open>Store, commit, load: the page comes back from either server.\<close>

lemma store_commit_load_page:
  assumes st: "system_store env envs io pageid page (d, srv) = Some (d1, srv1)"
    and cm: "ib_rpc_commit_all env' d1 = Inr (0, d2)" and ready: "ready_to_commit d1 srv1"
    and ok: "servers_ok envs W bufs (d, srv)" and dok: "driver_ok base d"
    and main: "main_ctrl d = Ctrl mn" and op: "block_open (unat (get_num_memblock (ucast pageid))) d"
    and room: "uint (atomic_read (drv_batch d)) < CONFIG_BATCH" and io: "io_good io dma"
    and target: "read_target io' d = Ctrl n" "n \<in> set (ctrl_list d)" and io': "io_good io' dma'"
  shows "\<exists>srv2 d3. system_commit env' envs rid (d1, srv1) = Some (d2, srv2)
    \<and> system_load io' pageid page' (d2, srv2) = Some (page_at (kmem d) page, d3)"
proof -
  obtain dw where dw: "maruswap_multicast_write env io page (ucast pageid) d = Inr (0, dw)" "driver_ok base dw"
      "ctrls dw = ctrls d" "ctrl_list dw = ctrl_list d"
      "block_open (unat (get_num_memblock (ucast pageid))) dw" "read_target io' dw = read_target io' d"
    using write_keeps_agreement [OF dok main op room io, of env page io'] by blast
  with st have d1: "d1 = dw"
    by (auto simp: system_store_def maruswap_store_def split: option.splits)
  have far1: "\<forall>n \<in> set (ctrl_list d). far (srv1 n) (ucast pageid) = Some (page_at (kmem d) page)"
    and sv1: "\<forall>n \<in> set (ctrl_list d). serving (envs n) (W n) (bufs n) (srv1 n)"
    using store_everywhere [OF st ok dok main op room io] by blast+
  have "servers_ok envs W bufs (d1, srv1)"
    using ok sv1 dw(3,4) d1 by (simp add: servers_ok_def)
  from commit_then_load [OF this _ cm ready _ _ io', of base n] show ?thesis
    using target far1 dw d1 by simp
qed


section \<open>Stores succeed\<close>

text \<open>Every server has a receive buffer left and can allocate the page's block.\<close>

definition can_take :: "(nat \<Rightarrow> nat \<Rightarrow> block_env) \<Rightarrow> u32 \<Rightarrow> nat list \<Rightarrow> (nat \<Rightarrow> server) \<Rightarrow> bool" where
  "can_take envs off ns srv \<longleftrightarrow>
     off < 2 ^ 28 \<and> unat (get_num_memblock off) < MAX_MEMBLOCK
     \<and> (\<forall>n \<in> set ns. multicast_rq (srv n) \<noteq> [] \<and> grants (envs n) (unat (get_num_memblock off)))"

lemma serve_all_some:
  assumes "can_take envs off ns srv" "distinct ns"
    and "\<forall>n \<in> set ns. serving (envs n) (W n) (bufs n) (srv n)"
  shows "\<exists>srv'. serve_all envs off p ns srv = Some srv'"
  using assms
proof (induction ns arbitrary: srv)
  case Nil
  then show ?case by simp
next
  case (Cons n ns)
  have "server_ok (envs n) (W n) (bufs n) (srv n)" using Cons.prems(3) by (simp add: serving_def)
  from serve_page_some [OF this, of off p] Cons.prems(1) obtain s where
    s: "serve_page (envs n) off p (srv n) = Some s" by (auto simp: can_take_def)
  have n: "\<forall>k \<in> set ns. (srv(n := s)) k = srv k" using Cons.prems(2) by auto
  have "can_take envs off ns (srv(n := s))" using Cons.prems(1) n by (simp add: can_take_def)
  moreover have "\<forall>k \<in> set ns. serving (envs k) (W k) (bufs k) ((srv(n := s)) k)"
    using Cons.prems(3) n by simp
  ultimately obtain srv' where "serve_all envs off p ns (srv(n := s)) = Some srv'"
    using Cons.IH [of "srv(n := s)"] Cons.prems(2) by (metis distinct.simps(2))
  then show ?case using s by simp
qed

lemma store_some:
  assumes ok: "servers_ok envs W bufs (d, srv)" and dok: "driver_ok base d"
    and main: "main_ctrl d = Ctrl mn" and op: "block_open (unat (get_num_memblock (ucast pageid))) d"
    and room: "uint (atomic_read (drv_batch d)) < CONFIG_BATCH" and io: "io_good io dma"
    and take: "can_take envs (ucast pageid) (ctrl_list d) srv"
  shows "\<exists>d1 srv1. system_store env envs io pageid page (d, srv) = Some (d1, srv1)
    \<and> ctrls d1 = ctrls d \<and> ctrl_list d1 = ctrl_list d \<and> main_ctrl d1 = main_ctrl d
    \<and> drv_binders d1 = drv_binders d"
proof -
  obtain d1 where d1: "maruswap_multicast_write env io page (ucast pageid) d = Inr (0, d1)"
      "ctrls d1 = ctrls d" "ctrl_list d1 = ctrl_list d" "main_ctrl d1 = main_ctrl d"
      "drv_binders d1 = drv_binders d"
    using write_common [OF dok main op room io, of env page] by blast
  have "distinct (ctrl_list d)" "\<forall>n \<in> set (ctrl_list d). serving (envs n) (W n) (bufs n) (srv n)"
    using ok by (simp_all add: servers_ok_def)
  with serve_all_some [OF take] obtain srv1 where
    "serve_all envs (ucast pageid) (page_at (kmem d) page) (ctrl_list d) srv = Some srv1" by blast
  then show ?thesis using d1 by (simp add: system_store_def maruswap_store_def)
qed

lemma store_keeps_main:
  assumes "system_store env envs io pageid page (d, srv) = Some (d', srv')" "driver_ok base d"
    "main_ctrl d = Ctrl mn" "block_open (unat (get_num_memblock (ucast pageid))) d"
    "uint (atomic_read (drv_batch d)) < CONFIG_BATCH" "io_good io dma"
  shows "main_ctrl d' = main_ctrl d \<and> ctrl_list d' = ctrl_list d \<and> ctrls d' = ctrls d
    \<and> drv_binders d' = drv_binders d \<and> driver_ok base d'"
proof -
  obtain dw where dw: "maruswap_multicast_write env io page (ucast pageid) d = Inr (0, dw)"
      "ctrls dw = ctrls d" "ctrl_list dw = ctrl_list d" "main_ctrl dw = main_ctrl d"
      "drv_binders dw = drv_binders d"
    using write_common [OF assms(2-6), of env page] by blast
  with assms(1) have "d' = dw"
    by (auto simp: system_store_def maruswap_store_def split: option.splits)
  then show ?thesis using dw write_driver_ok [OF dw(1) assms(2)] by simp
qed

end
