(* ===== verification/Network.thy ===== *)
theory Network
  imports System
begin

text \<open>
  The driver, its servers and the packets between them, as the kernel and the network use them:
  a step relation in which stores, loads and commits of the driver interleave with the arrival
  of packets, each server at its own pace. \<open>nw_flight\<close> are the packets sent and not yet
  arrived, by server and in their order; \<open>nw_last\<close> is the abstract state, the page frontswap
  stored last under each number. The invariant relates the two.
\<close>

unbundle bit_operations_syntax

section \<open>Steps\<close>

record network =
  nw_driver :: driver
  nw_server :: "nat \<Rightarrow> server"
  nw_flight :: "nat \<Rightarrow> (u32 \<times> page) list"
  nw_last :: "u32 \<rightharpoonup> page"

text \<open>A page that lies outside the staging buffer.\<close>

definition off_stage :: "addr \<Rightarrow> addr \<Rightarrow> bool" where
  "off_stage base a \<longleftrightarrow> (\<forall>j. 0 \<le> j \<longrightarrow> j < CONFIG_BATCH \<longrightarrow> apart a (slot base j))"

definition send_page :: "nat list \<Rightarrow> u32 \<Rightarrow> page \<Rightarrow> (nat \<Rightarrow> (u32 \<times> page) list) \<Rightarrow> nat \<Rightarrow> (u32 \<times> page) list"
  where
  "send_page ns off p fl = (\<lambda>n. if n \<in> set ns then fl n @ [(off, p)] else fl n)"

text \<open>
  An open request reaches its server, which handles it and replies; the reply fills the receive
  in which the caller finds it (\<open>u\<close>). The bits of the slot's number must cover the low byte of
  the page number: other opens never return. A store with room in the batch either sends its
  page, or is refused, by the DMA mapping or the adapter; frontswap then keeps no page under the
  number. A page arrives at one server and is handled there. A commit is made when no page is on
  its way. A load fills the page it was given, and the kernel writes pages of its own, in
  between.
\<close>

inductive network_step ::
  "(nat \<Rightarrow> nat \<Rightarrow> block_env) \<Rightarrow> addr \<Rightarrow> network \<Rightarrow> network \<Rightarrow> bool" for envs base where
  nw_open:
    "n \<in> set (ctrl_list (nw_driver s)) \<Longrightarrow> process_rpc_open (envs n) w (nw_server s n) = Inr v \<Longrightarrow>
     imm_data w = rpc_imm (open_opcode off) (of_nat b) \<Longrightarrow>
     replies v = replies (nw_server s n) @ [(imm_data w, Open_Info a key)] \<Longrightarrow>
     length (drv_binders (nw_driver s)) = NR_BINDERS \<Longrightarrow> off < 2 ^ 28 \<Longrightarrow>
     rkey (rdma_info (ctrls (nw_driver s) n) ! unat (get_num_memblock off)) = 0 \<Longrightarrow>
     get_binder (e_draws (env (calls (nw_driver s)))) (drv_binders (nw_driver s)) = Inr (b, rs, bs) \<Longrightarrow>
     (off AND 0xff) OR of_nat b = of_nat b \<Longrightarrow>
     serves (env (calls (nw_driver s))) b pre u \<Longrightarrow> imm_data u = imm_data w \<Longrightarrow>
     e_rws (env (calls (nw_driver s))) (wr_id u) = Some \<lparr>remote_addr = a, rkey = key\<rparr> \<Longrightarrow>
     ib_rpc_open env n off (nw_driver s) = Inr (ret, d') \<Longrightarrow>
     network_step envs base s (s\<lparr>nw_driver := d', nw_server := (nw_server s)(n := v)\<rparr>)"
| nw_store:
    "maruswap_store env io pageid page (nw_driver s) = Inr (0, d') \<Longrightarrow> io_good io dma \<Longrightarrow>
     block_open (unat (get_num_memblock (ucast pageid))) (nw_driver s) \<Longrightarrow>
     uint (atomic_read (drv_batch (nw_driver s))) < CONFIG_BATCH \<Longrightarrow>
     p = page_at (kmem (nw_driver s)) page \<Longrightarrow>
     network_step envs base s
       (s\<lparr>nw_driver := d',
          nw_flight := send_page (ctrl_list (nw_driver s)) (ucast pageid) p (nw_flight s),
          nw_last := (nw_last s)(ucast pageid \<mapsto> p)\<rparr>)"
| nw_refused:
    "maruswap_store env io pageid page (nw_driver s) = Inr (- 1, d') \<Longrightarrow>
     io_dma io = None \<or> io_post io \<noteq> 0 \<Longrightarrow>
     block_open (unat (get_num_memblock (ucast pageid))) (nw_driver s) \<Longrightarrow>
     uint (atomic_read (drv_batch (nw_driver s))) < CONFIG_BATCH \<Longrightarrow>
     network_step envs base s (s\<lparr>nw_driver := d', nw_last := (nw_last s)(ucast pageid := None)\<rparr>)"
| nw_deliver:
    "nw_flight s n = (off, p) # rest \<Longrightarrow> serve_page (envs n) off p (nw_server s n) = Some v \<Longrightarrow>
     network_step envs base s
       (s\<lparr>nw_server := (nw_server s)(n := v), nw_flight := (nw_flight s)(n := rest)\<rparr>)"
| nw_commit:
    "\<forall>n. nw_flight s n = [] \<Longrightarrow> ready_to_commit (nw_driver s) (nw_server s) \<Longrightarrow>
     system_commit env envs rid (nw_driver s, nw_server s) = Some (d', srv') \<Longrightarrow>
     network_step envs base s (s\<lparr>nw_driver := d', nw_server := srv'\<rparr>)"
| nw_load:
    "system_load io pageid page (nw_driver s, nw_server s) = Some (p, d') \<Longrightarrow> off_stage base page \<Longrightarrow>
     network_step envs base s (s\<lparr>nw_driver := d'\<lparr>kmem := put_page (kmem d') page p\<rparr>\<rparr>)"
| nw_kernel:
    "off_stage base page \<Longrightarrow>
     network_step envs base s
       (s\<lparr>nw_driver := (nw_driver s)\<lparr>kmem := put_page (kmem (nw_driver s)) page p\<rparr>\<rparr>)"

text \<open>A start: driver and servers in agreement, nothing staged, sent or stored.\<close>

definition network_start ::
  "(nat \<Rightarrow> nat \<Rightarrow> block_env) \<Rightarrow> (nat \<Rightarrow> addr set) \<Rightarrow> (nat \<Rightarrow> addr \<Rightarrow> addr) \<Rightarrow> addr \<Rightarrow> network \<Rightarrow> bool"
  where
  "network_start envs W bufs base s \<longleftrightarrow>
     servers_ok envs W bufs (nw_driver s, nw_server s) \<and> driver_ok base (nw_driver s)
     \<and> (\<exists>n. main_ctrl (nw_driver s) = Ctrl n)
     \<and> staged (stage_buffer (nw_driver s)) (kmem (nw_driver s)) = Map.empty
     \<and> (\<forall>n. nw_flight s n = []) \<and> nw_last s = Map.empty"

inductive network_reach ::
  "(nat \<Rightarrow> nat \<Rightarrow> block_env) \<Rightarrow> (nat \<Rightarrow> addr set) \<Rightarrow> (nat \<Rightarrow> addr \<Rightarrow> addr) \<Rightarrow> addr \<Rightarrow> network \<Rightarrow> bool"
  for envs W bufs base where
  nw_start: "network_start envs W bufs base s \<Longrightarrow> network_reach envs W bufs base s"
| nw_next: "network_reach envs W bufs base s \<Longrightarrow> network_step envs base s s' \<Longrightarrow>
    network_reach envs W bufs base s'"

section \<open>The invariant\<close>

text \<open>
  What a server holds, overridden by what is on its way to it, covers the pages stored last; what
  is on its way is staged; and what is staged is what was stored last.
\<close>

definition coming :: "network \<Rightarrow> nat \<Rightarrow> u32 \<rightharpoonup> page" where
  "coming s n = far (nw_server s n) ++ map_of (rev (nw_flight s n))"

definition network_ok ::
  "(nat \<Rightarrow> nat \<Rightarrow> block_env) \<Rightarrow> (nat \<Rightarrow> addr set) \<Rightarrow> (nat \<Rightarrow> addr \<Rightarrow> addr) \<Rightarrow> addr \<Rightarrow> network \<Rightarrow> bool"
  where
  "network_ok envs W bufs base s \<longleftrightarrow>
     servers_ok envs W bufs (nw_driver s, nw_server s) \<and> driver_ok base (nw_driver s)
     \<and> (\<exists>n. main_ctrl (nw_driver s) = Ctrl n)
     \<and> (\<forall>off \<in> dom (nw_last s). block_open (unat (get_num_memblock off)) (nw_driver s))
     \<and> (\<forall>n \<in> set (ctrl_list (nw_driver s)). nw_last s \<subseteq>\<^sub>m coming s n
          \<and> fst ` set (nw_flight s n) \<subseteq> dom (staged (stage_buffer (nw_driver s)) (kmem (nw_driver s))))
     \<and> (\<forall>off p. staged (stage_buffer (nw_driver s)) (kmem (nw_driver s)) off = Some p \<longrightarrow>
          nw_last s off = None \<or> nw_last s off = Some p)"

lemma servers_ok_cong:
  assumes "servers_ok envs W bufs (d, srv)" "ctrl_list d' = ctrl_list d" "same_infos d d'"
    and "\<forall>n \<in> set (ctrl_list d). serving (envs n) (W n) (bufs n) (srv' n)"
  shows "servers_ok envs W bufs (d', srv')"
  using assms by (simp add: servers_ok_def same_infos_def)

lemma block_open_cong:
  "block_open nr d \<Longrightarrow> ctrl_list d' = ctrl_list d \<Longrightarrow> same_infos d d' \<Longrightarrow> block_open nr d'"
  by (simp add: block_open_def same_infos_def)

lemma servers_okD: "servers_ok envs W bufs (d, srv) \<Longrightarrow> n \<in> set (ctrl_list d) \<Longrightarrow>
  serving (envs n) (W n) (bufs n) (srv n)"
  by (simp add: servers_ok_def)

lemma network_start_ok: "network_start envs W bufs base s \<Longrightarrow> network_ok envs W bufs base s"
  by (simp add: network_start_def network_ok_def)

lemma coming_send_page:
  "n \<in> set ns \<Longrightarrow> nw_flight s' n = send_page ns off p (nw_flight s) n \<Longrightarrow>
   nw_server s' n = nw_server s n \<Longrightarrow> coming s' n = (coming s n)(off \<mapsto> p)"
  by (simp add: coming_def send_page_def)

text \<open>The arrival of a packet keeps everything that is coming.\<close>

lemma coming_deliver:
  assumes "serving (envs n) (W n) (bufs n) (nw_server s n)"
    and "nw_flight s n = (off, p) # rest" "serve_page (envs n) off p (nw_server s n) = Some v"
    and "nw_server s' n = v" "nw_flight s' n = rest"
  shows "coming s n \<subseteq>\<^sub>m coming s' n"
proof -
  have g: "(far (nw_server s n))(off \<mapsto> p) \<subseteq>\<^sub>m far v" using far_memory.write_grows [OF assms(1,3)] .
  have "coming s n = (far (nw_server s n))(off \<mapsto> p) ++ map_of (rev rest)"
    by (simp add: coming_def assms(2))
  then show ?thesis
    unfolding coming_def assms(4,5) using g by (auto simp: map_le_def map_add_def dom_def split: option.splits)
qed

section \<open>Every step keeps it\<close>

lemma network_okD:
  assumes "network_ok envs W bufs base s"
  shows "servers_ok envs W bufs (nw_driver s, nw_server s)" "driver_ok base (nw_driver s)"
    "\<exists>n. main_ctrl (nw_driver s) = Ctrl n"
    "off \<in> dom (nw_last s) \<Longrightarrow> block_open (unat (get_num_memblock off)) (nw_driver s)"
    "n \<in> set (ctrl_list (nw_driver s)) \<Longrightarrow> nw_last s \<subseteq>\<^sub>m coming s n"
    "n \<in> set (ctrl_list (nw_driver s)) \<Longrightarrow>
       fst ` set (nw_flight s n) \<subseteq> dom (staged (stage_buffer (nw_driver s)) (kmem (nw_driver s)))"
    "staged (stage_buffer (nw_driver s)) (kmem (nw_driver s)) off = Some p \<Longrightarrow>
       nw_last s off = None \<or> nw_last s off = Some p"
  using assms unfolding network_ok_def by blast+

lemma store_keeps_ok:
  assumes ok: "network_ok envs W bufs base s"
    and st: "maruswap_store env io pageid page (nw_driver s) = Inr (0, d')" and io: "io_good io dma"
    and op: "block_open (unat (get_num_memblock (ucast pageid))) (nw_driver s)"
    and room: "uint (atomic_read (drv_batch (nw_driver s))) < CONFIG_BATCH"
    and p: "p = page_at (kmem (nw_driver s)) page"
  shows "network_ok envs W bufs base
    (s\<lparr>nw_driver := d',
       nw_flight := send_page (ctrl_list (nw_driver s)) (ucast pageid) p (nw_flight s),
       nw_last := (nw_last s)(ucast pageid \<mapsto> p)\<rparr>)" (is "network_ok _ _ _ _ ?s")
proof -
  let ?d = "nw_driver s" and ?off = "ucast pageid :: u32"
  obtain mn where main: "main_ctrl ?d = Ctrl mn" using network_okD(3) [OF ok] by blast
  obtain d1 where d1: "maruswap_multicast_write env io page ?off ?d = Inr (0, d1)"
      "staged (stage_buffer d1) (kmem d1) = (staged (stage_buffer ?d) (kmem ?d))(?off \<mapsto> p)"
      "ctrls d1 = ctrls ?d" "ctrl_list d1 = ctrl_list ?d" "main_ctrl d1 = main_ctrl ?d"
    using write_common [OF network_okD(2) [OF ok] main op room io, of env page] p by blast
  then have d': "d' = d1" using st by (simp add: maruswap_store_def)
  have i: "same_infos ?d d'" using d1(3) d' by (simp add: same_infos_def)
  have "driver_ok base d'" using write_driver_ok [OF d1(1) network_okD(2) [OF ok]] d' by simp
  moreover have "servers_ok envs W bufs (d', nw_server s)"
    using servers_ok_cong [OF network_okD(1) [OF ok] _ i] servers_okD [OF network_okD(1) [OF ok]] d1(4) d' by simp
  moreover have "block_open (unat (get_num_memblock k)) d'" if "k \<in> dom (nw_last ?s)" for k
    using that op network_okD(4) [OF ok] block_open_cong i d1(4) d' by (fastforce split: if_splits)
  moreover have "nw_last ?s \<subseteq>\<^sub>m coming ?s n"
    "fst ` set (nw_flight ?s n) \<subseteq> dom (staged (stage_buffer d') (kmem d'))"
    if "n \<in> set (ctrl_list d')" for n
  proof -
    have n: "n \<in> set (ctrl_list ?d)" using that d1(4) d' by simp
    have "coming ?s n = (coming s n)(?off \<mapsto> p)" by (rule coming_send_page [OF n]) simp_all
    then show "nw_last ?s \<subseteq>\<^sub>m coming ?s n" using network_okD(5) [OF ok n] by (simp add: map_le_upd)
    show "fst ` set (nw_flight ?s n) \<subseteq> dom (staged (stage_buffer d') (kmem d'))"
      using network_okD(6) [OF ok n] n d1(2) d' by (auto simp: send_page_def)
  qed
  moreover have "nw_last ?s k = None \<or> nw_last ?s k = Some q"
    if "staged (stage_buffer d') (kmem d') k = Some q" for k q
    using that network_okD(7) [OF ok] d1(2) d' by (auto split: if_splits)
  ultimately show ?thesis using main d1(5) d' unfolding network_ok_def by simp
qed

lemma write_refused:
  assumes "driver_ok base d" "main_ctrl d = Ctrl mn" "block_open (unat (get_num_memblock off)) d"
    and "uint (atomic_read (drv_batch d)) < CONFIG_BATCH" "io_dma io = None \<or> io_post io \<noteq> 0"
    and "maruswap_multicast_write env io page off d = Inr (ret, d')"
  shows "stage_buffer d' = stage_buffer d \<and> kmem d' = kmem d \<and> ctrls d' = ctrls d
    \<and> ctrl_list d' = ctrl_list d \<and> main_ctrl d' = main_ctrl d"
proof -
  have "\<not> CONFIG_BATCH \<le> sint (atomic_read (drv_batch (drv_lock d)))"
    using assms(1,4) batch_sint [of "atomic_read (drv_batch d)"] by (simp add: driver_ok_def)
  then show ?thesis
    using assms(2,5,6) check_rdma_info_open [OF assms(3)]
    by (auto simp: maruswap_multicast_write_def deref_def get_main_rdma_ctrl_def get_req_for_page_def
        drv_multicast_send_def Let_def drv_lock_def drv_unlock_def ENOMEM_def split: option.splits if_splits)
qed

text \<open>Steps that change nothing but the driver, and there leave what is staged.\<close>

lemma quiet_step_ok:
  assumes ok: "network_ok envs W bufs base s"
    and "driver_ok base d'" "staged (stage_buffer d') (kmem d') = staged (stage_buffer (nw_driver s)) (kmem (nw_driver s))"
    and l: "ctrl_list d' = ctrl_list (nw_driver s)" "main_ctrl d' = main_ctrl (nw_driver s)"
      "same_infos (nw_driver s) d'"
    and m: "m = nw_last s \<or> m = (nw_last s)(off := None)"
  shows "network_ok envs W bufs base (s\<lparr>nw_driver := d', nw_last := m\<rparr>)"
proof -
  have le: "m \<subseteq>\<^sub>m nw_last s" using m by (auto simp: map_le_def split: if_splits)
  have sv: "servers_ok envs W bufs (d', nw_server s)"
    using servers_ok_cong [OF network_okD(1) [OF ok] l(1,3)] servers_okD [OF network_okD(1) [OF ok]] by simp
  have op: "block_open (unat (get_num_memblock k)) d'" if "k \<in> dom m" for k
    using that map_le_implies_dom_le [OF le] network_okD(4) [OF ok] block_open_cong [OF _ l(1,3)] by blast
  have "coming (s\<lparr>nw_driver := d', nw_last := m\<rparr>) n = coming s n" for n by (simp add: coming_def)
  then have "m \<subseteq>\<^sub>m coming (s\<lparr>nw_driver := d', nw_last := m\<rparr>) n" if "n \<in> set (ctrl_list (nw_driver s))" for n
    using map_le_trans [OF le network_okD(5) [OF ok that]] by simp
  moreover have "m k = None \<or> m k = Some q"
    if "staged (stage_buffer (nw_driver s)) (kmem (nw_driver s)) k = Some q" for k q
    using network_okD(7) [OF ok that] m by (auto split: if_splits)
  ultimately show ?thesis
    using network_okD(3,6) [OF ok] assms(2,3) l sv op unfolding network_ok_def by simp
qed

lemma refused_keeps_ok:
  assumes ok: "network_ok envs W bufs base s"
    and st: "maruswap_store env io pageid page (nw_driver s) = Inr (- 1, d')"
    and io: "io_dma io = None \<or> io_post io \<noteq> 0"
    and op: "block_open (unat (get_num_memblock (ucast pageid))) (nw_driver s)"
    and room: "uint (atomic_read (drv_batch (nw_driver s))) < CONFIG_BATCH"
  shows "network_ok envs W bufs base (s\<lparr>nw_driver := d', nw_last := (nw_last s)(ucast pageid := None)\<rparr>)"
proof -
  obtain mn where main: "main_ctrl (nw_driver s) = Ctrl mn" using network_okD(3) [OF ok] by blast
  obtain ret where w: "maruswap_multicast_write env io page (ucast pageid) (nw_driver s) = Inr (ret, d')"
    using st by (auto simp: maruswap_store_def rbind_Inr_iff split: if_splits)
  note k = write_refused [OF network_okD(2) [OF ok] main op room io w]
  show ?thesis
    using k write_driver_ok [OF w network_okD(2) [OF ok]] by (intro quiet_step_ok [OF ok]) (auto simp: same_infos_def)
qed

lemma deliver_keeps_ok:
  assumes ok: "network_ok envs W bufs base s"
    and fl: "nw_flight s n = (off, p) # rest" and sv: "serve_page (envs n) off p (nw_server s n) = Some v"
  shows "network_ok envs W bufs base
    (s\<lparr>nw_server := (nw_server s)(n := v), nw_flight := (nw_flight s)(n := rest)\<rparr>)" (is "network_ok _ _ _ _ ?s")
proof -
  note sok = network_okD(1) [OF ok]
  have "serving (envs k) (W k) (bufs k) (((nw_server s)(n := v)) k)" if "k \<in> set (ctrl_list (nw_driver s))" for k
    using servers_okD [OF sok that] far_memory.write_inv [OF _ sv, of "W n" "bufs n"] by (cases "k = n") simp_all
  then have "servers_ok envs W bufs (nw_driver s, (nw_server s)(n := v))"
    using servers_ok_cong [OF sok] by (simp add: same_infos_def)
  moreover have "nw_last s \<subseteq>\<^sub>m coming ?s k" if k: "k \<in> set (ctrl_list (nw_driver s))" for k
  proof (cases "k = n")
    case True
    have "coming s n \<subseteq>\<^sub>m coming ?s n"
      using coming_deliver [where envs = envs and s = s, OF _ fl sv] servers_okD [OF sok k] True by simp
    then show ?thesis using network_okD(5) [OF ok k] map_le_trans True by blast
  next
    case False
    then have "coming ?s k = coming s k" by (simp add: coming_def)
    then show ?thesis using network_okD(5) [OF ok k] by simp
  qed
  moreover have "fst ` set (nw_flight ?s k) \<subseteq> dom (staged (stage_buffer (nw_driver s)) (kmem (nw_driver s)))"
    if k: "k \<in> set (ctrl_list (nw_driver s))" for k
  proof -
    have "fst ` set (nw_flight ?s k) \<subseteq> fst ` set (nw_flight s k)" by (auto simp: fl)
    then show ?thesis using network_okD(6) [OF ok k] by (rule subset_trans)
  qed
  ultimately show ?thesis
    using network_okD(2-4,7) [OF ok] unfolding network_ok_def by simp
qed

lemma commit_keeps_ok:
  assumes ok: "network_ok envs W bufs base s" and quiet: "\<forall>n. nw_flight s n = []"
    and ready: "ready_to_commit (nw_driver s) (nw_server s)"
    and cm: "system_commit env envs rid (nw_driver s, nw_server s) = Some (d', srv')"
  shows "network_ok envs W bufs base (s\<lparr>nw_driver := d', nw_server := srv'\<rparr>)" (is "network_ok _ _ _ _ ?s")
proof -
  have "ib_rpc_commit_all env (nw_driver s) = Inr (0, d')"
    using cm by (auto simp: system_commit_def split: sum.splits if_splits option.splits)
  from commit_keeps_pages [OF network_okD(1,2) [OF ok] this ready, of rid] cm
  have k: "servers_ok envs W bufs (d', srv')" "driver_ok base d'"
      "\<forall>n \<in> set (ctrl_list (nw_driver s)). far (srv' n) = far (nw_server s n)"
      "staged (stage_buffer d') (kmem d') = Map.empty" "ctrl_list d' = ctrl_list (nw_driver s)"
      "main_ctrl d' = main_ctrl (nw_driver s)" "same_infos (nw_driver s) d'"
    by auto
  have "nw_last s \<subseteq>\<^sub>m coming ?s n" if "n \<in> set (ctrl_list d')" for n
  proof -
    have n: "n \<in> set (ctrl_list (nw_driver s))" using that k(5) by simp
    then have "coming ?s n = coming s n" using k(3) by (simp add: coming_def)
    then show ?thesis using network_okD(5) [OF ok n] by simp
  qed
  moreover have "block_open (unat (get_num_memblock off)) d'" if "off \<in> dom (nw_last s)" for off
    using network_okD(4) [OF ok that] block_open_cong k(5,7) by blast
  ultimately show ?thesis
    using k quiet network_okD(3) [OF ok] unfolding network_ok_def by simp
qed

lemma off_stage_put:
  assumes "stage_ok base sb" "off_stage base a"
  shows "staged sb (put_page m a p) = staged sb m" "staged sb (memcpy m a src PAGE_SIZE) = staged sb m"
  using assms by (auto intro!: staged_cong simp: off_stage_def page_at_put_page_apart page_at_memcpy_apart)

lemma kernel_keeps_ok:
  assumes ok: "network_ok envs W bufs base s" and a: "off_stage base a"
  shows "network_ok envs W bufs base (s\<lparr>nw_driver := (nw_driver s)\<lparr>kmem := put_page (kmem (nw_driver s)) a p\<rparr>\<rparr>)"
proof -
  have "stage_ok base (stage_buffer (nw_driver s))" using network_okD(2) [OF ok] by (simp add: driver_ok_def)
  from off_stage_put(1) [OF this a] show ?thesis
    using network_okD(2) [OF ok] quiet_step_ok [OF ok, of "(nw_driver s)\<lparr>kmem := put_page (kmem (nw_driver s)) a p\<rparr>" "nw_last s"]
    by (simp add: driver_ok_def same_infos_def)
qed

lemma load_keeps_ok:
  assumes ok: "network_ok envs W bufs base s" and a: "off_stage base page"
    and ld: "system_load io pageid page (nw_driver s, nw_server s) = Some (p, d')"
  shows "network_ok envs W bufs base (s\<lparr>nw_driver := d'\<lparr>kmem := put_page (kmem d') page p\<rparr>\<rparr>)"
proof -
  obtain ret where "maruswap_rdma_read io page (ucast pageid) (nw_driver s) = Inr (ret, d')"
    using ld by (auto simp: system_load_def maruswap_load_def rbind_Inr_iff
        split: sum.splits if_splits ctrl_ptr.splits)
  note k = read_keeps [OF this]
  have st: "stage_ok base (stage_buffer (nw_driver s))" using network_okD(2) [OF ok] by (simp add: driver_ok_def)
  have "staged (stage_buffer (nw_driver s)) (kmem d') = staged (stage_buffer (nw_driver s)) (kmem (nw_driver s))"
    using k off_stage_put(2) [OF st a] by auto
  then have "staged (stage_buffer d') (put_page (kmem d') page p)
      = staged (stage_buffer (nw_driver s)) (kmem (nw_driver s))"
    using k off_stage_put(1) [OF st a] by simp
  then show ?thesis
    using k network_okD(2) [OF ok] quiet_step_ok [OF ok, of "d'\<lparr>kmem := put_page (kmem d') page p\<rparr>" "nw_last s"]
    by (simp add: driver_ok_def same_infos_def)
qed

text \<open>After an open the driver's address of the block is the server's, and no page is lost.\<close>

lemma open_keeps_ok:
  assumes ok: "network_ok envs W bufs base s" and n: "n \<in> set (ctrl_list (nw_driver s))"
    and sv: "process_rpc_open (envs n) w (nw_server s n) = Inr v"
    and im: "imm_data w = rpc_imm (open_opcode off) (of_nat b)"
    and reply: "replies v = replies (nw_server s n) @ [(imm_data w, Open_Info a key)]"
    and len: "length (drv_binders (nw_driver s)) = NR_BINDERS" and off: "off < 2 ^ 28"
    and new: "rkey (rdma_info (ctrls (nw_driver s) n) ! unat (get_num_memblock off)) = 0"
    and get: "get_binder (e_draws (env (calls (nw_driver s)))) (drv_binders (nw_driver s)) = Inr (b, rs, bs)"
    and fits: "(off AND 0xff) OR of_nat b = of_nat b"
    and srv: "serves (env (calls (nw_driver s))) b pre u" "imm_data u = imm_data w"
    and rw: "e_rws (env (calls (nw_driver s))) (wr_id u) = Some \<lparr>remote_addr = a, rkey = key\<rparr>"
    and op: "ib_rpc_open env n off (nw_driver s) = Inr (ret, d')"
  shows "network_ok envs W bufs base (s\<lparr>nw_driver := d', nw_server := (nw_server s)(n := v)\<rparr>)"
    (is "network_ok _ _ _ _ ?s")
proof -
  let ?d = "nw_driver s" and ?nr = "unat (get_num_memblock off)"
  note sok = network_okD(1) [OF ok]
  have serving: "serving (envs n) (W n) (bufs n) (nw_server s n)" by (rule servers_okD [OF sok n])
  then have sok_n: "server_ok (envs n) (W n) (bufs n) (nw_server s n)" by (simp add: serving_def)
  have infos: "length (rdma_info (ctrls ?d k)) = MAX_MEMBLOCK"
    "\<forall>nr < MAX_MEMBLOCK. rkey (rdma_info (ctrls ?d k) ! nr) \<noteq> 0 \<longrightarrow>
       remote_addr (rdma_info (ctrls ?d k) ! nr) = mmap_ret (envs k nr)" if "k \<in> set (ctrl_list ?d)" for k
    using sok that by (simp_all add: servers_ok_def)
  have b: "(of_nat b :: u32) < 256"
    using get_binder_result [OF get] by (simp add: NR_BINDERS_def word_less_nat_alt unat_of_nat)
  have nr: "open_block (imm_data w) = ?nr"
    using open_fields(2) [OF b off] by (simp add: im open_block_def)
  from process_rpc_open_ok [OF sv sok_n] reply
  have o: "?nr < MAX_MEMBLOCK" "a = mmap_ret (envs n ?nr)" by (auto simp: nr)
  have bounds: "?nr < length (rdma_info (ctrls ?d n))" "?nr < MAX_BLOCKS"
    using o(1) infos(1) [OF n] by (simp_all add: MAX_MEMBLOCK_def MAX_BLOCKS_def)
  have "imm_data u = rpc_imm (open_opcode off) (of_nat b)" using srv(2) im by simp
  from open_served [where env = env and d = ?d and w = u, OF len bounds(1) new off bounds(2) get srv(1) this fits rw] op
  have inf: "rdma_info (ctrls d' n) = (rdma_info (ctrls ?d n))[?nr := \<lparr>remote_addr = a, rkey = key\<rparr>]" by auto
  have other: "rdma_info (ctrls d' k) = rdma_info (ctrls ?d k)" if "k \<noteq> n" for k
    using open_other_infos [OF op that] .
  have core: "same_core ?d d'" using open_unlocked_frame op by (simp add: ib_rpc_open_def)
  from process_rpc_open_serving [OF sv serving] have v: "serving (envs n) (W n) (bufs n) v" "far (nw_server s n) \<subseteq>\<^sub>m far v" by auto
  have "servers_ok envs W bufs (d', (nw_server s)(n := v))"
    unfolding servers_ok_def
    using sok core v(1) inf other infos o by (auto simp: servers_ok_def same_core_def nth_list_update)
  moreover have "block_open nr d'" if "block_open nr ?d" for nr
    using that new core inf other unfolding block_open_def same_core_def
    by (metis nth_list_update_neq)
  moreover have "coming s k \<subseteq>\<^sub>m coming ?s k" for k
    using v(2) by (cases "k = n") (auto simp: coming_def map_le_def map_add_def dom_def split: option.splits)
  then have "nw_last s \<subseteq>\<^sub>m coming ?s k" if "k \<in> set (ctrl_list ?d)" for k
    using network_okD(5) [OF ok that] map_le_trans by blast
  ultimately show ?thesis
    using network_okD(2-4,6,7) [OF ok] core driver_ok_same_core [OF core] unfolding network_ok_def same_core_def
    by simp
qed

lemma network_step_ok:
  assumes "network_step envs base s s'" "network_ok envs W bufs base s"
  shows "network_ok envs W bufs base s'"
  using assms(1)
proof cases
  case (nw_open n w v off b a key env rs bs pre u ret d')
  then show ?thesis using open_keeps_ok [OF assms(2)] by simp
next
  case (nw_store env io pageid page d' dma p)
  then show ?thesis using store_keeps_ok [OF assms(2)] by simp
next
  case (nw_refused env io pageid page d')
  then show ?thesis using refused_keeps_ok [OF assms(2)] by simp
next
  case (nw_deliver n off p rest v)
  then show ?thesis using deliver_keeps_ok [OF assms(2)] by simp
next
  case (nw_commit env rid d' srv')
  then show ?thesis using commit_keeps_ok [OF assms(2)] by simp
next
  case (nw_load io pageid page p d')
  then show ?thesis using load_keeps_ok [OF assms(2)] by simp
next
  case (nw_kernel page p)
  then show ?thesis using kernel_keeps_ok [OF assms(2)] by simp
qed

lemma network_reach_ok: "network_reach envs W bufs base s \<Longrightarrow> network_ok envs W bufs base s"
  by (induction rule: network_reach.induct) (auto intro: network_start_ok network_step_ok)

section \<open>Loads\<close>

text \<open>A page that was stored is staged, or has reached every server.\<close>

lemma staged_or_far:
  assumes ok: "network_ok envs W bufs base s" and last: "nw_last s off = Some p"
    and n: "n \<in> set (ctrl_list (nw_driver s))"
  shows "staged (stage_buffer (nw_driver s)) (kmem (nw_driver s)) off = Some p
    \<or> (staged (stage_buffer (nw_driver s)) (kmem (nw_driver s)) off = None \<and> far (nw_server s n) off = Some p)"
proof (cases "staged (stage_buffer (nw_driver s)) (kmem (nw_driver s)) off")
  case None
  then have "off \<notin> fst ` set (nw_flight s n)" using network_okD(6) [OF ok n] by auto
  then have "map_of (rev (nw_flight s n)) off = None" by (simp add: map_of_eq_None_iff)
  moreover have "coming s n off = Some p"
    using network_okD(5) [OF ok n] last by (metis domI map_le_def)
  ultimately show ?thesis using None by (simp add: coming_def map_add_def)
next
  case (Some q)
  then show ?thesis using network_okD(7) [OF ok Some] last by simp
qed

lemma network_load:
  assumes ok: "network_ok envs W bufs base s" and last: "nw_last s (ucast pageid) = Some p"
    and target: "read_target io (nw_driver s) = Ctrl n" "n \<in> set (ctrl_list (nw_driver s))"
    and io: "io_good io dma"
  shows "\<exists>d'. system_load io pageid page (nw_driver s, nw_server s) = Some (p, d')"
  using staged_or_far [OF ok last target(2)]
proof
  assume "staged (stage_buffer (nw_driver s)) (kmem (nw_driver s)) (ucast pageid) = Some p"
  then show ?thesis using load_staged target(1) by blast
next
  assume h: "staged (stage_buffer (nw_driver s)) (kmem (nw_driver s)) (ucast pageid) = None
    \<and> far (nw_server s n) (ucast pageid) = Some p"
  then show ?thesis
    using load_remote [OF network_okD(1) [OF ok] _ target _ network_okD(4) [OF ok] io] last by blast
qed

end
