(* ===== verification/Driver_Setup.thy ===== *)
theory Driver_Setup
  imports Driver
begin

text \<open>
  How the kernel module connects and shuts down (\<open>drive/sib.c\<close>, \<open>drive/ib.h\<close>): the handlers
  of connection-manager events for an RDMA connection and for the multicast group, the
  creation of both, module load and unload.

  \<open>conn\<close> is a connection with the list of kernel calls made for it. What the kernel's
  allocation functions return is an argument (\<open>setup_env\<close>); freeing an error pointer is the
  fault \<open>Bad_Pointer\<close>. While a thread waits for \<open>cm_done\<close> the connection manager delivers
  events, which are a list argument; a wait whose events run out is the timeout, after which
  the code goes on.
\<close>

unbundle bit_operations_syntax

section \<open>Kernel calls\<close>

datatype qp_type = QPT_RC | QPT_UD

record qp_attrs =
  qa_type :: qp_type
  qa_send_cq :: ptr
  qa_recv_cq :: ptr
  qa_events :: bool
  qa_max_send_wr :: nat
  qa_max_recv_wr :: nat
  qa_max_send_sge :: nat
  qa_max_recv_sge :: nat
  qa_max_inline :: nat

datatype kcall =
    Create_Qp qp_attrs | Destroy_Qp
  | Resolve_Addr | Resolve_Route | Connect nat nat nat nat | Create_Id | Destroy_Id
  | Dealloc_Pd ptr | Free_Cq ptr | Dereg_Mr ptr | Kfree addr | Destroy_Xarray
  | Join_Multicast nat | Leave_Multicast | Create_Ah | Free_Ud
  | Register_Client | Unregister_Client

record conn = rdma_ctrl_t + trace :: "kcall list"

definition emit :: "kcall \<Rightarrow> conn \<Rightarrow> conn" where
  "emit k c = c\<lparr>trace := trace c @ [k]\<rparr>"

definition ECONNRESET :: int where "ECONNRESET = 104"
definition MARUSWAP_MAX_SEND_WR :: nat where "MARUSWAP_MAX_SEND_WR = 2 ^ 12"
definition MARUSWAP_MAX_RECV_WR :: nat where "MARUSWAP_MAX_RECV_WR = 2 ^ 12"
definition NR_RECV :: nat where "NR_RECV = 32"
definition RPC_MAX_EACH_SIZE :: u64 where "RPC_MAX_EACH_SIZE = (2 * PAGE_SIZE) div 32"

text \<open>What the kernel answers.\<close>

record setup_env =
  v_pd :: ptr
  v_mr :: ptr
  v_snd_cq :: ptr
  v_rcv_cq :: ptr
  v_qp :: int
  v_route :: int
  v_connect :: int
  v_rcv_buffer :: addr
  v_dma1 :: "addr option"
  v_dma2 :: "addr option"
  v_rw :: "nat \<Rightarrow> bool"
  v_post :: "nat \<Rightarrow> int"
  v_join :: int
  v_ud :: bool
  v_ah :: ptr

text \<open>\<open>if(cq) ib_free_cq(cq)\<close>, and the unconditional frees.\<close>

definition free_cq_if :: "ptr \<Rightarrow> conn \<Rightarrow> conn result" where
  "free_cq_if p c =
     (case p of P_Null \<Rightarrow> Inr c | P_Err \<Rightarrow> Inl Bad_Pointer | P_Live \<Rightarrow> Inr (emit (Free_Cq p) c))"

section \<open>Requests and buffers\<close>

definition get_req_for_buf :: "addr option \<Rightarrow> int \<times> addr" where
  "get_req_for_buf dma = (case dma of None \<Rightarrow> (- ENOMEM, 0) | Some a \<Rightarrow> (0, a))"

section \<open>Events of an RDMA connection\<close>

definition rdma_ctrl_create_qp :: "setup_env \<Rightarrow> conn \<Rightarrow> int \<times> conn" where
  "rdma_ctrl_create_qp e c =
     (let attrs = \<lparr>qa_type = QPT_RC, qa_send_cq = rc_snd_cq c, qa_recv_cq = rc_rcv_cq c,
                   qa_events = True, qa_max_send_wr = MARUSWAP_MAX_SEND_WR,
                   qa_max_recv_wr = MARUSWAP_MAX_RECV_WR, qa_max_send_sge = 1, qa_max_recv_sge = 1,
                   qa_max_inline = 64\<rparr>;
          ret = v_qp e
      in (ret, (emit (Create_Qp attrs) c)\<lparr>rc_qp := (if ret = 0 then P_Live else P_Null)\<rparr>))"

definition rdma_addr_resolved :: "setup_env \<Rightarrow> conn \<Rightarrow> (int \<times> conn) result" where
  "rdma_addr_resolved e c =
     (let out_alloc_cq = (\<lambda>c. rbind (free_cq_if (rc_rcv_cq c) c) (\<lambda>c.
                         rbind (free_cq_if (rc_snd_cq c) c) (\<lambda>c. Inr (- EINVAL, c))));
          out_alloc_qp = (\<lambda>c. out_alloc_cq (emit (Dealloc_Pd (rc_pd c)) c));
          c1 = c\<lparr>rc_pd := v_pd e\<rparr>
      in
      if rc_pd c1 = P_Err then Inr (- EINVAL, c1)
      else let c2 = c1\<lparr>rc_mr := v_mr e\<rparr> in
      if rc_mr c2 = P_Err then Inr (- EINVAL, c2)
      else let c3 = c2\<lparr>rc_snd_cq := v_snd_cq e\<rparr> in
      if rc_snd_cq c3 = P_Err then out_alloc_cq c3
      else let c4 = c3\<lparr>rc_rcv_cq := v_rcv_cq e\<rparr> in
      if rc_rcv_cq c4 = P_Err then out_alloc_cq c4
      else let (ret, c5) = rdma_ctrl_create_qp e c4 in
      if ret \<noteq> 0 then out_alloc_qp c5
      else let c6 = emit Resolve_Route c5; ret = v_route e in
      if ret \<noteq> 0 then out_alloc_qp c6
      else Inr (ret, c6))"

definition rdma_route_resolved :: "setup_env \<Rightarrow> conn \<Rightarrow> int \<times> conn" where
  "rdma_route_resolved e c =
     (let c1 = emit (Connect 16 16 7 7) c; ret = v_connect e in
      if ret \<noteq> 0 then (- EINVAL, emit Destroy_Qp c1) else (ret, c1))"

text \<open>The receive work requests, one 256-byte buffer each, are posted one after the other.\<close>

fun post_recvs :: "setup_env \<Rightarrow> addr \<Rightarrow> nat list \<Rightarrow> conn \<Rightarrow> (int \<times> conn) result" where
  "post_recvs e dma [] c = Inr (0, c)"
| "post_recvs e dma (i # is) c =
     (if \<not> v_rw e i then Inl Null_Pointer
      else
        let rw = \<lparr>w_id = i, w_size = RPC_MAX_EACH_SIZE,
                  w_buffer = rcv_buffer c + of_nat i * RPC_MAX_EACH_SIZE,
                  w_sge_addr = dma + of_nat i * RPC_MAX_EACH_SIZE,
                  w_sge_length = RPC_MAX_EACH_SIZE\<rparr>;
            ret = v_post e i
        in if ret \<noteq> 0 then Inr (- EINVAL, c)
           else post_recvs e dma is (c\<lparr>rc_works := rc_works c @ [rw]\<rparr>))"

definition rdma_connect_established :: "setup_env \<Rightarrow> conn \<Rightarrow> (int \<times> conn) result" where
  "rdma_connect_established e c =
     (let c1 = c\<lparr>rcv_buffer := v_rcv_buffer e\<rparr> in
      if rcv_buffer c1 = NULL then Inr (1, c1)
      else let (ret, dma) = get_req_for_buf (v_dma1 e) in
      if ret \<noteq> 0 then Inr (ret, c1)
      else let (ret, dma2) = get_req_for_buf (v_dma2 e) in
      if ret \<noteq> 0 then Inr (ret, c1)
      else rbind (post_recvs e dma [0..<NR_RECV] (c1\<lparr>dma_buffer := dma2\<rparr>)) (\<lambda>(ret, c2).
        if ret \<noteq> 0 then Inr (ret, c2) else Inr (0, c2\<lparr>alive := True\<rparr>)))"

datatype cm_event =
    ADDR_RESOLVED | ROUTE_RESOLVED | ESTABLISHED | REJECTED | ADDR_ERROR | ROUTE_ERROR
  | CONNECT_ERROR | UNREACHABLE | DISCONNECTED | ADDR_CHANGE | TIMEWAIT_EXIT | DEVICE_REMOVAL
  | MULTICAST_JOIN | MULTICAST_ERROR | CONNECT_REQUEST | OTHER_EVENT

definition complete :: "conn \<Rightarrow> conn" where
  "complete c = c\<lparr>cm_done := cm_done c + 1\<rparr>"

definition ib_rdma_cm_handler :: "cm_event \<Rightarrow> setup_env \<Rightarrow> conn \<Rightarrow> (int \<times> conn) result" where
  "ib_rdma_cm_handler ev e c =
     rbind (case ev of
              ADDR_RESOLVED \<Rightarrow> rdma_addr_resolved e c
            | ROUTE_RESOLVED \<Rightarrow> Inr (rdma_route_resolved e c)
            | ESTABLISHED \<Rightarrow> rbind (rdma_connect_established e c) (\<lambda>(err, c'). Inr (err, complete c'))
            | REJECTED \<Rightarrow> Inr (- EINVAL, c)
            | ADDR_ERROR \<Rightarrow> Inr (- ECONNRESET, c)
            | ROUTE_ERROR \<Rightarrow> Inr (- ECONNRESET, c)
            | CONNECT_ERROR \<Rightarrow> Inr (- ECONNRESET, c)
            | UNREACHABLE \<Rightarrow> Inr (- ECONNRESET, c)
            | _ \<Rightarrow> Inr (0, c))
       (\<lambda>(err, c1).
          let c2 = (if err \<noteq> 0 then complete (c1\<lparr>cm_error := err\<rparr>) else c1)
          in Inr (if cm_error c2 \<noteq> 0 then cm_error c2 else 0, c2))"

text \<open>Waiting: events are handled until \<open>cm_done\<close> is completed, or the timeout.\<close>

fun rdma_ctrl_wait_for_cm :: "(cm_event \<times> setup_env) list \<Rightarrow> conn \<Rightarrow> (int \<times> conn) result" where
  "rdma_ctrl_wait_for_cm [] c = Inr (cm_error c, c)"
| "rdma_ctrl_wait_for_cm ((ev, e) # evs) c =
     (if cm_done c > 0 then Inr (cm_error c, c)
      else rbind (ib_rdma_cm_handler ev e c) (\<lambda>(_, c'). rdma_ctrl_wait_for_cm evs c'))"

section \<open>Addresses\<close>

definition INET_ADDRSTRLEN :: nat where "INET_ADDRSTRLEN = 16"

text \<open>\<open>pton\<close> is the kernel's \<open>in4_pton\<close>.\<close>

definition parse_ipaddr :: "(string \<Rightarrow> u32 option) \<Rightarrow> string \<Rightarrow> int \<times> u32 option" where
  "parse_ipaddr pton ip =
     (if length ip > INET_ADDRSTRLEN then (- EINVAL, None)
      else (case pton ip of None \<Rightarrow> (- EINVAL, None) | Some a \<Rightarrow> (0, Some a)))"

section \<open>Creating a connection\<close>

record create_env =
  n_ctrl :: bool             \<comment> \<open>\<open>kzalloc\<close> of the \<open>rdma_ctrl_t\<close>\<close>
  n_buffer :: addr
  n_id :: ptr
  n_resolve :: int
  n_events :: "(cm_event \<times> setup_env) list"

definition zero_conn :: conn where
  "zero_conn = \<lparr>alive = False, rc_id = 0, rc_rdma = P_Null, rc_qp = P_Null, rc_snd_cq = P_Null,
     rc_rcv_cq = P_Null, rc_pd = P_Null, rc_mr = P_Null, rc_buffer = NULL, rcv_buffer = NULL,
     cm_error = 0, cm_done = 0, rc_works = [], rdma_info = replicate MAX_BLOCKS no_info,
     rc_commit = 0, req_info = no_info, dma_buffer = 0, rc_lkey = 0, rc_sent = [], rc_rq = [],
     trace = []\<rparr>"

text \<open>\<open>set_rdma\<close> hangs connection \<open>n\<close> in the list, at its front.\<close>

definition set_rdma :: "nat \<Rightarrow> conn \<Rightarrow> nat list \<Rightarrow> conn \<times> nat list" where
  "set_rdma n c list = (c\<lparr>alive := False\<rparr>, n # list)"

text \<open>
  The connection is returned whether or not it was established; it is \<open>None\<close> when
  something before the wait failed. The list is returned too: the connection stays in it.
\<close>

definition init_rdma_ctrl ::
  "create_env \<Rightarrow> (string \<Rightarrow> u32 option) \<Rightarrow> string \<Rightarrow> string \<Rightarrow> nat \<Rightarrow> nat list
   \<Rightarrow> (bool \<times> conn \<times> nat list) result" where
  "init_rdma_ctrl v pton src_ip ip n list =
     (if \<not> n_ctrl v then Inr (False, zero_conn, list)
      else
        let (c1, list') = set_rdma n (zero_conn\<lparr>rc_id := int n\<rparr>) list;
            c2 = c1\<lparr>rc_buffer := n_buffer v\<rparr>
        in
        if rc_buffer c2 = NULL then Inr (False, c2, list')
        else
          let c3 = emit Create_Id (c2\<lparr>rc_rdma := n_id v\<rparr>);
              out_alloc_buffer = (\<lambda>c. if rc_rdma c = P_Live
                 then Inr (False, emit Destroy_Id c, list') else Inl Bad_Pointer)
          in
          if fst (parse_ipaddr pton ip) \<noteq> 0 then out_alloc_buffer c3
          else if fst (parse_ipaddr pton src_ip) \<noteq> 0 then out_alloc_buffer c3
          else if rc_rdma c3 \<noteq> P_Live then Inl Bad_Pointer
          else let c4 = emit Resolve_Addr c3 in
          if n_resolve v \<noteq> 0 then out_alloc_buffer c4
          else rbind (rdma_ctrl_wait_for_cm (n_events v) c4) (\<lambda>(_, c5). Inr (True, c5, list')))"


section \<open>The multicast group\<close>

record multicast_ctrl_t =
  m_multicast :: ptr
  m_qp :: ptr
  m_snd_cq :: ptr
  m_rcv_cq :: ptr
  m_pd :: ptr
  m_mr :: ptr
  m_ud :: "multicast_dest option"
  m_ud_qp :: ptr
  m_cm_error :: int
  m_cm_done :: nat
  m_trace :: "kcall list"

definition m_emit :: "kcall \<Rightarrow> multicast_ctrl_t \<Rightarrow> multicast_ctrl_t" where
  "m_emit k m = m\<lparr>m_trace := m_trace m @ [k]\<rparr>"

definition m_free_cq_if :: "ptr \<Rightarrow> multicast_ctrl_t \<Rightarrow> multicast_ctrl_t result" where
  "m_free_cq_if p m =
     (case p of P_Null \<Rightarrow> Inr m | P_Err \<Rightarrow> Inl Bad_Pointer | P_Live \<Rightarrow> Inr (m_emit (Free_Cq p) m))"

definition multicast_ctrl_create_qp :: "setup_env \<Rightarrow> multicast_ctrl_t \<Rightarrow> int \<times> multicast_ctrl_t" where
  "multicast_ctrl_create_qp e m =
     (let attrs = \<lparr>qa_type = QPT_UD, qa_send_cq = m_snd_cq m, qa_recv_cq = m_rcv_cq m,
                   qa_events = False, qa_max_send_wr = MARUSWAP_MAX_SEND_WR,
                   qa_max_recv_wr = MARUSWAP_MAX_RECV_WR, qa_max_send_sge = 1, qa_max_recv_sge = 1,
                   qa_max_inline = 64\<rparr>;
          ret = v_qp e
      in (ret, (m_emit (Create_Qp attrs) m)\<lparr>m_qp := (if ret = 0 then P_Live else P_Null)\<rparr>))"

definition multicast_addr_resolved :: "setup_env \<Rightarrow> multicast_ctrl_t \<Rightarrow> int \<times> multicast_ctrl_t" where
  "multicast_addr_resolved e m =
     (let m1 = m\<lparr>m_pd := v_pd e\<rparr> in
      if m_pd m1 = P_Err then (- EINVAL, m1)
      else let m2 = m_emit (Join_Multicast 1) m1; ret = v_join e in
      if ret \<noteq> 0 then (- EINVAL, m_emit (Dealloc_Pd (m_pd m2)) m2) else (ret, m2))"

definition multicast_route_resolved :: "setup_env \<Rightarrow> multicast_ctrl_t \<Rightarrow> int \<times> multicast_ctrl_t" where
  "multicast_route_resolved e m =
     (let m1 = m_emit (Join_Multicast 0) m; ret = v_join e in
      if ret \<noteq> 0 then (- EINVAL, m1) else (ret, m1))"

definition multicast_connect_established :: "multicast_ctrl_t \<Rightarrow> int \<times> multicast_ctrl_t" where
  "multicast_connect_established m = (0, m)"

text \<open>\<open>dest\<close> is the address handle, queue pair number and key of the join event.\<close>

definition multicast_ctrl_joined ::
  "setup_env \<Rightarrow> multicast_dest \<Rightarrow> multicast_ctrl_t \<Rightarrow> (int \<times> multicast_ctrl_t) result" where
  "multicast_ctrl_joined e dest m =
     (let out_alloc_cq = (\<lambda>m. rbind (m_free_cq_if (m_rcv_cq m) m) (\<lambda>m.
                         rbind (m_free_cq_if (m_snd_cq m) m) (\<lambda>m. Inr (- EINVAL, m))))
      in
      if \<not> v_ud e then Inr (- EINVAL, m)
      else let m1 = m_emit Create_Ah m in
      if v_ah e = P_Err then Inr (- EINVAL, m_emit Free_Ud m1)
      else let m2 = m1\<lparr>m_ud := Some dest, m_snd_cq := v_snd_cq e\<rparr> in
      if m_snd_cq m2 = P_Err then out_alloc_cq m2
      else let m3 = m2\<lparr>m_rcv_cq := v_rcv_cq e\<rparr> in
      if m_rcv_cq m3 = P_Err then out_alloc_cq m3
      else let (ret, m4) = multicast_ctrl_create_qp e m3
           in Inr (0, m4\<lparr>m_ud_qp := m_qp m4\<rparr>))"

definition m_complete :: "multicast_ctrl_t \<Rightarrow> multicast_ctrl_t" where
  "m_complete m = m\<lparr>m_cm_done := m_cm_done m + 1\<rparr>"

definition ib_multicast_cm_handler ::
  "cm_event \<Rightarrow> setup_env \<Rightarrow> multicast_dest \<Rightarrow> multicast_ctrl_t \<Rightarrow> (int \<times> multicast_ctrl_t) result" where
  "ib_multicast_cm_handler ev e dest m =
     rbind (case ev of
              ADDR_RESOLVED \<Rightarrow> Inr (multicast_addr_resolved e m)
            | ROUTE_RESOLVED \<Rightarrow> Inr (multicast_route_resolved e m)
            | ESTABLISHED \<Rightarrow> Inr (multicast_connect_established m)
            | ADDR_ERROR \<Rightarrow> Inr (- ECONNRESET, m)
            | ROUTE_ERROR \<Rightarrow> Inr (- ECONNRESET, m)
            | CONNECT_ERROR \<Rightarrow> Inr (- ECONNRESET, m)
            | UNREACHABLE \<Rightarrow> Inr (- ECONNRESET, m)
            | MULTICAST_JOIN \<Rightarrow>
                rbind (multicast_ctrl_joined e dest m) (\<lambda>(err, m'). Inr (err, m_complete m'))
            | MULTICAST_ERROR \<Rightarrow> Inr (- ECONNRESET, m)
            | _ \<Rightarrow> Inr (0, m))
       (\<lambda>(err, m1).
          let m2 = (if err \<noteq> 0 then m_complete (m1\<lparr>m_cm_error := err\<rparr>) else m1)
          in Inr (0, m2))"

fun multicast_wait :: "(cm_event \<times> setup_env \<times> multicast_dest) list \<Rightarrow> multicast_ctrl_t
  \<Rightarrow> multicast_ctrl_t result" where
  "multicast_wait [] m = Inr m"
| "multicast_wait ((ev, e, dest) # evs) m =
     (if m_cm_done m > 0 then Inr m
      else rbind (ib_multicast_cm_handler ev e dest m) (\<lambda>(_, m'). multicast_wait evs m'))"

definition zero_multicast :: multicast_ctrl_t where
  "zero_multicast = \<lparr>m_multicast = P_Null, m_qp = P_Null, m_snd_cq = P_Null, m_rcv_cq = P_Null,
     m_pd = P_Null, m_mr = P_Null, m_ud = None, m_ud_qp = P_Null, m_cm_error = 0, m_cm_done = 0,
     m_trace = []\<rparr>"

text \<open>Whether the group was joined is not looked at: the result of \<open>rdma_resolve_addr\<close> is returned.\<close>

definition init_multicast_ctrl ::
  "ptr \<Rightarrow> int \<Rightarrow> (cm_event \<times> setup_env \<times> multicast_dest) list \<Rightarrow> (string \<Rightarrow> u32 option)
   \<Rightarrow> string \<Rightarrow> string \<Rightarrow> (int \<times> multicast_ctrl_t) result" where
  "init_multicast_ctrl mid resolve events pton multicast_ip src_ip =
     (let m1 = m_emit Create_Id (zero_multicast\<lparr>m_multicast := mid\<rparr>) in
      if m_multicast m1 = P_Err then Inr (- EINVAL, m1)
      else if fst (parse_ipaddr pton multicast_ip) \<noteq> 0 then Inr (- EINVAL, m_emit Destroy_Id m1)
      else if fst (parse_ipaddr pton src_ip) \<noteq> 0 then Inr (- EINVAL, m_emit Destroy_Id m1)
      else let m2 = m_emit Resolve_Addr m1 in
      if resolve \<noteq> 0 then Inr (- EINVAL, m_emit Destroy_Id m2)
      else rbind (multicast_wait events m2) (\<lambda>m3. Inr (resolve, m3)))"

section \<open>Module load and unload\<close>

text \<open>
  The module's own state: the connections made so far, by number, the list, the main
  connection, the staging buffer, the pool, the group and the calls not tied to a connection.
\<close>

record module_state =
  k_conns :: "nat \<Rightarrow> conn"
  k_list :: "nat list"
  k_main :: ctrl_ptr
  k_batch :: atomic_t
  k_stage :: stage_buffer_t
  k_binders :: binders
  k_multicast :: multicast_ctrl_t
  k_trace :: "kcall list"

definition init_ctrl :: "module_state \<Rightarrow> module_state" where
  "init_ctrl k =
     k\<lparr>k_conns := (\<lambda>_. zero_conn), k_list := [], k_main := Null_Ctrl,
       k_batch := atomic_set (k_batch k) 0,
       k_stage := \<lparr>sb_buffer = NULL, sb_index = 0, sb_check_list = [], sb_count = 0\<rparr>,
       k_multicast := zero_multicast\<rparr>"

record load_env =
  l_main :: create_env
  l_sub :: create_env
  l_mid :: ptr
  l_resolve :: int
  l_events :: "(cm_event \<times> setup_env \<times> multicast_dest) list"
  l_stage :: addr

text \<open>
  When a connection cannot be created the error message reads the id of the NULL connection.
  The value returned on success is the second connection's \<open>cm_error\<close>.
\<close>

definition init_ib ::
  "load_env \<Rightarrow> (string \<Rightarrow> u32 option) \<Rightarrow> string \<Rightarrow> string \<Rightarrow> string \<Rightarrow> string \<Rightarrow> module_state
   \<Rightarrow> (int \<times> module_state) result" where
  "init_ib v pton fip sip src_ip multicast_ip k =
     (let k1 = init_ctrl k;
          k2 = k1\<lparr>k_binders := init_binder (k_binders k1), k_trace := k_trace k1 @ [Register_Client]\<rparr>
      in
      rbind (init_rdma_ctrl (l_main v) pton src_ip fip 0 (k_list k2)) (\<lambda>(made, c, list).
      let k3 = k2\<lparr>k_conns := (k_conns k2)(0 := c), k_list := list\<rparr> in
      if \<not> made then Inl Null_Pointer
      else
        let k4 = k3\<lparr>k_main := Ctrl 0\<rparr> in
        rbind (init_rdma_ctrl (l_sub v) pton src_ip sip 1 (k_list k4)) (\<lambda>(made, c, list).
        let k5 = k4\<lparr>k_conns := (k_conns k4)(1 := c), k_list := list\<rparr> in
        if \<not> made then Inl Null_Pointer
        else
          rbind (init_multicast_ctrl (l_mid v) (l_resolve v) (l_events v) pton multicast_ip src_ip)
            (\<lambda>(ret, m).
          let k6 = k5\<lparr>k_multicast := m\<rparr> in
          if ret \<noteq> 0 then Inr (- EINVAL, k6)
          else
            let (ret, sb) = init_stage_buffer (l_stage v) (k_stage k6);
                k7 = k6\<lparr>k_stage := sb\<rparr>
            in
            if ret \<noteq> 0 then Inr (- EINVAL, k7) else Inr (cm_error (k_conns k7 1), k7)))))"

text \<open>Unload: per connection, what exists is freed and the connection leaves the list.\<close>

definition dereg_mr_if :: "conn \<Rightarrow> conn result" where
  "dereg_mr_if c =
     (case rc_mr c of
        P_Null \<Rightarrow> Inr c | P_Err \<Rightarrow> Inl Bad_Pointer | P_Live \<Rightarrow> Inr (emit (Dereg_Mr P_Live) c))"

definition destroy_id_if :: "conn \<Rightarrow> conn result" where
  "destroy_id_if c =
     (case rc_rdma c of
        P_Null \<Rightarrow> Inr c | P_Err \<Rightarrow> Inl Bad_Pointer | P_Live \<Rightarrow> Inr (emit Destroy_Id c))"

definition cleanup_conn :: "conn \<Rightarrow> conn result" where
  "cleanup_conn c =
     rbind (dereg_mr_if c) (\<lambda>c1.
     let c2 = (if rc_buffer c1 \<noteq> NULL then emit (Kfree (rc_buffer c1)) c1 else c1);
         c3 = (if rc_qp c2 \<noteq> P_Null then emit Destroy_Qp c2 else c2)
     in destroy_id_if c3)"

definition free_stage :: "module_state \<Rightarrow> module_state" where
  "free_stage k =
     (if sb_buffer (k_stage k) \<noteq> NULL
      then k\<lparr>k_trace := k_trace k @ [Kfree (sb_buffer (k_stage k)), Destroy_Xarray],
             k_stage := (k_stage k)\<lparr>sb_buffer := NULL, sb_check_list := []\<rparr>\<rparr>
      else k)"

fun cleanup_each :: "nat list \<Rightarrow> module_state \<Rightarrow> module_state result" where
  "cleanup_each [] k = Inr k"
| "cleanup_each (n # ns) k =
     (let k1 = free_stage k
      in rbind (cleanup_conn (k_conns k1 n)) (\<lambda>c.
           cleanup_each ns (k1\<lparr>k_conns := (k_conns k1)(n := c), k_list := remove1 n (k_list k1)\<rparr>)))"

definition m_destroy_if :: "ptr \<Rightarrow> kcall \<Rightarrow> multicast_ctrl_t \<Rightarrow> multicast_ctrl_t result" where
  "m_destroy_if p k m =
     (case p of P_Null \<Rightarrow> Inr m | P_Err \<Rightarrow> Inl Bad_Pointer | P_Live \<Rightarrow> Inr (m_emit k m))"

definition cleanup_ib :: "module_state \<Rightarrow> module_state result" where
  "cleanup_ib k =
     rbind (cleanup_each (k_list k) k) (\<lambda>k1.
     let m0 = k_multicast k1 in
     rbind (if m_multicast m0 = P_Live then Inr (m_emit Leave_Multicast m0) else Inl Bad_Pointer) (\<lambda>m1.
     rbind (m_destroy_if (m_mr m1) (Dereg_Mr (m_mr m1)) m1) (\<lambda>m2.
     rbind (m_destroy_if (m_qp m2) Destroy_Qp m2) (\<lambda>m3.
     rbind (m_destroy_if (m_multicast m3) Destroy_Id m3) (\<lambda>m4.
     Inr (k1\<lparr>k_multicast := m4, k_trace := k_trace k1 @ [Unregister_Client]\<rparr>))))))"

end
