(* ===== verification/Server_Setup.thy ===== *)
theory Server_Setup
  imports Server Driver_Setup
begin

text \<open>
  Connection management of the server and client programs (\<open>lib/ib.c\<close>, the end of
  \<open>lib/handler.c\<close>, \<open>server/main.c\<close>, \<open>client/main.c\<close>): the two connection managers \<open>rcm\<close> and
  \<open>mcm\<close>, listening and connecting, the memory handlers with the receives they post, the
  event loop, and shutting down.

  \<open>net\<close> is both managers and the handlers. Objects of the rdmacm library (event channels,
  ids) are numbers, so that a copied pointer names the same object; the calls made are kept
  in \<open>n_calls\<close>. What the library returns is an argument.
\<close>

unbundle bit_operations_syntax

section \<open>State\<close>

definition RPC_NR_BUFFER :: nat where "RPC_NR_BUFFER = 2 ^ 10"
definition LIB_EACH_SIZE :: u64 where "LIB_EACH_SIZE = 64"
definition RPC_BUFFER_SIZE :: u64 where
  "RPC_BUFFER_SIZE = LIB_EACH_SIZE * of_nat RPC_NR_BUFFER + PAGE_SIZE"
definition MCM_MAX_RECV_WR :: nat where "MCM_MAX_RECV_WR = 2 ^ 12"
definition MULTICAST_BUFFER_SIZE :: u64 where
  "MULTICAST_BUFFER_SIZE = (UD_EXTRA + PAGE_SIZE) * 2 ^ 18"
definition MAX_RDMA_USER :: nat where "MAX_RDMA_USER = 10"
definition PRE_ALLOC_MEMBLOCK :: nat where "PRE_ALLOC_MEMBLOCK = 1"

datatype ncall =
    N_Create_Channel nat | N_Destroy_Channel nat | N_Create_Id nat | N_Destroy_Id nat
  | N_Create_Qp nat | N_Destroy_Qp nat | N_Bind nat | N_Listen nat nat | N_Accept nat | N_Reject nat
  | N_Resolve_Addr nat | N_Resolve_Route nat | N_Connect nat | N_Join nat | N_Ack
  | N_Addrinfo string | N_Munmap addr u64 | N_Dereg | N_Free | N_Threads | N_Block sys_call

record lib_recv =
  lr_id :: nat
  lr_size :: u64
  lr_buffer :: addr
  lr_lkey :: u32

record rdma_handler = blocks_state +
  h_rdma :: "nat option"
  h_channel :: "nat option"
  h_nr_memblocks :: nat
  h_batch :: atomic_t
  h_rpc_buffer :: addr
  h_rpc_mr :: "mr option"
  h_recvs :: "lib_recv list"
  h_peer :: bool                 \<comment> \<open>\<open>multicast_memory_handler\<close> is set\<close>

record multicast_handler =
  mh_multicast :: "nat option"
  mh_channel :: "nat option"
  mh_qpn :: u32
  mh_qkey :: u32
  mh_buffer :: addr
  mh_mr :: "mr option"
  mh_rpc_mr :: "mr option"
  mh_recvs :: "lib_recv list"
  mh_peer :: bool

record net =
  rcm_channel :: "nat option"
  rcm_rdma :: "nat option"
  rcm_alive :: bool
  rcm_nr_user :: int
  rcm_server_ip :: string
  rcm_server_port :: u16
  rcm_handlers :: "rdma_handler list"
  mcm_channel :: "nat option"
  mcm_multicast :: "nat option"
  mcm_ah :: bool
  mcm_qpn :: u32
  mcm_qkey :: u32
  mcm_ip :: string
  mcm_realloc :: bool
  mcm_handler :: "multicast_handler option"
  net_binders :: binders
  n_calls :: "ncall list"

definition n_emit :: "ncall \<Rightarrow> net \<Rightarrow> net" where
  "n_emit k s = s\<lparr>n_calls := n_calls s @ [k]\<rparr>"

section \<open>The managers\<close>

definition set_rdma_connection_manager :: "string \<Rightarrow> u16 \<Rightarrow> net \<Rightarrow> net" where
  "set_rdma_connection_manager server_ip port s = s\<lparr>rcm_server_ip := server_ip, rcm_server_port := port\<rparr>"

definition set_multicast_connection_manager :: "string \<Rightarrow> net \<Rightarrow> net" where
  "set_multicast_connection_manager ip s = s\<lparr>mcm_ip := ip\<rparr>"

definition init_rdma_connection_manager :: "net \<Rightarrow> net" where
  "init_rdma_connection_manager s =
     s\<lparr>rcm_handlers := [], rcm_alive := True, rcm_nr_user := 0, rcm_channel := None, rcm_rdma := None,
       net_binders := init_binder (net_binders s)\<rparr>"

text \<open>\<open>mcm.alive\<close> points to \<open>rcm.alive\<close>, so there is one flag.\<close>

definition init_multicast_connection_manager :: "net \<Rightarrow> net" where
  "init_multicast_connection_manager s = s\<lparr>mcm_realloc := False\<rparr>"

section \<open>Events\<close>

text \<open>An event is acknowledged whether or not it is the one expected.\<close>

definition ib_process_event ::
  "int \<Rightarrow> cm_event \<Rightarrow> cm_event option \<Rightarrow> (net \<Rightarrow> net) option \<Rightarrow> net \<Rightarrow> bool \<times> net" where
  "ib_process_event ret event expect handler s =
     (if ret \<noteq> 0 then (False, s)
      else if expect \<noteq> None \<and> expect \<noteq> Some event then (False, n_emit N_Ack s)
      else (True, n_emit N_Ack (case handler of None \<Rightarrow> s | Some f \<Rightarrow> f s)))"

definition process_event_multicast_set :: "bool \<Rightarrow> u32 \<Rightarrow> u32 \<Rightarrow> net \<Rightarrow> net" where
  "process_event_multicast_set ah qpn qkey s =
     (let s1 = s\<lparr>mcm_ah := ah\<rparr> in
      if \<not> ah then s1 else s1\<lparr>mcm_qpn := qpn, mcm_qkey := qkey\<rparr>)"

section \<open>Connecting\<close>

definition qp_failed :: "int \<Rightarrow> bool" where
  "qp_failed ret \<longleftrightarrow> ret mod 256 \<noteq> 0"    \<comment> \<open>\<open>bool\<close> is \<open>uint8_t\<close>\<close>

definition ib_create_rdma_qp :: "int \<Rightarrow> nat \<Rightarrow> net \<Rightarrow> bool \<times> net" where
  "ib_create_rdma_qp ret i s = (qp_failed ret, n_emit (N_Create_Qp i) s)"

record connect_env =
  c_channel :: "nat option"
  c_id :: "nat option"      \<comment> \<open>\<open>None\<close>: \<open>rdma_create_id\<close> fails\<close>
  c_bind :: int
  c_listen :: int
  c_resolve :: int
  c_route :: int
  c_qp :: int
  c_connect :: int
  c_join :: int
  c_addr1 :: int
  c_addr2 :: int
  c_events :: "nat \<Rightarrow> int \<times> cm_event"
  c_ah :: bool
  c_qpn :: u32
  c_qkey :: u32

definition ib_rdma_server_connect :: "connect_env \<Rightarrow> u16 \<Rightarrow> net \<Rightarrow> bool \<times> net" where
  "ib_rdma_server_connect v port s =
     (case c_channel v of
        None \<Rightarrow> (False, s\<lparr>rcm_channel := None\<rparr>)
      | Some ch \<Rightarrow>
          let s1 = n_emit (N_Create_Channel ch) (s\<lparr>rcm_channel := Some ch\<rparr>);
              out_error = (\<lambda>s. (False, n_emit (N_Destroy_Channel ch) s\<lparr>rcm_channel := None\<rparr>))
          in
          case c_id v of
            None \<Rightarrow> out_error s1
          | Some i \<Rightarrow>
              let s2 = n_emit (N_Create_Id i) (s1\<lparr>rcm_rdma := Some i\<rparr>);
                  out_error_bind = (\<lambda>s. out_error (n_emit (N_Destroy_Id i) s\<lparr>rcm_rdma := None\<rparr>));
                  s3 = n_emit (N_Bind i) s2
              in
              if c_bind v \<noteq> 0 then out_error_bind s3
              else let s4 = n_emit (N_Listen i MAX_RDMA_USER) s3 in
              if c_listen v \<noteq> 0 then out_error_bind s4 else (True, s4))"

definition ib_rdma_client_connect :: "connect_env \<Rightarrow> string \<Rightarrow> u16 \<Rightarrow> net \<Rightarrow> bool \<times> net" where
  "ib_rdma_client_connect v server_ip server_port s =
     (case c_channel v of
        None \<Rightarrow> (False, s\<lparr>rcm_channel := None\<rparr>)
      | Some ch \<Rightarrow>
          let s1 = n_emit (N_Create_Channel ch) (s\<lparr>rcm_channel := Some ch\<rparr>);
              out_error = (\<lambda>s. (False, n_emit (N_Destroy_Channel ch) s\<lparr>rcm_channel := None\<rparr>));
              event = (\<lambda>n expect s. ib_process_event (fst (c_events v n)) (snd (c_events v n)) (Some expect) None s)
          in
          case c_id v of
            None \<Rightarrow> out_error s1
          | Some i \<Rightarrow>
              let s2 = n_emit (N_Create_Id i) (s1\<lparr>rcm_rdma := Some i\<rparr>);
                  out_error_resolve = (\<lambda>s. out_error
                    (n_emit (N_Destroy_Id i) (n_emit (N_Destroy_Qp i) s)\<lparr>rcm_rdma := None\<rparr>));
                  s3 = n_emit (N_Resolve_Addr i) s2
              in
              if c_resolve v \<noteq> 0 then out_error_resolve s3
              else let (ok, s4) = event 0 ADDR_RESOLVED s3 in
              if \<not> ok then out_error_resolve s4
              else let s5 = n_emit (N_Resolve_Route i) s4 in
              if c_route v \<noteq> 0 then out_error_resolve s5
              else let (ok, s6) = event 1 ROUTE_RESOLVED s5 in
              if \<not> ok then out_error_resolve s6
              else let s7 = n_emit (N_Create_Qp i) s6 in
              if c_qp v \<noteq> 0 then out_error_resolve s7
              else let s8 = n_emit (N_Connect i) s7 in
              if c_connect v \<noteq> 0 then out_error_resolve s8
              else let (ok, s9) = event 2 ESTABLISHED s8 in
              if \<not> ok then out_error_resolve s9 else (True, s9))"

definition ib_rdma_server_reconnect :: "connect_env \<Rightarrow> net \<Rightarrow> bool \<times> net" where
  "ib_rdma_server_reconnect v s = ib_rdma_server_connect v (rcm_server_port s) s"

definition MY_ADDR :: string where "MY_ADDR = ''10.10.1.12''"

text \<open>
  Every error path destroys \<open>mcm.multicast\<close>, also when the id itself could not be created.
  The client resolves the group's address, the server binds to its own.
\<close>

definition ib_connect_multicast :: "connect_env \<Rightarrow> string \<Rightarrow> bool \<Rightarrow> net \<Rightarrow> (bool \<times> net) result" where
  "ib_connect_multicast v multicast_ip server s =
     (case c_channel v of
        None \<Rightarrow> Inr (False, s\<lparr>mcm_channel := None\<rparr>)
      | Some ch \<Rightarrow>
          let s1 = n_emit (N_Create_Channel ch) (s\<lparr>mcm_channel := Some ch\<rparr>);
              out_error = (\<lambda>s. case mcm_multicast s of
                 None \<Rightarrow> Inl Null_Pointer
               | Some i \<Rightarrow> Inr (False, n_emit (N_Destroy_Channel ch) (n_emit (N_Destroy_Id i) s)))
          in
          case c_id v of
            None \<Rightarrow> out_error s1
          | Some i \<Rightarrow>
              let s2 = n_emit (N_Create_Id i) (s1\<lparr>mcm_multicast := Some i\<rparr>);
                  s3 = n_emit (N_Addrinfo multicast_ip) s2
              in
              if c_addr1 v \<noteq> 0 then out_error s3
              else
                let (ok, s4) =
                  (if \<not> server then
                     let t1 = n_emit (N_Resolve_Addr i) s3 in
                     if c_resolve v \<noteq> 0 then (False, t1)
                     else ib_process_event (fst (c_events v 0)) (snd (c_events v 0))
                            (Some ADDR_RESOLVED) None t1
                   else
                     let t1 = n_emit (N_Addrinfo MY_ADDR) s3 in
                     if c_addr2 v \<noteq> 0 then (False, t1)
                     else (c_bind v = 0, n_emit (N_Bind i) t1))
                in
                if \<not> ok then out_error s4
                else let s5 = n_emit (N_Create_Qp i) s4 in
                if c_qp v \<noteq> 0 then out_error s5
                else let s6 = n_emit (N_Join i) s5 in
                if c_join v \<noteq> 0 then out_error s6
                else
                  let (ok, s7) = ib_process_event (fst (c_events v 1)) (snd (c_events v 1))
                        (Some MULTICAST_JOIN)
                        (Some (process_event_multicast_set (c_ah v) (c_qpn v) (c_qkey v))) s6
                  in if \<not> ok then out_error s7 else Inr (True, s7))"


section \<open>The memory handlers\<close>

record handler_env =
  a_qp :: int
  a_accept :: int
  a_malloc :: bool
  a_block :: "nat \<Rightarrow> block_env"
  a_rpc_mmap :: addr
  a_rpc_reg :: "(addr \<times> u32 \<times> u32) option"
  a_rw :: "nat \<Rightarrow> bool"
  a_post :: "nat \<Rightarrow> int"

text \<open>
  Posting receive \<open>i\<close> at \<open>base + i * size\<close>; the \<open>malloc\<close> of the request is not checked. The
  result says whether all were posted.
\<close>

fun post_lib_recvs ::
  "(nat \<Rightarrow> bool) \<Rightarrow> (nat \<Rightarrow> int) \<Rightarrow> addr \<Rightarrow> u64 \<Rightarrow> u32 \<Rightarrow> nat list \<Rightarrow> lib_recv list
   \<Rightarrow> (bool \<times> lib_recv list) result" where
  "post_lib_recvs rw post base sz lkey [] rs = Inr (True, rs)"
| "post_lib_recvs rw post base sz lkey (i # is) rs =
     (if \<not> rw i then Inl Null_Pointer
      else if post i \<noteq> 0 then Inr (False, rs)
      else post_lib_recvs rw post base sz lkey is
             (rs @ [\<lparr>lr_id = i, lr_size = sz, lr_buffer = base + of_nat i * sz, lr_lkey = lkey\<rparr>]))"

text \<open>Blocks that are allocated up front.\<close>

fun pre_alloc :: "(nat \<Rightarrow> block_env) \<Rightarrow> nat list \<Rightarrow> rdma_handler \<Rightarrow> rdma_handler result" where
  "pre_alloc env [] h = Inr h"
| "pre_alloc env (i # is) h =
     (if \<not> i < length (memblocks h) then Inl Out_Of_Bounds
      else if memblocks h ! i = None
      then rbind (add_memblock (env i) i h) (\<lambda>(_, h'). pre_alloc env is h')
      else pre_alloc env is h)"

text \<open>
  The first block is allocated and registered without looking at the results: no block is a
  NULL dereference, a block that cannot be registered is kept without its key.
\<close>

definition alloc_rdma_memory_handler ::
  "handler_env \<Rightarrow> nat \<Rightarrow> net \<Rightarrow> (rdma_handler option \<times> net) result" where
  "alloc_rdma_memory_handler v i s =
     (let out_error_accept = (\<lambda>s. case rcm_rdma s of
            None \<Rightarrow> Inl Null_Pointer | Some l \<Rightarrow> Inr (None, n_emit (N_Reject l) s));
          (failed, s1) = ib_create_rdma_qp (a_qp v) i s
      in
      if failed then out_error_accept s1
      else let s2 = n_emit (N_Accept i) s1 in
      if a_accept v \<noteq> 0 then out_error_accept s2
      else if \<not> a_malloc v then Inl Null_Pointer
      else
        case alloc_memblock (a_block v 0) 0 of
          None \<Rightarrow> Inl Null_Pointer
        | Some mb \<Rightarrow>
            let mb' = snd (set_memblock (a_block v 0) mb);
                h0 = \<lparr>memblocks = (replicate MAX_MEMBLOCK None)[0 := Some mb'], memblock_list = [0],
                      h_rdma = Some i, h_channel = rcm_channel s2, h_nr_memblocks = 1,
                      h_batch = \<lparr>counter = 0\<rparr>, h_rpc_buffer = a_rpc_mmap v, h_rpc_mr = None,
                      h_recvs = [], h_peer = False\<rparr>
            in
            if h_rpc_buffer h0 = NULL then Inr (None, s2)
            else
              let h1 = h0\<lparr>h_rpc_mr := ibv_reg_mr (a_rpc_reg v) (h_rpc_buffer h0)\<rparr> in
              case h_rpc_mr h1 of
                None \<Rightarrow> Inl Null_Pointer
              | Some mr \<Rightarrow>
                  rbind (post_lib_recvs (a_rw v) (a_post v) (h_rpc_buffer h1) LIB_EACH_SIZE
                           (mr_lkey mr) [0..<MCM_MAX_RECV_WR] []) (\<lambda>(ok, rs).
                  if \<not> ok
                  then out_error_accept
                         (n_emit N_Dereg (n_emit (N_Munmap (h_rpc_buffer h1) RPC_BUFFER_SIZE) s2))
                  else
                    rbind (pre_alloc (a_block v) [0..<PRE_ALLOC_MEMBLOCK] (h1\<lparr>h_recvs := rs\<rparr>)) (\<lambda>h2.
                    Inr (Some h2, s2\<lparr>rcm_handlers := rcm_handlers s2 @ [h2],
                                     rcm_nr_user := rcm_nr_user s2 + 1\<rparr>))))"

record mhandler_env =
  b_malloc :: bool
  b_mmap :: addr
  b_reg :: "(addr \<times> u32 \<times> u32) option"
  b_rpc_mmap :: addr
  b_rpc_reg :: "(addr \<times> u32 \<times> u32) option"
  b_rw :: "nat \<Rightarrow> bool"
  b_post :: "nat \<Rightarrow> int"

definition alloc_multicast_memory_handler ::
  "mhandler_env \<Rightarrow> net \<Rightarrow> (multicast_handler option \<times> net) result" where
  "alloc_multicast_memory_handler v s =
     (if \<not> b_malloc v then Inl Null_Pointer
      else
        let m0 = \<lparr>mh_multicast = mcm_multicast s, mh_channel = mcm_channel s, mh_qpn = mcm_qpn s,
                  mh_qkey = mcm_qkey s, mh_buffer = b_mmap v, mh_mr = None, mh_rpc_mr = None,
                  mh_recvs = [], mh_peer = False\<rparr>;
            out_error_mr = (\<lambda>s. (None, n_emit (N_Munmap (mh_buffer m0) MULTICAST_BUFFER_SIZE) s))
        in
        if mh_buffer m0 = NULL then Inr (None, s)
        else if mh_multicast m0 = None then Inl Null_Pointer
        else
          case ibv_reg_mr (b_reg v) (mh_buffer m0) of
            None \<Rightarrow> Inr (out_error_mr s)
          | Some mr \<Rightarrow>
              let m1 = m0\<lparr>mh_mr := Some mr\<rparr> in
              if b_rpc_mmap v = NULL then Inr (None, s)
              else
                case ibv_reg_mr (b_rpc_reg v) (b_rpc_mmap v) of
                  None \<Rightarrow> Inr (None, s)
                | Some rmr \<Rightarrow>
                    let m2 = m1\<lparr>mh_rpc_mr := Some rmr\<rparr> in
                    rbind (post_lib_recvs (b_rw v) (b_post v) (mh_buffer m2) (UD_EXTRA + PAGE_SIZE)
                             (mr_lkey mr) [0..<MCM_MAX_RECV_WR] []) (\<lambda>(ok, rs).
                    if \<not> ok then Inr (out_error_mr s)
                    else let m3 = m2\<lparr>mh_recvs := rs\<rparr>
                         in Inr (Some m3, s\<lparr>mcm_handler := Some m3\<rparr>)))"

definition set_up_handlers ::
  "rdma_handler option \<Rightarrow> multicast_handler option \<Rightarrow> (rdma_handler \<times> multicast_handler) option" where
  "set_up_handlers rmh mmh =
     (case (rmh, mmh) of
        (Some r, Some m) \<Rightarrow> Some (r\<lparr>h_peer := True\<rparr>, m\<lparr>mh_peer := True\<rparr>)
      | _ \<Rightarrow> None)"

text \<open>The handlers in the managers are the ones set up; the threads start on them.\<close>

definition init_handlers :: "handler_env \<Rightarrow> mhandler_env \<Rightarrow> nat \<Rightarrow> net \<Rightarrow> (bool \<times> net) result" where
  "init_handlers v vm i s =
     rbind (alloc_rdma_memory_handler v i s) (\<lambda>(rmh, s1).
     if rmh = None then Inr (False, s1)
     else rbind (alloc_multicast_memory_handler vm s1) (\<lambda>(mmh, s2).
     if mmh = None then Inr (False, s2)
     else
       case set_up_handlers rmh mmh of
         None \<Rightarrow> Inr (False, s2)
       | Some (r, m) \<Rightarrow>
           Inr (True, n_emit N_Threads
             (s2\<lparr>rcm_handlers := butlast (rcm_handlers s2) @ [r], mcm_handler := Some m\<rparr>))))"

section \<open>Shutting down\<close>

definition rdma_memory_handler_die :: "rdma_handler \<Rightarrow> ncall list" where
  "rdma_memory_handler_die h =
     concat (map (\<lambda>b. case b of None \<Rightarrow> [] | Some mb \<Rightarrow> map N_Block (memblock_die mb)) (memblocks h))
     @ [N_Dereg]
     @ (case h_rdma h of None \<Rightarrow> [] | Some i \<Rightarrow> [N_Destroy_Id i])
     @ (case h_channel h of None \<Rightarrow> [] | Some ch \<Rightarrow> [N_Destroy_Channel ch])
     @ [N_Munmap (h_rpc_buffer h) RPC_BUFFER_SIZE, N_Free]"

definition multicast_memory_handler_die :: "multicast_handler \<Rightarrow> ncall list" where
  "multicast_memory_handler_die m =
     (if mh_mr m \<noteq> None then [N_Dereg] else [])
     @ (if mh_buffer m \<noteq> NULL then [N_Munmap (mh_buffer m) MULTICAST_BUFFER_SIZE] else [])
     @ (case mh_multicast m of None \<Rightarrow> [] | Some i \<Rightarrow> [N_Destroy_Id i])
     @ (case mh_channel m of None \<Rightarrow> [] | Some ch \<Rightarrow> [N_Destroy_Channel ch])
     @ [N_Free]"

definition rdma_connection_die :: "net \<Rightarrow> net" where
  "rdma_connection_die s =
     s\<lparr>n_calls := n_calls s
         @ concat (map rdma_memory_handler_die (rcm_handlers s))
         @ (case rcm_rdma s of None \<Rightarrow> [] | Some i \<Rightarrow> [N_Destroy_Id i])
         @ (case rcm_channel s of None \<Rightarrow> [] | Some ch \<Rightarrow> [N_Destroy_Channel ch]),
       rcm_handlers := [], rcm_rdma := None, rcm_channel := None, rcm_alive := False\<rparr>"

text \<open>Here the channel, the id and the handler are not checked.\<close>

definition multicast_connection_die :: "net \<Rightarrow> net result" where
  "multicast_connection_die s =
     (case (mcm_channel s, mcm_multicast s, mcm_handler s) of
        (Some ch, Some i, Some m) \<Rightarrow>
          Inr (s\<lparr>n_calls := n_calls s @ [N_Destroy_Channel ch, N_Destroy_Id i]
                   @ multicast_memory_handler_die m,
                 mcm_channel := None, mcm_multicast := None, rcm_alive := False\<rparr>)
      | _ \<Rightarrow> Inl Null_Pointer)"

definition stop_handlers :: "net \<Rightarrow> net result" where
  "stop_handlers s = multicast_connection_die (rdma_connection_die s)"

section \<open>The event loop and the programs\<close>

definition rdma_event_handler ::
  "handler_env \<Rightarrow> mhandler_env \<Rightarrow> nat \<Rightarrow> cm_event \<Rightarrow> net \<Rightarrow> net result" where
  "rdma_event_handler v vm i ev s =
     (case ev of
        CONNECT_REQUEST \<Rightarrow>
          rbind (init_handlers v vm i s) (\<lambda>(ok, s'). if \<not> ok then stop_handlers s' else Inr s')
      | _ \<Rightarrow> Inr s)"

text \<open>
  \<open>ib_pevent\<close> handles events while the manager is alive; one event is the library's result,
  the event, and what the handlers meet. \<open>Spinning\<close> says that it is still running.
\<close>

fun ib_pevent :: "(int \<times> cm_event \<times> nat \<times> handler_env \<times> mhandler_env) list \<Rightarrow> net \<Rightarrow> net result" where
  "ib_pevent [] s = (if rcm_alive s then Inl Spinning else Inr s)"
| "ib_pevent ((ret, ev, i, v, vm) # evs) s =
     (if \<not> rcm_alive s then Inr s
      else if rcm_channel s = None then Inl Null_Pointer
      else if ret \<noteq> 0 then ib_pevent evs s
      else rbind (rdma_event_handler v vm i ev s) (\<lambda>s'. ib_pevent evs (n_emit N_Ack s')))"

definition init_server :: "connect_env \<Rightarrow> connect_env \<Rightarrow> u16 \<Rightarrow> string \<Rightarrow> net \<Rightarrow> (bool \<times> net) result" where
  "init_server v vm server_port multi_ip s =
     (let s1 = init_multicast_connection_manager (init_rdma_connection_manager s);
          (ok, s2) = ib_rdma_server_connect v server_port s1
      in if \<not> ok then Inr (False, s2) else ib_connect_multicast vm multi_ip True s2)"

definition init_client :: "connect_env \<Rightarrow> string \<Rightarrow> u16 \<Rightarrow> net \<Rightarrow> bool \<times> net" where
  "init_client v server_ip server_port s =
     ib_rdma_client_connect v server_ip server_port (init_rdma_connection_manager s)"

definition init_multicast :: "connect_env \<Rightarrow> string \<Rightarrow> net \<Rightarrow> (bool \<times> net) result" where
  "init_multicast v multi_ip s =
     ib_connect_multicast v multi_ip False (init_multicast_connection_manager s)"

definition CONFIG_SERVER_PORT :: u16 where "CONFIG_SERVER_PORT = 50000"
definition CONFIG_MULTI_IP :: string where "CONFIG_MULTI_IP = ''10.10.1.13''"

text \<open>
  The server's \<open>main\<close>: \<open>-p\<close> sets the port (\<open>num\<close> is \<open>atoi\<close>), anything else ends the program with
  status 1.
\<close>

fun server_options :: "(string \<Rightarrow> int) \<Rightarrow> (char \<times> string) list \<Rightarrow> u16 \<Rightarrow> u16 option" where
  "server_options num [] port = Some port"
| "server_options num ((c, arg) # opts) port =
     (if c = CHR ''p'' then server_options num opts (word_of_int (num arg)) else None)"

definition server_main ::
  "(string \<Rightarrow> int) \<Rightarrow> (char \<times> string) list \<Rightarrow> connect_env \<Rightarrow> connect_env
   \<Rightarrow> (int \<times> cm_event \<times> nat \<times> handler_env \<times> mhandler_env) list \<Rightarrow> net \<Rightarrow> (int \<times> net) result" where
  "server_main num opts v vm evs s =
     (case server_options num opts CONFIG_SERVER_PORT of
        None \<Rightarrow> Inr (1, s)
      | Some port \<Rightarrow>
          rbind (init_server v vm port CONFIG_MULTI_IP s) (\<lambda>(ok, s1).
          if \<not> ok then Inr (1, s1) else rbind (ib_pevent evs s1) (\<lambda>s2. Inr (0, s2))))"

end
