(* ===== verification/Server_Setup_Proofs.thy ===== *)
theory Server_Setup_Proofs
  imports Server_Setup Far_Memory
begin

text \<open>
  Lemmas on the programs' connection management: which library objects are destroyed on
  error paths and at shutdown (\<open>use\<close> replays the calls on the set of live channels, ids and
  queue pairs), and where the posted receives lie.
\<close>

unbundle bit_operations_syntax

section \<open>Replaying the calls\<close>

text \<open>The live objects: event channels, ids, and ids that have a queue pair.\<close>

record objects =
  o_channels :: "nat set"
  o_ids :: "nat set"
  o_qps :: "nat set"

definition no_objects :: objects where "no_objects = \<lparr>o_channels = {}, o_ids = {}, o_qps = {}\<rparr>"

text \<open>Destroying what is not live is \<open>None\<close>.\<close>

fun use_call :: "ncall \<Rightarrow> objects \<Rightarrow> objects option" where
  "use_call (N_Create_Channel c) st = Some (st\<lparr>o_channels := insert c (o_channels st)\<rparr>)"
| "use_call (N_Destroy_Channel c) st =
     (if c \<in> o_channels st then Some (st\<lparr>o_channels := o_channels st - {c}\<rparr>) else None)"
| "use_call (N_Create_Id i) st = Some (st\<lparr>o_ids := insert i (o_ids st)\<rparr>)"
| "use_call (N_Destroy_Id i) st =
     (if i \<in> o_ids st then Some (st\<lparr>o_ids := o_ids st - {i}\<rparr>) else None)"
| "use_call (N_Create_Qp i) st = Some (st\<lparr>o_qps := insert i (o_qps st)\<rparr>)"
| "use_call (N_Destroy_Qp i) st =
     (if i \<in> o_qps st then Some (st\<lparr>o_qps := o_qps st - {i}\<rparr>) else None)"
| "use_call _ st = Some st"

fun use_calls :: "ncall list \<Rightarrow> objects \<Rightarrow> objects option" where
  "use_calls [] st = Some st"
| "use_calls (k # ks) st = (case use_call k st of None \<Rightarrow> None | Some st' \<Rightarrow> use_calls ks st')"

lemma use_calls_append:
  "use_calls (ks @ ls) st = (case use_calls ks st of None \<Rightarrow> None | Some st' \<Rightarrow> use_calls ls st')"
  by (induction ks arbitrary: st) (auto split: option.split)

text \<open>The calls an operation adds.\<close>

definition new_calls :: "net \<Rightarrow> net \<Rightarrow> ncall list" where
  "new_calls s s' = drop (length (n_calls s)) (n_calls s')"

lemma n_emit_simps [simp]:
  "n_calls (n_emit k s) = n_calls s @ [k]" "rcm_channel (n_emit k s) = rcm_channel s"
  "rcm_rdma (n_emit k s) = rcm_rdma s" "rcm_handlers (n_emit k s) = rcm_handlers s"
  "mcm_channel (n_emit k s) = mcm_channel s" "mcm_multicast (n_emit k s) = mcm_multicast s"
  "rcm_alive (n_emit k s) = rcm_alive s" "mcm_handler (n_emit k s) = mcm_handler s"
  "rcm_nr_user (n_emit k s) = rcm_nr_user s"
  by (simp_all add: n_emit_def)

section \<open>Listening\<close>

text \<open>
  When listening fails nothing stays behind: what was created is destroyed, in the reverse
  order, and the manager forgets it. When it succeeds the manager holds the live objects.
\<close>

lemma server_connect_outcome:
  "case ib_rdma_server_connect v port s of
     (True, s') \<Rightarrow> (\<exists>ch i. c_channel v = Some ch \<and> c_id v = Some i \<and> rcm_channel s' = Some ch
        \<and> rcm_rdma s' = Some i
        \<and> use_calls (new_calls s s') no_objects = Some \<lparr>o_channels = {ch}, o_ids = {i}, o_qps = {}\<rparr>)
   | (False, s') \<Rightarrow> rcm_channel s' = None \<and> use_calls (new_calls s s') no_objects = Some no_objects"
  by (auto simp: ib_rdma_server_connect_def Let_def new_calls_def no_objects_def split: option.split)

text \<open>
  The client's error path destroys the queue pair of its id; before the queue pair exists
  that is a call on nothing.
\<close>

lemma client_connect_no_qp:
  assumes "c_channel v = Some ch" "c_id v = Some i" "c_resolve v \<noteq> 0"
  shows "\<exists>s'. ib_rdma_client_connect v ip port s = (False, s')
    \<and> use_calls (new_calls s s') no_objects = None"
  using assms by (simp add: ib_rdma_client_connect_def Let_def new_calls_def no_objects_def)

lemma client_connect_ok:
  assumes "c_channel v = Some ch" "c_id v = Some i" "c_resolve v = 0" "c_route v = 0" "c_qp v = 0"
    "c_connect v = 0" "c_events v 0 = (0, ADDR_RESOLVED)" "c_events v 1 = (0, ROUTE_RESOLVED)"
    "c_events v 2 = (0, ESTABLISHED)"
  shows "\<exists>s'. ib_rdma_client_connect v ip port s = (True, s') \<and> rcm_rdma s' = Some i
    \<and> use_calls (new_calls s s') no_objects = Some \<lparr>o_channels = {ch}, o_ids = {i}, o_qps = {i}\<rparr>"
  using assms
  by (simp add: ib_rdma_client_connect_def Let_def ib_process_event_def new_calls_def no_objects_def)

section \<open>Shutting down\<close>

text \<open>A handler shares the manager's event channel, and both destroy it.\<close>

text \<open>Calls that create no channel leave a channel that is not live not live.\<close>

fun creates_channel :: "nat \<Rightarrow> ncall \<Rightarrow> bool" where
  "creates_channel ch (N_Create_Channel c) \<longleftrightarrow> c = ch"
| "creates_channel ch _ \<longleftrightarrow> False"

lemma use_call_dead:
  assumes "use_call k st = Some st'" "\<not> creates_channel ch k" "ch \<notin> o_channels st"
  shows "ch \<notin> o_channels st'"
  using assms by (cases k) (auto split: if_splits)

lemma destroy_dead:
  "\<forall>k \<in> set ks. \<not> creates_channel ch k \<Longrightarrow> ch \<notin> o_channels st \<Longrightarrow>
   N_Destroy_Channel ch \<in> set ks \<Longrightarrow> use_calls ks st = None"
proof (induction ks arbitrary: st)
  case Nil
  then show ?case by simp
next
  case (Cons k ks)
  show ?case
  proof (cases "k = N_Destroy_Channel ch")
    case True
    then show ?thesis using Cons.prems(2) by simp
  next
    case False
    then show ?thesis
      using Cons.IH Cons.prems use_call_dead [of k st _ ch] by (auto split: option.split)
  qed
qed

lemma destroy_twice:
  assumes "\<forall>k \<in> set post. \<not> creates_channel ch k" "N_Destroy_Channel ch \<in> set post"
  shows "use_calls (pre @ N_Destroy_Channel ch # post) st = None"
  using destroy_dead [OF assms(1) _ assms(2)]
  by (simp add: use_calls_append split: option.split)

lemma handler_die_calls:
  assumes "k \<in> set (rdma_memory_handler_die h)"
  shows "\<not> creates_channel ch k"
  using assms
  by (auto simp: rdma_memory_handler_die_def memblock_die_def split: option.splits)

lemma connection_die_twice:
  assumes "rcm_handlers s = h # hs" "h_channel h = Some ch" "rcm_channel s = Some ch"
  shows "use_calls (new_calls s (rdma_connection_die s)) st = None"
proof -
  let ?tail = "concat (map rdma_memory_handler_die hs)
    @ (case rcm_rdma s of None \<Rightarrow> [] | Some i \<Rightarrow> [N_Destroy_Id i]) @ [N_Destroy_Channel ch]"
  obtain pre where pre: "rdma_memory_handler_die h =
      pre @ N_Destroy_Channel ch # [N_Munmap (h_rpc_buffer h) RPC_BUFFER_SIZE, N_Free]"
    by (simp add: rdma_memory_handler_die_def assms(2))
  have "new_calls s (rdma_connection_die s) = pre @ N_Destroy_Channel ch #
      ([N_Munmap (h_rpc_buffer h) RPC_BUFFER_SIZE, N_Free] @ ?tail)"
    using assms(1,3) by (simp add: new_calls_def rdma_connection_die_def pre)
  moreover have "\<forall>k \<in> set ([N_Munmap (h_rpc_buffer h) RPC_BUFFER_SIZE, N_Free] @ ?tail).
      \<not> creates_channel ch k"
    using handler_die_calls by (auto split: option.splits)
  ultimately show ?thesis
    using destroy_twice [of "[N_Munmap (h_rpc_buffer h) RPC_BUFFER_SIZE, N_Free] @ ?tail" ch pre st]
    by simp
qed

section \<open>Handlers\<close>

definition recv_at :: "addr \<Rightarrow> u64 \<Rightarrow> u32 \<Rightarrow> nat \<Rightarrow> lib_recv" where
  "recv_at base sz lkey i = \<lparr>lr_id = i, lr_size = sz, lr_buffer = base + of_nat i * sz, lr_lkey = lkey\<rparr>"

lemma post_lib_recvs_all:
  "\<forall>i \<in> set is. rw i \<and> post i = 0 \<Longrightarrow>
   post_lib_recvs rw post base sz lkey is rs = Inr (True, rs @ map (recv_at base sz lkey) is)"
  by (induction "is" arbitrary: rs) (simp_all add: recv_at_def)

text \<open>What the library and the kernel grant when a connection request is served.\<close>

definition handler_good :: "handler_env \<Rightarrow> bool" where
  "handler_good v \<longleftrightarrow>
     a_qp v = 0 \<and> a_accept v = 0 \<and> a_malloc v \<and> malloc_ok (a_block v 0) \<and> mmap_ret (a_block v 0) \<noteq> 0
     \<and> reg_ret (a_block v 0) \<noteq> None \<and> a_rpc_mmap v \<noteq> NULL \<and> a_rpc_reg v \<noteq> None
     \<and> (\<forall>i. a_rw v i) \<and> (\<forall>i. a_post v i = 0)"

lemma alloc_handler_good:
  assumes "handler_good v"
  shows "\<exists>h key s'. alloc_rdma_memory_handler v i s = Inr (Some h, s')
    \<and> blocks_ok h \<and> memblock_list h = [0] \<and> h_channel h = rcm_channel s \<and> h_rdma h = Some i
    \<and> rcm_handlers s' = rcm_handlers s @ [h] \<and> rcm_channel s' = rcm_channel s
    \<and> h_recvs h = map (recv_at (a_rpc_mmap v) LIB_EACH_SIZE key) [0..<MCM_MAX_RECV_WR]
    \<and> h_rpc_buffer h = a_rpc_mmap v"
proof -
  obtain p l k where reg: "a_rpc_reg v = Some (p, l, k)" using assms by (auto simp: handler_good_def)
  obtain p0 l0 k0 where reg0: "reg_ret (a_block v 0) = Some (p0, l0, k0)"
    using assms by (auto simp: handler_good_def)
  let ?mb = "\<lparr>memblock_id = 0, buffer = mmap_ret (a_block v 0),
    block_mr = Some \<lparr>mr_ptr = p0, mr_addr = mmap_ret (a_block v 0), mr_lkey = l0, mr_rkey = k0\<rparr>\<rparr>"
  have blk: "alloc_memblock (a_block v 0) 0 = Some (?mb\<lparr>block_mr := None\<rparr>)"
    "snd (set_memblock (a_block v 0) (?mb\<lparr>block_mr := None\<rparr>)) = ?mb"
    using assms reg0
    by (simp_all add: handler_good_def alloc_memblock_def set_memblock_def ibv_reg_mr_def Let_def)
  let ?tbl = "(replicate MAX_MEMBLOCK None)[0 := Some ?mb]"
  have "post_lib_recvs (a_rw v) (a_post v) (a_rpc_mmap v) LIB_EACH_SIZE l [0..<MCM_MAX_RECV_WR] [] =
      Inr (True, map (recv_at (a_rpc_mmap v) LIB_EACH_SIZE l) [0..<MCM_MAX_RECV_WR])"
    using assms by (subst post_lib_recvs_all) (auto simp: handler_good_def)
  moreover have "length ?tbl = 128" "?tbl ! 0 = Some ?mb" by (simp_all add: MAX_MEMBLOCK_def)
  moreover have "(\<forall>i < MAX_MEMBLOCK. \<forall>mb. ?tbl ! i = Some mb \<longrightarrow> block_ok i mb)"
    "{i. i < MAX_MEMBLOCK \<and> ?tbl ! i \<noteq> None} = {0}"
    by (auto simp: nth_list_update block_ok_def MAX_MEMBLOCK_def split: if_splits)
  ultimately show ?thesis
    using assms reg blk
    by (auto simp: alloc_rdma_memory_handler_def handler_good_def ib_create_rdma_qp_def qp_failed_def
        ibv_reg_mr_def Let_def blocks_ok_def PRE_ALLOC_MEMBLOCK_def)
qed

text \<open>Only the first 1088 of the 4096 receives lie in the buffer that is registered for them.\<close>

lemma rpc_recv_outside:
  "i < MCM_MAX_RECV_WR \<Longrightarrow>
   lr_buffer (recv_at base LIB_EACH_SIZE key i) - base + LIB_EACH_SIZE \<le> RPC_BUFFER_SIZE \<longleftrightarrow> i < 1088"
proof -
  assume i: "i < MCM_MAX_RECV_WR"
  have "unat (of_nat i * 64 + 64 :: u64) = i * 64 + 64"
    using i by (simp add: MCM_MAX_RECV_WR_def unat_word_ariths unat_of_nat)
  moreover have "unat RPC_BUFFER_SIZE = 69632"
    by (simp add: RPC_BUFFER_SIZE_def LIB_EACH_SIZE_def RPC_NR_BUFFER_def)
  ultimately show ?thesis
    by (simp add: recv_at_def LIB_EACH_SIZE_def word_le_nat_alt) linarith
qed

text \<open>The multicast receives lie one after the other inside their buffer.\<close>

abbreviation (input) packet_size :: u64 where "packet_size \<equiv> UD_EXTRA + PAGE_SIZE"

lemma packet_window:
  assumes "i < MCM_MAX_RECV_WR"
  shows "unat (lr_buffer (recv_at base packet_size key i) + UD_EXTRA + ucast (k :: 12 word) - base)
    = i * 4136 + 40 + unat k"
proof -
  have k: "unat k < 4096" using unsigned_less [of k] by simp
  have e: "lr_buffer (recv_at base packet_size key i) + UD_EXTRA + ucast k - base =
      of_nat i * 4136 + 40 + ucast k"
    by (simp add: recv_at_def UD_EXTRA_def)
  have "unat (ucast k :: u64) = unat k"
    using k by (simp add: unsigned_ucast_eq take_bit_nat_eq_self)
  then show ?thesis
    unfolding e using assms k by (simp add: MCM_MAX_RECV_WR_def unat_word_ariths unat_of_nat)
qed

lemma packets_inside:
  assumes "i < MCM_MAX_RECV_WR"
  shows "lr_buffer (recv_at base packet_size key i) + UD_EXTRA + ucast (k :: 12 word) - base
    < MULTICAST_BUFFER_SIZE"
proof -
  have "unat k < 4096" using unsigned_less [of k] by simp
  then have "i * 4136 + 40 + unat k < 1084227584" using assms by (simp add: MCM_MAX_RECV_WR_def)
  moreover have "unat MULTICAST_BUFFER_SIZE = 1084227584"
    by (simp add: MULTICAST_BUFFER_SIZE_def UD_EXTRA_def)
  ultimately show ?thesis using packet_window [OF assms] by (simp add: word_less_nat_alt)
qed

lemma packets_apart:
  assumes "i < MCM_MAX_RECV_WR" "j < MCM_MAX_RECV_WR" "i \<noteq> j"
  shows "apart (lr_buffer (recv_at base packet_size key i) + UD_EXTRA)
    (lr_buffer (recv_at base packet_size key j) + UD_EXTRA)"
  unfolding apart_def
proof (intro allI notI)
  fix k l :: "12 word"
  assume eq: "lr_buffer (recv_at base packet_size key i) + UD_EXTRA + ucast k =
    lr_buffer (recv_at base packet_size key j) + UD_EXTRA + ucast l"
  have split: "i = (i * 4136 + 40 + unat k) div 4136" for i and k :: "12 word"
  proof -
    have "unat k < 4096" using unsigned_less [of k] by simp
    then show ?thesis by simp
  qed
  have "i * 4136 + 40 + unat k = j * 4136 + 40 + unat l"
    using packet_window [OF assms(1), of base key k] packet_window [OF assms(2), of base key l] eq
    by (simp only:)
  then show False using split [of i k] split [of j l] assms(3) by (simp only:)
qed

text \<open>So the layout the server relies on holds when \<open>mmap\<close> returns disjoint regions.\<close>

lemma layout_of_mmap:
  assumes blocks: "\<forall>n < MAX_MEMBLOCK. \<forall>m < MAX_MEMBLOCK. \<forall>x.
      n \<noteq> m \<longrightarrow> in_block (mmap_ret (env n)) x \<longrightarrow> \<not> in_block (mmap_ret (env m)) x"
    and buf: "\<forall>n < MAX_MEMBLOCK. \<forall>x. in_block (mmap_ret (env n)) x \<longrightarrow> \<not> x - base < MULTICAST_BUFFER_SIZE"
    and bufs: "\<forall>i < MCM_MAX_RECV_WR. bufs (rw i) = lr_buffer (recv_at base packet_size key i)"
  shows "layout env (rw ` {..<MCM_MAX_RECV_WR}) bufs"
  unfolding layout_def
proof (intro conjI)
  show "\<forall>w \<in> rw ` {..<MCM_MAX_RECV_WR}. \<forall>n < MAX_MEMBLOCK. \<forall>k :: 12 word.
      \<not> in_block (mmap_ret (env n)) (bufs w + UD_EXTRA + ucast k)"
  proof (intro ballI allI impI)
    fix w n and k :: "12 word"
    assume n: "n < MAX_MEMBLOCK" and "w \<in> rw ` {..<MCM_MAX_RECV_WR}"
    then obtain i where i: "i < MCM_MAX_RECV_WR" "w = rw i" by auto
    have "bufs w + UD_EXTRA + ucast k - base < MULTICAST_BUFFER_SIZE"
      using packets_inside [OF i(1), of base key k] bufs i by simp
    then show "\<not> in_block (mmap_ret (env n)) (bufs w + UD_EXTRA + ucast k)" using buf n by blast
  qed
  show "\<forall>w \<in> rw ` {..<MCM_MAX_RECV_WR}. \<forall>w' \<in> rw ` {..<MCM_MAX_RECV_WR}. w \<noteq> w' \<longrightarrow>
      apart (bufs w + UD_EXTRA) (bufs w' + UD_EXTRA)"
  proof (intro ballI impI)
    fix w w'
    assume "w \<in> rw ` {..<MCM_MAX_RECV_WR}" "w' \<in> rw ` {..<MCM_MAX_RECV_WR}" "w \<noteq> w'"
    then obtain i j where ij: "i < MCM_MAX_RECV_WR" "w = rw i" "j < MCM_MAX_RECV_WR" "w' = rw j" "i \<noteq> j"
      by auto
    show "apart (bufs w + UD_EXTRA) (bufs w' + UD_EXTRA)"
      using packets_apart [OF ij(1,3,5), of base key] bufs ij by simp
  qed
qed (rule blocks)

section \<open>The server start's main properties\<close>

text \<open>
  C35: Starting to listen either succeeds with one channel and one id created and recorded, or fails
  with everything it created destroyed again, each object once and none before it existed.
\<close>

theorem server_listens_or_cleans_up:
  "case ib_rdma_server_connect v port s of
     (True, s') \<Rightarrow> (\<exists>ch i. rcm_channel s' = Some ch \<and> rcm_rdma s' = Some i
        \<and> use_calls (new_calls s s') no_objects = Some \<lparr>o_channels = {ch}, o_ids = {i}, o_qps = {}\<rparr>)
   | (False, s') \<Rightarrow> rcm_channel s' = None \<and> use_calls (new_calls s s') no_objects = Some no_objects"
  using server_connect_outcome [where v = v and port = port and s = s]
  by (auto split: prod.splits bool.splits)

text \<open>
  A client whose address, route, queue pair and connection are all granted is connected, holding
  one channel, one id and one queue pair; but when resolving the address fails, the error path
  destroys a queue pair that was never created.
\<close>

theorem client_connects:
  assumes "c_channel v = Some ch" "c_id v = Some i"
  shows "(c_resolve v = 0 \<and> c_route v = 0 \<and> c_qp v = 0 \<and> c_connect v = 0
      \<and> c_events v 0 = (0, ADDR_RESOLVED) \<and> c_events v 1 = (0, ROUTE_RESOLVED)
      \<and> c_events v 2 = (0, ESTABLISHED) \<longrightarrow>
      (\<exists>s'. ib_rdma_client_connect v ip port s = (True, s') \<and> rcm_rdma s' = Some i
        \<and> use_calls (new_calls s s') no_objects = Some \<lparr>o_channels = {ch}, o_ids = {i}, o_qps = {i}\<rparr>))
    \<and> (c_resolve v \<noteq> 0 \<longrightarrow>
      (\<exists>s'. ib_rdma_client_connect v ip port s = (False, s') \<and> use_calls (new_calls s s') no_objects = None))"
  using client_connect_ok [OF assms, of ip port s] client_connect_no_qp [OF assms, of ip port s] by blast

definition ex_net :: net where
  "ex_net = \<lparr>rcm_channel = None, rcm_rdma = None, rcm_alive = False, rcm_nr_user = 0,
     rcm_server_ip = [], rcm_server_port = 50000, rcm_handlers = [], mcm_channel = None,
     mcm_multicast = None, mcm_ah = False, mcm_qpn = 0, mcm_qkey = 0, mcm_ip = [],
     mcm_realloc = False, mcm_handler = None, net_binders = [], n_calls = []\<rparr>"

definition ex_connect :: connect_env where
  "ex_connect = \<lparr>c_channel = Some 1, c_id = Some 2, c_bind = 0, c_listen = 0, c_resolve = 0,
     c_route = 0, c_qp = 0, c_connect = 0, c_join = 0, c_addr1 = 0, c_addr2 = 0,
     c_events = (\<lambda>n. (0, [ADDR_RESOLVED, ROUTE_RESOLVED, ESTABLISHED] ! n)), c_ah = True,
     c_qpn = 1, c_qkey = 2\<rparr>"

theorem client_connects_witness:
  "(\<exists>s'. ib_rdma_client_connect ex_connect [] 50000 ex_net = (True, s') \<and> rcm_rdma s' = Some 2)
   \<and> (\<exists>s'. ib_rdma_client_connect (ex_connect\<lparr>c_resolve := - 1\<rparr>) [] 50000 ex_net = (False, s')
        \<and> use_calls (new_calls ex_net s') no_objects = None)"
  using client_connects [of ex_connect 1 2 "[]" 50000 ex_net]
    client_connects [of "ex_connect\<lparr>c_resolve := - 1\<rparr>" 1 2 "[]" 50000 ex_net]
  by (auto simp: ex_connect_def)

text \<open>
  A connection's handler shares the event channel of its connection manager, and both destroy it:
  shutting down after a client was accepted destroys the channel a second time.
\<close>

theorem accepted_then_die_twice:
  assumes "handler_good v" "rcm_channel s = Some ch" "rcm_handlers s = []"
  shows "\<exists>h s'. alloc_rdma_memory_handler v i s = Inr (Some h, s') \<and> rcm_handlers s' = [h]
    \<and> use_calls (new_calls s' (rdma_connection_die s')) st = None"
proof -
  obtain h s' where h: "alloc_rdma_memory_handler v i s = Inr (Some h, s')" "rcm_handlers s' = [h]"
      "h_channel h = Some ch" "rcm_channel s' = Some ch"
    using alloc_handler_good [OF assms(1), of i s] assms(2,3) by auto
  with connection_die_twice [OF h(2-4)] show ?thesis by blast
qed

definition ex_handler_env :: handler_env where
  "ex_handler_env = \<lparr>a_qp = 0, a_accept = 0, a_malloc = True,
     a_block = (\<lambda>n. \<lparr>malloc_ok = True, mmap_ret = of_nat (n + 1) * 0x40000000, reg_ret = Some (1, 1, 1)\<rparr>),
     a_rpc_mmap = 0x10000, a_rpc_reg = Some (1, 1, 1), a_rw = (\<lambda>_. True), a_post = (\<lambda>_. 0)\<rparr>"

lemma ex_handler_good: "handler_good ex_handler_env"
  by (simp add: handler_good_def ex_handler_env_def)

theorem accepted_then_die_twice_witness:
  "\<exists>h s'. alloc_rdma_memory_handler ex_handler_env 7 (ex_net\<lparr>rcm_channel := Some 1\<rparr>) = Inr (Some h, s')
    \<and> use_calls (new_calls s' (rdma_connection_die s')) \<lparr>o_channels = {1}, o_ids = {7}, o_qps = {7}\<rparr> = None"
  using accepted_then_die_twice [OF ex_handler_good, of "ex_net\<lparr>rcm_channel := Some 1\<rparr>" 1 7
      "\<lparr>o_channels = {1}, o_ids = {7}, o_qps = {7}\<rparr>"]
  unfolding ex_net_def by (simp only: net.select_convs net.update_convs) blast

text \<open>
  Accepting a connection sets up a well-formed block table with block 0 in it and posts 4096
  receives of 64 bytes each; the buffer behind them has room for the first 1088 only, every
  later receive points outside of it.
\<close>

theorem accepted_handler:
  assumes "handler_good v"
  shows "\<exists>h s'. alloc_rdma_memory_handler v i s = Inr (Some h, s')
    \<and> blocks_ok h \<and> memblock_list h = [0] \<and> length (h_recvs h) = 4096
    \<and> (\<forall>j < 4096. lr_buffer (h_recvs h ! j) - h_rpc_buffer h + LIB_EACH_SIZE \<le> RPC_BUFFER_SIZE \<longleftrightarrow> j < 1088)"
proof -
  obtain h key s' where h: "alloc_rdma_memory_handler v i s = Inr (Some h, s')" "blocks_ok h"
      "memblock_list h = [0]"
      "h_recvs h = map (recv_at (a_rpc_mmap v) LIB_EACH_SIZE key) [0..<MCM_MAX_RECV_WR]"
      "h_rpc_buffer h = a_rpc_mmap v"
    using alloc_handler_good [OF assms, of i s] by blast
  then show ?thesis using rpc_recv_outside [of _ "a_rpc_mmap v" key] by (simp add: MCM_MAX_RECV_WR_def)
qed

theorem accepted_handler_witness:
  "\<exists>h s'. alloc_rdma_memory_handler ex_handler_env 7 ex_net = Inr (Some h, s')
    \<and> \<not> lr_buffer (h_recvs h ! 2000) - h_rpc_buffer h + LIB_EACH_SIZE \<le> RPC_BUFFER_SIZE"
  using accepted_handler [OF ex_handler_good, of 7 ex_net] by auto

lemma post_lib_recvs_posted:
  "post_lib_recvs rw post base sz lkey is rs = Inr (True, rs') \<Longrightarrow> rs' = rs @ map (recv_at base sz lkey) is"
  by (induction "is" arbitrary: rs) (fastforce simp: recv_at_def split: if_splits)+

text \<open>
  Joining the group posts 4096 receives whose packets lie inside the multicast buffer and
  overlap nowhere: the page a packet carries is never overwritten by another packet.
\<close>

theorem multicast_packets_apart:
  assumes "alloc_multicast_memory_handler v s = Inr (Some m, s')"
  shows "length (mh_recvs m) = 4096 \<and> mcm_handler s' = Some m
    \<and> (\<forall>i < 4096. \<forall>k :: 12 word.
         lr_buffer (mh_recvs m ! i) + UD_EXTRA + ucast k - mh_buffer m < MULTICAST_BUFFER_SIZE)
    \<and> (\<forall>i < 4096. \<forall>j < 4096. i \<noteq> j \<longrightarrow>
         apart (lr_buffer (mh_recvs m ! i) + UD_EXTRA) (lr_buffer (mh_recvs m ! j) + UD_EXTRA))"
proof -
  have "(\<exists>key. mh_recvs m = map (recv_at (mh_buffer m) packet_size key) [0..<MCM_MAX_RECV_WR])
      \<and> mcm_handler s' = Some m"
    using assms
    by (auto simp: alloc_multicast_memory_handler_def Let_def rbind_Inr_iff
        dest!: post_lib_recvs_posted split: if_splits option.splits)
  then obtain key where "mh_recvs m = map (recv_at (mh_buffer m) packet_size key) [0..<MCM_MAX_RECV_WR]"
      "mcm_handler s' = Some m" by blast
  then show ?thesis
    using packets_inside [of _ "mh_buffer m" key] packets_apart [of _ _ "mh_buffer m" key]
    by (simp add: MCM_MAX_RECV_WR_def)
qed

definition ex_mhandler_env :: mhandler_env where
  "ex_mhandler_env = \<lparr>b_malloc = True, b_mmap = 0x100000, b_reg = Some (1, 1, 1),
     b_rpc_mmap = 0x20000, b_rpc_reg = Some (2, 2, 2), b_rw = (\<lambda>_. True), b_post = (\<lambda>_. 0)\<rparr>"

theorem multicast_packets_apart_witness:
  "\<exists>m s'. alloc_multicast_memory_handler ex_mhandler_env (ex_net\<lparr>mcm_multicast := Some 3\<rparr>) = Inr (Some m, s')
    \<and> apart (lr_buffer (mh_recvs m ! 0) + UD_EXTRA) (lr_buffer (mh_recvs m ! 1) + UD_EXTRA)"
proof -
  have "\<exists>m s'. alloc_multicast_memory_handler ex_mhandler_env (ex_net\<lparr>mcm_multicast := Some 3\<rparr>) = Inr (Some m, s')"
    by (simp add: alloc_multicast_memory_handler_def ex_mhandler_env_def ex_net_def Let_def ibv_reg_mr_def
        post_lib_recvs_all)
  then show ?thesis using multicast_packets_apart by fastforce
qed

end
