(* ===== verification/Setup_Proofs.thy ===== *)
theory Setup_Proofs
  imports Driver_Setup Driver_Proofs
begin

text \<open>
  Lemmas on connecting and unloading: the handshake that brings a connection up, when
  \<open>cm_done\<close> is completed, what happens when an allocation fails, which memory the posted
  receives cover, and what unloading frees.
\<close>

unbundle bit_operations_syntax

section \<open>The handshake\<close>

lemma free_cq_if_simps [simp]:
  "free_cq_if P_Null c = Inr c" "free_cq_if P_Err c = Inl Bad_Pointer"
  "free_cq_if P_Live c = Inr (emit (Free_Cq P_Live) c)"
  by (simp_all add: free_cq_if_def)

lemma emit_simps [simp]:
  "alive (emit k c) = alive c" "rc_pd (emit k c) = rc_pd c" "rc_mr (emit k c) = rc_mr c"
  "rc_snd_cq (emit k c) = rc_snd_cq c" "rc_rcv_cq (emit k c) = rc_rcv_cq c"
  "rc_qp (emit k c) = rc_qp c" "rc_rdma (emit k c) = rc_rdma c" "rc_buffer (emit k c) = rc_buffer c"
  "cm_error (emit k c) = cm_error c" "cm_done (emit k c) = cm_done c"
  "rc_works (emit k c) = rc_works c" "trace (emit k c) = trace c @ [k]"
  "rdma_info (emit k c) = rdma_info c" "rcv_buffer (emit k c) = rcv_buffer c"
  by (simp_all add: emit_def)

text \<open>Everything the kernel is asked for during the three handshake events is granted.\<close>

definition setup_good :: "setup_env \<Rightarrow> bool" where
  "setup_good e \<longleftrightarrow>
     v_pd e = P_Live \<and> v_mr e = P_Live \<and> v_snd_cq e = P_Live \<and> v_rcv_cq e = P_Live
     \<and> v_qp e = 0 \<and> v_route e = 0 \<and> v_connect e = 0 \<and> v_rcv_buffer e \<noteq> NULL
     \<and> v_dma1 e \<noteq> None \<and> v_dma2 e \<noteq> None \<and> (\<forall>i. v_rw e i) \<and> (\<forall>i. v_post e i = 0)"

lemma addr_resolved_good:
  assumes "setup_good e"
  shows "\<exists>c'. rdma_addr_resolved e c = Inr (0, c') \<and> rc_pd c' = P_Live \<and> rc_mr c' = P_Live
    \<and> rc_qp c' = P_Live \<and> rc_snd_cq c' = P_Live \<and> rc_rcv_cq c' = P_Live
    \<and> rc_rdma c' = rc_rdma c \<and> rc_buffer c' = rc_buffer c \<and> rc_works c' = rc_works c
    \<and> cm_error c' = cm_error c \<and> cm_done c' = cm_done c
    \<and> (\<exists>a. trace c' = trace c @ [Create_Qp a, Resolve_Route])"
  using assms by (simp add: rdma_addr_resolved_def rdma_ctrl_create_qp_def setup_good_def Let_def)

lemma post_recvs_good:
  assumes "\<forall>i. v_rw e i" "\<forall>i. v_post e i = 0"
  shows "post_recvs e dma is c = Inr (0, c\<lparr>rc_works := rc_works c @ map (\<lambda>i.
    \<lparr>w_id = i, w_size = RPC_MAX_EACH_SIZE, w_buffer = rcv_buffer c + of_nat i * RPC_MAX_EACH_SIZE,
     w_sge_addr = dma + of_nat i * RPC_MAX_EACH_SIZE, w_sge_length = RPC_MAX_EACH_SIZE\<rparr>) is\<rparr>)"
  using assms by (induction "is" arbitrary: c) simp_all

text \<open>The buffer of receive \<open>i\<close>, relative to \<open>rcv_buffer\<close>.\<close>

lemma established_good:
  assumes "setup_good e"
  shows "\<exists>c'. rdma_connect_established e c = Inr (0, c') \<and> alive c'
    \<and> rcv_buffer c' = v_rcv_buffer e
    \<and> map w_buffer (rc_works c') =
        map w_buffer (rc_works c) @ map (\<lambda>i. v_rcv_buffer e + of_nat i * RPC_MAX_EACH_SIZE) [0..<NR_RECV]
    \<and> rc_rdma c' = rc_rdma c \<and> rc_buffer c' = rc_buffer c \<and> rc_qp c' = rc_qp c \<and> rc_mr c' = rc_mr c
    \<and> cm_error c' = cm_error c \<and> cm_done c' = cm_done c \<and> trace c' = trace c"
  using assms
  by (auto simp: rdma_connect_established_def setup_good_def Let_def get_req_for_buf_def post_recvs_good)

lemma handshake:
  assumes "setup_good e1" "setup_good e2" "setup_good e3" "cm_done c = 0" "cm_error c = 0"
  shows "\<exists>c'. rdma_ctrl_wait_for_cm ((ADDR_RESOLVED, e1) # (ROUTE_RESOLVED, e2) # (ESTABLISHED, e3) # evs) c
      = Inr (0, c')
    \<and> alive c' \<and> cm_done c' = 1 \<and> rc_qp c' = P_Live \<and> rc_mr c' = P_Live \<and> rc_rdma c' = rc_rdma c
    \<and> rc_buffer c' = rc_buffer c
    \<and> length (rc_works c') = length (rc_works c) + NR_RECV
    \<and> (\<exists>a. trace c' = trace c @ [Create_Qp a, Resolve_Route, Connect 16 16 7 7])"
proof -
  obtain c1 a where c1: "rdma_addr_resolved e1 c = Inr (0, c1)" "rc_mr c1 = P_Live" "rc_qp c1 = P_Live"
      "rc_rdma c1 = rc_rdma c" "rc_works c1 = rc_works c" "cm_error c1 = 0" "cm_done c1 = 0"
      "rc_buffer c1 = rc_buffer c" "trace c1 = trace c @ [Create_Qp a, Resolve_Route]"
    using addr_resolved_good [OF assms(1), of c] assms(4,5) by auto
  let ?c2 = "emit (Connect 16 16 7 7) c1"
  have c2: "rdma_route_resolved e2 c1 = (0, ?c2)"
    using assms(2) by (simp add: rdma_route_resolved_def setup_good_def Let_def)
  obtain c3 where c3: "rdma_connect_established e3 ?c2 = Inr (0, c3)" "alive c3"
      "map w_buffer (rc_works c3) = map w_buffer (rc_works ?c2) @
         map (\<lambda>i. v_rcv_buffer e3 + of_nat i * RPC_MAX_EACH_SIZE) [0..<NR_RECV]"
      "rc_rdma c3 = rc_rdma ?c2" "rc_qp c3 = rc_qp ?c2" "rc_mr c3 = rc_mr ?c2" "cm_error c3 = 0"
      "cm_done c3 = 0" "rc_buffer c3 = rc_buffer c1" "trace c3 = trace ?c2"
    using established_good [OF assms(3), of ?c2] c1(6,7) by auto
  have len: "length (rc_works c3) = length (rc_works c) + NR_RECV"
    using arg_cong [OF c3(3), of length] c1(5) by simp
  have w: "rdma_ctrl_wait_for_cm evs (complete c3) = Inr (0, complete c3)"
    using c3(7,8) by (cases evs) (auto simp: complete_def)
  show ?thesis
    using c1 c2 c3 len w assms(4,5)
    by (simp add: ib_rdma_cm_handler_def) (simp add: complete_def)
qed

section \<open>When the wait ends\<close>

text \<open>The handlers of single events do not touch \<open>cm_done\<close> and \<open>cm_error\<close> themselves.\<close>

lemma free_cq_if_keeps: "free_cq_if p c = Inr c' \<Longrightarrow> cm_done c' = cm_done c \<and> cm_error c' = cm_error c"
  by (cases p) auto

lemma addr_resolved_keeps:
  "rdma_addr_resolved e c = Inr (r, c') \<Longrightarrow> cm_done c' = cm_done c \<and> cm_error c' = cm_error c"
  by (auto simp: rdma_addr_resolved_def rdma_ctrl_create_qp_def Let_def rbind_Inr_iff
      split: if_splits dest!: free_cq_if_keeps)

lemma post_recvs_keeps:
  "post_recvs e dma is c = Inr (r, c') \<Longrightarrow> cm_done c' = cm_done c \<and> cm_error c' = cm_error c"
  by (induction "is" arbitrary: c) (auto simp: Let_def split: if_splits)

lemma established_keeps:
  "rdma_connect_established e c = Inr (r, c') \<Longrightarrow> cm_done c' = cm_done c \<and> cm_error c' = cm_error c"
  by (auto simp: rdma_connect_established_def get_req_for_buf_def Let_def rbind_Inr_iff
      split: if_splits option.splits dest!: post_recvs_keeps)

text \<open>An event wakes the waiting thread exactly when it is ESTABLISHED or leaves an error.\<close>

lemma handler_wakes:
  assumes "ib_rdma_cm_handler ev e c = Inr (r, c')" "cm_error c = 0"
  shows "cm_done c' > cm_done c \<longleftrightarrow> ev = ESTABLISHED \<or> r \<noteq> 0"
    and "r = cm_error c'"
proof -
  have "(cm_done c' > cm_done c \<longleftrightarrow> ev = ESTABLISHED \<or> r \<noteq> 0) \<and> r = cm_error c'"
    using assms
    by (cases ev)
      (auto simp: ib_rdma_cm_handler_def rbind_Inr_iff complete_def rdma_route_resolved_def Let_def
        EINVAL_def ECONNRESET_def split: if_splits dest!: addr_resolved_keeps established_keeps)
  then show "cm_done c' > cm_done c \<longleftrightarrow> ev = ESTABLISHED \<or> r \<noteq> 0" and "r = cm_error c'" by auto
qed

text \<open>Once an error is recorded, every later event is answered with an error.\<close>

lemma handler_error_sticks:
  assumes "ib_rdma_cm_handler ev e c = Inr (r, c')" "cm_error c \<noteq> 0"
  shows "r \<noteq> 0 \<and> cm_error c' \<noteq> 0"
  using assms
  by (cases ev)
    (auto simp: ib_rdma_cm_handler_def rbind_Inr_iff complete_def rdma_route_resolved_def Let_def
      EINVAL_def ECONNRESET_def split: if_splits dest!: addr_resolved_keeps established_keeps)

section \<open>Failures\<close>

text \<open>
  A completion queue that cannot be had is an error pointer, and the error path frees what
  is not NULL.
\<close>

lemma addr_resolved_cq_fails:
  assumes "v_pd e = P_Live" "v_mr e = P_Live" "rc_rcv_cq c = P_Null"
    and "v_snd_cq e = P_Err \<or> v_snd_cq e = P_Live \<and> v_rcv_cq e = P_Err"
  shows "rdma_addr_resolved e c = Inl Bad_Pointer"
  using assms by (auto simp: rdma_addr_resolved_def Let_def)

lemma joined_cq_fails:
  assumes "v_ud e" "v_ah e = P_Live" "m_rcv_cq m = P_Null"
    and "v_snd_cq e = P_Err \<or> v_snd_cq e = P_Live \<and> v_rcv_cq e = P_Err"
  shows "multicast_ctrl_joined e dest m = Inl Bad_Pointer"
  using assms by (auto simp: multicast_ctrl_joined_def m_free_cq_if_def m_emit_def Let_def)

text \<open>Half of the receives are posted with buffers beyond the one page allocated for them.\<close>

lemma recv_buffers_overrun:
  assumes "setup_good e" "rc_works c = []" "16 \<le> i" "i < NR_RECV"
  shows "\<exists>c'. rdma_connect_established e c = Inr (0, c')
    \<and> w_buffer (rc_works c' ! i) - rcv_buffer c' \<ge> PAGE_SIZE"
proof -
  obtain c' where c': "rdma_connect_established e c = Inr (0, c')" "rcv_buffer c' = v_rcv_buffer e"
      "map w_buffer (rc_works c') = map (\<lambda>i. v_rcv_buffer e + of_nat i * RPC_MAX_EACH_SIZE) [0..<NR_RECV]"
    using established_good [OF assms(1), of c] assms(2) by auto
  have len: "length (rc_works c') = NR_RECV" using arg_cong [OF c'(3), of length] by simp
  have "w_buffer (rc_works c' ! i) = map w_buffer (rc_works c') ! i"
    using assms(4) len by simp
  then have w: "w_buffer (rc_works c' ! i) - rcv_buffer c' = of_nat i * RPC_MAX_EACH_SIZE"
    using c' assms(4) by simp
  have r: "RPC_MAX_EACH_SIZE = 256" by (simp add: RPC_MAX_EACH_SIZE_def)
  have "unat (of_nat i * RPC_MAX_EACH_SIZE) = i * 256"
    using assms(4) by (simp add: r unat_word_ariths unat_of_nat NR_RECV_def)
  then have "0x1000 \<le> (of_nat i * RPC_MAX_EACH_SIZE :: u64)"
    using assms(3) by (simp add: word_le_nat_alt)
  then show ?thesis using c'(1) w by auto
qed

text \<open>A connection is handed out although no event of the handshake has come.\<close>

lemma init_rdma_ctrl_timeout:
  assumes "n_ctrl v" "n_buffer v \<noteq> NULL" "n_id v = P_Live" "n_resolve v = 0" "n_events v = []"
    and "fst (parse_ipaddr pton ip) = 0" "fst (parse_ipaddr pton src_ip) = 0"
  shows "\<exists>c. init_rdma_ctrl v pton src_ip ip n list = Inr (True, c, n # list)
    \<and> \<not> alive c \<and> cm_error c = 0 \<and> rc_qp c = P_Null"
  using assms by (simp add: init_rdma_ctrl_def set_rdma_def zero_conn_def Let_def)

text \<open>Loading succeeds without a staging buffer; the first write that gets to it crashes.\<close>

lemma init_stage_buffer_fails:
  "init_stage_buffer NULL sb = (0, sb\<lparr>sb_buffer := NULL\<rparr>)"
  by (simp add: init_stage_buffer_def)

lemma write_without_stage:
  assumes "sb_buffer (stage_buffer d) = NULL" "sb_count (stage_buffer d) < CONFIG_BATCH"
    and "main_ctrl d = Ctrl mn" "block_open (unat (get_num_memblock off)) d"
    and "sint (atomic_read (drv_batch d)) < CONFIG_BATCH" "io_dma io = Some dma" "io_post io = 0"
  shows "maruswap_multicast_write env io page off d = Inl Null_Pointer"
  using assms check_rdma_info_open [OF assms(4)]
  by (simp add: maruswap_multicast_write_def deref_def get_main_rdma_ctrl_def get_req_for_page_def
      drv_multicast_send_def stage_buffer_store_def stage_buffer_full_def Let_def)

section \<open>Unloading\<close>

definition conn_good :: "conn \<Rightarrow> bool" where
  "conn_good c \<longleftrightarrow> rc_mr c = P_Live \<and> rc_buffer c \<noteq> NULL \<and> rc_qp c = P_Live \<and> rc_rdma c = P_Live"

lemma cleanup_conn_good:
  assumes "conn_good c"
  shows "\<exists>c'. cleanup_conn c = Inr c'
    \<and> trace c' = trace c @ [Dereg_Mr P_Live, Kfree (rc_buffer c), Destroy_Qp, Destroy_Id]"
  using assms by (simp add: cleanup_conn_def dereg_mr_if_def destroy_id_if_def conn_good_def Let_def)

lemma free_stage_simps [simp]:
  "k_conns (free_stage k) = k_conns k" "k_list (free_stage k) = k_list k"
  "k_multicast (free_stage k) = k_multicast k" "sb_buffer (k_stage (free_stage k)) = NULL"
  "k_trace (free_stage k) = k_trace k @ (if sb_buffer (k_stage k) = NULL then []
     else [Kfree (sb_buffer (k_stage k)), Destroy_Xarray])"
  by (simp_all add: free_stage_def)

text \<open>
  Unloading a fully connected module visits every connection once, in list order, makes the
  four calls for it, empties the list, and frees the staging buffer once.
\<close>

lemma cleanup_each_good:
  assumes "\<forall>n \<in> set ns. conn_good (k_conns k n)" "distinct ns" "k_list k = ns"
  shows "\<exists>k'. cleanup_each ns k = Inr k' \<and> k_list k' = [] \<and> k_multicast k' = k_multicast k
    \<and> (\<forall>n. trace (k_conns k' n) = (if n \<in> set ns
         then trace (k_conns k n) @
           [Dereg_Mr P_Live, Kfree (rc_buffer (k_conns k n)), Destroy_Qp, Destroy_Id]
         else trace (k_conns k n)))
    \<and> k_trace k' = k_trace k @ (if ns = [] \<or> sb_buffer (k_stage k) = NULL then []
         else [Kfree (sb_buffer (k_stage k)), Destroy_Xarray])"
  using assms
proof (induction ns arbitrary: k)
  case Nil
  then show ?case by simp
next
  case (Cons n ns)
  let ?k1 = "free_stage k"
  obtain c where c: "cleanup_conn (k_conns k n) = Inr c"
      "trace c = trace (k_conns k n) @
         [Dereg_Mr P_Live, Kfree (rc_buffer (k_conns k n)), Destroy_Qp, Destroy_Id]"
    using cleanup_conn_good [of "k_conns k n"] Cons.prems(1) by auto
  let ?k2 = "?k1\<lparr>k_conns := (k_conns ?k1)(n := c), k_list := remove1 n (k_list ?k1)\<rparr>"
  have pre: "\<forall>m \<in> set ns. conn_good (k_conns ?k2 m)" "distinct ns" "k_list ?k2 = ns"
    using Cons.prems by auto
  have step: "cleanup_each (n # ns) k = cleanup_each ns ?k2"
    using c(1) by (simp add: Let_def)
  obtain k' where k': "cleanup_each ns ?k2 = Inr k'" "k_list k' = []" "k_multicast k' = k_multicast ?k2"
      "\<forall>m. trace (k_conns k' m) = (if m \<in> set ns
         then trace (k_conns ?k2 m) @
           [Dereg_Mr P_Live, Kfree (rc_buffer (k_conns ?k2 m)), Destroy_Qp, Destroy_Id]
         else trace (k_conns ?k2 m))"
      "k_trace k' = k_trace ?k2 @ (if ns = [] \<or> sb_buffer (k_stage ?k2) = NULL then []
         else [Kfree (sb_buffer (k_stage ?k2)), Destroy_Xarray])"
    using Cons.IH [OF pre] by blast
  have n: "n \<notin> set ns" using Cons.prems(2) by simp
  show ?case
    unfolding step using k' c(2) n by (intro exI [of _ k']) (auto cong: if_cong)
qed

lemma cleanup_ib_good:
  assumes "\<forall>n \<in> set (k_list k). conn_good (k_conns k n)" "distinct (k_list k)"
    and "m_multicast (k_multicast k) = P_Live" "m_qp (k_multicast k) = P_Live" "m_mr (k_multicast k) = P_Null"
  shows "\<exists>k'. cleanup_ib k = Inr k' \<and> k_list k' = []
    \<and> m_trace (k_multicast k') = m_trace (k_multicast k) @ [Leave_Multicast, Destroy_Qp, Destroy_Id]
    \<and> (\<forall>n \<in> set (k_list k). trace (k_conns k' n) = trace (k_conns k n) @
         [Dereg_Mr P_Live, Kfree (rc_buffer (k_conns k n)), Destroy_Qp, Destroy_Id])"
  using cleanup_each_good [OF assms(1,2) refl] assms(3-5)
  by (auto simp: cleanup_ib_def m_destroy_if_def m_emit_def Let_def)

section \<open>Load, then unload\<close>

definition good_events :: "(cm_event \<times> setup_env) list \<Rightarrow> bool" where
  "good_events evs \<longleftrightarrow> (\<exists>e1 e2 e3 rest.
     evs = (ADDR_RESOLVED, e1) # (ROUTE_RESOLVED, e2) # (ESTABLISHED, e3) # rest
     \<and> setup_good e1 \<and> setup_good e2 \<and> setup_good e3)"

definition create_good :: "create_env \<Rightarrow> bool" where
  "create_good v \<longleftrightarrow> n_ctrl v \<and> n_buffer v \<noteq> NULL \<and> n_id v = P_Live \<and> n_resolve v = 0
     \<and> good_events (n_events v)"

definition address_ok :: "(string \<Rightarrow> u32 option) \<Rightarrow> string \<Rightarrow> bool" where
  "address_ok pton ip \<longleftrightarrow> length ip \<le> INET_ADDRSTRLEN \<and> pton ip \<noteq> None"

lemma parse_address_ok: "address_ok pton ip \<Longrightarrow> fst (parse_ipaddr pton ip) = 0"
  by (auto simp: address_ok_def parse_ipaddr_def)

lemma wait_result: "rdma_ctrl_wait_for_cm evs c = Inr (r, c') \<Longrightarrow> r = cm_error c'"
  by (induction evs c rule: rdma_ctrl_wait_for_cm.induct)
    (auto simp: rbind_Inr_iff split: if_splits)

lemma init_rdma_ctrl_good:
  assumes "create_good v" "address_ok pton ip" "address_ok pton src_ip"
  shows "\<exists>c a. init_rdma_ctrl v pton src_ip ip n list = Inr (True, c, n # list)
    \<and> alive c \<and> conn_good c \<and> cm_error c = 0 \<and> length (rc_works c) = NR_RECV
    \<and> trace c = [Create_Id, Resolve_Addr, Create_Qp a, Resolve_Route, Connect 16 16 7 7]"
proof -
  obtain e1 e2 e3 rest where ev: "n_events v =
        (ADDR_RESOLVED, e1) # (ROUTE_RESOLVED, e2) # (ESTABLISHED, e3) # rest"
      "setup_good e1" "setup_good e2" "setup_good e3"
    using assms(1) by (auto simp: create_good_def good_events_def)
  let ?c = "emit Resolve_Addr (emit Create_Id (zero_conn\<lparr>rc_id := int n, alive := False,
      rc_buffer := n_buffer v, rc_rdma := n_id v\<rparr>))"
  have z: "cm_done ?c = 0" "cm_error ?c = 0" "rc_buffer ?c = n_buffer v" "rc_rdma ?c = n_id v"
    "rc_works ?c = []" "trace ?c = [Create_Id, Resolve_Addr]" by (simp_all add: zero_conn_def)
  have "\<exists>c' a. rdma_ctrl_wait_for_cm (n_events v) ?c = Inr (0, c') \<and> alive c'
      \<and> rc_qp c' = P_Live \<and> rc_mr c' = P_Live \<and> rc_rdma c' = n_id v \<and> rc_buffer c' = n_buffer v
      \<and> length (rc_works c') = NR_RECV
      \<and> trace c' = [Create_Id, Resolve_Addr, Create_Qp a, Resolve_Route, Connect 16 16 7 7]"
    using handshake [OF ev(2-4) z(1,2), of rest] unfolding z(3-6) ev(1)
    by (auto simp del: rdma_ctrl_wait_for_cm.simps)
  then obtain c' a where c': "rdma_ctrl_wait_for_cm (n_events v) ?c = Inr (0, c')" "alive c'"
      "rc_qp c' = P_Live" "rc_mr c' = P_Live" "rc_rdma c' = n_id v" "rc_buffer c' = n_buffer v"
      "length (rc_works c') = NR_RECV"
      "trace c' = [Create_Id, Resolve_Addr, Create_Qp a, Resolve_Route, Connect 16 16 7 7]"
    by blast
  have "cm_error c' = 0" using wait_result [OF c'(1)] by simp
  moreover have "init_rdma_ctrl v pton src_ip ip n list = Inr (True, c', n # list)"
    using assms c'(1) parse_address_ok
    by (simp add: init_rdma_ctrl_def set_rdma_def Let_def create_good_def)
  ultimately show ?thesis using c' assms(1) by (auto simp: create_good_def conn_good_def)
qed

lemma multicast_good:
  assumes "setup_good e1" "v_join e1 = 0" "setup_good e2" "v_ud e2" "v_ah e2 = P_Live"
    and "address_ok pton ip" "address_ok pton src_ip"
  shows "\<exists>m a. init_multicast_ctrl P_Live 0 ((ADDR_RESOLVED, e1, dest1) # (MULTICAST_JOIN, e2, dest) # rest)
      pton ip src_ip = Inr (0, m)
    \<and> m_multicast m = P_Live \<and> m_qp m = P_Live \<and> m_mr m = P_Null \<and> m_ud m = Some dest \<and> m_ud_qp m = P_Live
    \<and> m_trace m = [Create_Id, Resolve_Addr, Join_Multicast 1, Create_Ah, Create_Qp a]"
proof -
  have w: "multicast_wait rest (m_complete m) = Inr (m_complete m)" for m
    by (cases rest) (auto simp: m_complete_def)
  show ?thesis
    using assms parse_address_ok w
    by (simp add: init_multicast_ctrl_def ib_multicast_cm_handler_def multicast_addr_resolved_def
        multicast_ctrl_joined_def multicast_ctrl_create_qp_def setup_good_def Let_def m_emit_def
        zero_multicast_def) (simp add: m_complete_def)
qed

definition load_good :: "load_env \<Rightarrow> bool" where
  "load_good v \<longleftrightarrow> create_good (l_main v) \<and> create_good (l_sub v)
     \<and> l_mid v = P_Live \<and> l_resolve v = 0 \<and> stage_base (l_stage v)
     \<and> (\<exists>e1 e2 dest1 dest rest. l_events v = (ADDR_RESOLVED, e1, dest1) # (MULTICAST_JOIN, e2, dest) # rest
          \<and> setup_good e1 \<and> v_join e1 = 0 \<and> setup_good e2 \<and> v_ud e2 \<and> v_ah e2 = P_Live)"

lemma init_ib_good:
  assumes "load_good v" "address_ok pton fip" "address_ok pton sip" "address_ok pton src_ip"
    "address_ok pton multicast_ip"
  shows "\<exists>k'. init_ib v pton fip sip src_ip multicast_ip k = Inr (0, k')
    \<and> k_list k' = [1, 0] \<and> k_main k' = Ctrl 0 \<and> atomic_read (k_batch k') = 0
    \<and> stage_ok (l_stage v) (k_stage k') \<and> sb_check_list (k_stage k') = []
    \<and> (\<forall>n \<in> {0, 1}. alive (k_conns k' n) \<and> conn_good (k_conns k' n)
         \<and> length (rc_works (k_conns k' n)) = NR_RECV
         \<and> (\<exists>a. trace (k_conns k' n) = [Create_Id, Resolve_Addr, Create_Qp a, Resolve_Route, Connect 16 16 7 7]))
    \<and> m_multicast (k_multicast k') = P_Live \<and> m_qp (k_multicast k') = P_Live
    \<and> m_mr (k_multicast k') = P_Null"
proof -
  have g: "create_good (l_main v)" "create_good (l_sub v)" "l_mid v = P_Live" "l_resolve v = 0"
    "stage_base (l_stage v)" using assms(1) by (simp_all add: load_good_def)
  obtain c0 a0 where c0: "init_rdma_ctrl (l_main v) pton src_ip fip 0 [] = Inr (True, c0, [0])"
      "alive c0" "conn_good c0" "length (rc_works c0) = NR_RECV" "cm_error c0 = 0"
      "trace c0 = [Create_Id, Resolve_Addr, Create_Qp a0, Resolve_Route, Connect 16 16 7 7]"
    using init_rdma_ctrl_good [OF g(1) assms(2,4), of 0 "[]"] by blast
  obtain c1 a1 where c1: "init_rdma_ctrl (l_sub v) pton src_ip sip 1 [0] = Inr (True, c1, [1, 0])"
      "alive c1" "conn_good c1" "length (rc_works c1) = NR_RECV" "cm_error c1 = 0"
      "trace c1 = [Create_Id, Resolve_Addr, Create_Qp a1, Resolve_Route, Connect 16 16 7 7]"
    using init_rdma_ctrl_good [OF g(2) assms(3,4), of 1 "[0]"] by blast
  obtain m where m: "init_multicast_ctrl P_Live 0 (l_events v) pton multicast_ip src_ip = Inr (0, m)"
      "m_multicast m = P_Live" "m_qp m = P_Live" "m_mr m = P_Null"
    using assms(1) multicast_good [OF _ _ _ _ _ assms(5,4)] by (fastforce simp: load_good_def)
  have sb: "fst (init_stage_buffer (l_stage v) sb) = 0"
    "stage_ok (l_stage v) (snd (init_stage_buffer (l_stage v) sb))"
    "sb_check_list (snd (init_stage_buffer (l_stage v) sb)) = []" for sb
    using init_stage_buffer_ok [OF g(5)] g(5)
    by (auto simp: init_stage_buffer_def stage_base_def Let_def)
  show ?thesis
    using c0 c1 m g sb
    by (simp add: init_ib_def init_ctrl_def Let_def case_prod_unfold)
qed


text \<open>An environment that grants everything, for the examples.\<close>

definition ex_setup :: setup_env where
  "ex_setup = \<lparr>v_pd = P_Live, v_mr = P_Live, v_snd_cq = P_Live, v_rcv_cq = P_Live, v_qp = 0,
     v_route = 0, v_connect = 0, v_rcv_buffer = 0x2000, v_dma1 = Some 0x2000, v_dma2 = Some 0x3000,
     v_rw = (\<lambda>_. True), v_post = (\<lambda>_. 0), v_join = 0, v_ud = True, v_ah = P_Live\<rparr>"

definition ex_create :: create_env where
  "ex_create = \<lparr>n_ctrl = True, n_buffer = 0x3000, n_id = P_Live, n_resolve = 0,
     n_events = [(ADDR_RESOLVED, ex_setup), (ROUTE_RESOLVED, ex_setup), (ESTABLISHED, ex_setup)]\<rparr>"

definition ex_load :: load_env where
  "ex_load = \<lparr>l_main = ex_create, l_sub = ex_create, l_mid = P_Live, l_resolve = 0,
     l_events = [(ADDR_RESOLVED, ex_setup, \<lparr>md_ah = 1, md_remote_qpn = 2, md_remote_qkey = 3\<rparr>),
                 (MULTICAST_JOIN, ex_setup, \<lparr>md_ah = 1, md_remote_qpn = 2, md_remote_qkey = 3\<rparr>)],
     l_stage = ex_base\<rparr>"

lemma ex_setup_good: "setup_good ex_setup"
  by (simp add: setup_good_def ex_setup_def)

lemma ex_load_good: "load_good ex_load"
proof -
  have "create_good ex_create"
    using ex_setup_good by (simp add: create_good_def good_events_def ex_create_def)
  moreover have "v_join ex_setup = 0" "v_ud ex_setup" "v_ah ex_setup = P_Live"
    by (simp_all add: ex_setup_def)
  ultimately show ?thesis
    using ex_setup_good ex_stage_base by (simp add: load_good_def ex_load_def)
qed

definition ex_module :: module_state where
  "ex_module = \<lparr>k_conns = (\<lambda>_. zero_conn), k_list = [], k_main = Null_Ctrl,
     k_batch = \<lparr>counter = 0\<rparr>, k_stage = ex_stage, k_binders = ex_slots,
     k_multicast = zero_multicast, k_trace = []\<rparr>"




text \<open>
  The buffer for a connection's receives is one page, but 32 receives of 256 bytes are posted
  into it: receives 16 to 31 start behind its end, and a reply that arrives in one of them is
  written into memory that was not allocated for it.
\<close>

theorem receives_overrun_page:
  assumes "setup_good e" "rc_works c = []" "16 \<le> i" "i < NR_RECV"
  shows "\<exists>c'. rdma_connect_established e c = Inr (0, c') \<and> length (rc_works c') = NR_RECV
    \<and> PAGE_SIZE \<le> w_buffer (rc_works c' ! i) - rcv_buffer c'"
proof -
  obtain c' where "rdma_connect_established e c = Inr (0, c')"
      "w_buffer (rc_works c' ! i) - rcv_buffer c' \<ge> PAGE_SIZE"
    using recv_buffers_overrun [OF assms] by blast
  moreover from this have "length (rc_works c') = NR_RECV"
    using established_good [OF assms(1), of c] assms(2) map_eq_imp_length_eq by fastforce
  ultimately show ?thesis by blast
qed

theorem receives_overrun_page_witness:
  "\<exists>c'. rdma_connect_established ex_setup zero_conn = Inr (0, c')
     \<and> PAGE_SIZE \<le> w_buffer (rc_works c' ! 20) - rcv_buffer c'"
proof -
  have "rc_works zero_conn = []" by (simp add: zero_conn_def)
  from receives_overrun_page [OF ex_setup_good this, of 20] show ?thesis by (auto simp: NR_RECV_def)
qed

text \<open>
  When a completion queue cannot be allocated while a connection is set up or the group is joined,
  the error path frees the error pointer it got instead of a queue, and the kernel crashes.
\<close>

theorem failed_queue_is_freed:
  assumes "v_snd_cq e = P_Err \<or> v_snd_cq e = P_Live \<and> v_rcv_cq e = P_Err"
  shows "(v_pd e = P_Live \<and> v_mr e = P_Live \<and> rc_rcv_cq c = P_Null \<longrightarrow>
      ib_rdma_cm_handler ADDR_RESOLVED e c = Inl Bad_Pointer)
    \<and> (v_ud e \<and> v_ah e = P_Live \<and> m_rcv_cq m = P_Null \<longrightarrow>
      ib_multicast_cm_handler MULTICAST_JOIN e dest m = Inl Bad_Pointer)"
  using addr_resolved_cq_fails [of e c] joined_cq_fails [of e m dest] assms
  by (auto simp: ib_rdma_cm_handler_def ib_multicast_cm_handler_def)

theorem failed_queue_is_freed_witness:
  "ib_rdma_cm_handler ADDR_RESOLVED (ex_setup\<lparr>v_rcv_cq := P_Err\<rparr>) zero_conn = Inl Bad_Pointer"
  using failed_queue_is_freed [of "ex_setup\<lparr>v_rcv_cq := P_Err\<rparr>" zero_conn]
  by (simp add: ex_setup_def zero_conn_def)

end
