(* ===== verification/Instance.thy ===== *)
theory Instance
  imports System Server_Setup_Proofs Setup_Proofs
begin

text \<open>
  A small concrete configuration on which the properties' hypotheses hold: two servers with
  two receive buffers each, a driver connected to both that knows block 0, an adapter that
  completes every transfer, and calls that are answered at once.
\<close>

unbundle bit_operations_syntax

section \<open>Servers\<close>

definition ex_env :: "nat \<Rightarrow> block_env" where
  "ex_env n = \<lparr>malloc_ok = True, mmap_ret = of_nat (n + 1) * 0x40000000,
     reg_ret = Some (1, 1, of_nat n + 1)\<rparr>"

definition ex_works :: "addr set" where "ex_works = {1, 2}"

definition ex_bufs :: "addr \<Rightarrow> addr" where "ex_bufs rw = (if rw = 1 then 0x1000 else 0x3000)"

definition ex_server :: "u32 \<Rightarrow> server" where
  "ex_server counted = \<lparr>memblocks = replicate MAX_MEMBLOCK None, memblock_list = [], smem = (\<lambda>_. 0),
     batch = \<lparr>counter = counted\<rparr>, commit_list = [],
     works = (\<lambda>rw. \<lparr>rw_id = 0, rw_buffer = ex_bufs rw,
       rw_wc = \<lparr>wr_id = rw, imm_data = 0, wc_ok = True\<rparr>, rw_convey = False\<rparr>),
     multicast_rq = [1, 2], rdma_rq = [], replies = [], spin = 0, mutex = 0\<rparr>"

lemma in_block_index:
  assumes "n < MAX_MEMBLOCK" "in_block (mmap_ret (ex_env n)) x"
  shows "unat x div 0x40000000 = n + 1"
proof -
  let ?b = "mmap_ret (ex_env n)"
  have b: "unat ?b = (n + 1) * 0x40000000"
    using assms(1) by (simp add: ex_env_def MAX_MEMBLOCK_def unat_word_ariths unat_of_nat)
  have r: "unat (x - ?b) < 0x40000000"
    using assms(2) by (simp add: in_block_def MEMBLOCK_SIZE_def word_less_nat_alt)
  have "unat (?b + (x - ?b)) = (unat ?b + unat (x - ?b)) mod 2 ^ LENGTH(64)"
    by (rule unat_word_ariths(1))
  then have "unat x = (unat ?b + unat (x - ?b)) mod 2 ^ 64" by simp
  then have "unat x = (n + 1) * 0x40000000 + unat (x - ?b)"
    using b r assms(1) by (simp add: MAX_MEMBLOCK_def)
  then show ?thesis using r by simp
qed

lemma small_not_in_block: "n < MAX_MEMBLOCK \<Longrightarrow> unat x < 0x40000000 \<Longrightarrow> \<not> in_block (mmap_ret (ex_env n)) x"
  using in_block_index [of n x] by auto

lemma ex_window:
  assumes "rw \<in> ex_works"
  shows "unat (ex_bufs rw + UD_EXTRA + ucast (i :: 12 word)) = unat (ex_bufs rw) + 40 + unat i"
proof -
  have "unat i < 4096" using unsigned_less [of i] by simp
  moreover from this have "unat (ucast i :: u64) = unat i"
    by (simp add: unsigned_ucast_eq take_bit_nat_eq_self)
  ultimately show ?thesis
    using assms by (auto simp: ex_works_def ex_bufs_def UD_EXTRA_def unat_word_ariths)
qed

lemma ex_layout: "layout ex_env ex_works ex_bufs"
  unfolding layout_def
proof (intro conjI allI impI ballI)
  fix n m x
  assume "n < MAX_MEMBLOCK" "m < MAX_MEMBLOCK" "n \<noteq> m" "in_block (mmap_ret (ex_env n)) x"
  then show "\<not> in_block (mmap_ret (ex_env m)) x"
    using in_block_index [of n x] in_block_index [of m x] by auto
next
  fix rw n and i :: "12 word"
  assume rw: "rw \<in> ex_works" and n: "n < MAX_MEMBLOCK"
  have "unat i < 4096" using unsigned_less [of i] by simp
  then have "unat (ex_bufs rw + UD_EXTRA + ucast i) < 0x40000000"
    using rw unfolding ex_window [OF rw] by (simp add: ex_bufs_def)
  then show "\<not> in_block (mmap_ret (ex_env n)) (ex_bufs rw + UD_EXTRA + ucast i)"
    using small_not_in_block [OF n] by blast
next
  fix rw rw'
  assume w: "rw \<in> ex_works" "rw' \<in> ex_works" "rw \<noteq> rw'"
  show "apart (ex_bufs rw + UD_EXTRA) (ex_bufs rw' + UD_EXTRA)"
    unfolding apart_def
  proof (intro allI notI)
    fix i j :: "12 word"
    assume "ex_bufs rw + UD_EXTRA + ucast i = ex_bufs rw' + UD_EXTRA + ucast j"
    then have "unat (ex_bufs rw + UD_EXTRA + ucast i) = unat (ex_bufs rw' + UD_EXTRA + ucast j)"
      by (rule arg_cong)
    then have "unat (ex_bufs rw) + 40 + unat i = unat (ex_bufs rw') + 40 + unat j"
      unfolding ex_window [OF w(1)] ex_window [OF w(2)] .
    moreover have "unat i < 4096" "unat j < 4096"
      using unsigned_less [of i] unsigned_less [of j] by simp_all
    ultimately show False using w by (auto simp: ex_works_def ex_bufs_def)
  qed
qed

lemma ex_server_ok: "server_ok ex_env ex_works ex_bufs (ex_server k)"
  by (auto simp: server_ok_def blocks_ok_def ex_server_def ex_works_def)

lemma ex_serving: "serving ex_env ex_works ex_bufs (ex_server k)"
  using ex_layout ex_server_ok by (simp add: serving_def all_copied_def ex_server_def)

text \<open>A page of sevens, served under number 5.\<close>

definition ex_page :: page where "ex_page = (\<lambda>_. 7)"

lemma ex_serve:
  "\<exists>s. serve_page ex_env 5 p (ex_server k) = Some s \<and> atomic_read (batch s) = k + 1
    \<and> commit_list s = [1] \<and> multicast_rq s = [2] \<and> imm_data (rw_wc (works s 1)) = flow_header 5"
  by (simp add: serve_page_def deliver_def ex_server_def flow_completion process_multicast_flow_eq
      ib_convey_page_def header_simps Let_def get_num_memblock_def MAX_MEMBLOCK_def add_memblock_def
      alloc_memblock_def set_memblock_def ibv_reg_mr_def ex_env_def lock_defs atomic_defs)

section \<open>The driver\<close>

definition ex_info :: rdma_info_t where "ex_info = \<lparr>remote_addr = 0x40000000, rkey = 1\<rparr>"

definition ex_ctrl :: rdma_ctrl_t where
  "ex_ctrl = \<lparr>alive = True, rc_id = 0, rc_rdma = P_Live, rc_qp = P_Live, rc_snd_cq = P_Live,
     rc_rcv_cq = P_Live, rc_pd = P_Live, rc_mr = P_Live, rc_buffer = 0x100, rcv_buffer = 0x200,
     cm_error = 0, cm_done = 1, rc_works = [],
     rdma_info = (replicate MAX_BLOCKS no_info)[0 := ex_info],
     rc_commit = 0, req_info = no_info, dma_buffer = 0, rc_lkey = 0, rc_sent = [], rc_rq = []\<rparr>"

definition ex_binders :: binders where
  "ex_binders = replicate NR_BINDERS \<lparr>flags = \<lparr>counter = 0\<rparr>, priv = 0\<rparr>"

definition ex_driver :: "u32 \<Rightarrow> driver" where
  "ex_driver counted = \<lparr>ctrls = (\<lambda>_. ex_ctrl), ctrl_list = [1, 0], main_ctrl = Ctrl 0,
     drv_batch = \<lparr>counter = counted\<rparr>, drv_binders = ex_binders, drv_done = (\<lambda>_. 0),
     stage_buffer = ex_stage, kmem = (\<lambda>a. if a < 0x1000000 then 7 else 0), drv_spin = 0,
     drv_check_list = [], mc_dest = \<lparr>md_ah = 1, md_remote_qpn = 2, md_remote_qkey = 3\<rparr>,
     mc_lkey = 0, mc_sent = [], calls = 0\<rparr>"

definition ex_io :: io_env where
  "ex_io = \<lparr>io_dma = Some 0x10000, io_post = 0,
     io_polls = [Poll_Empty, Poll_Wc \<lparr>wr_id = 5, imm_data = 0, wc_ok = True\<rparr>], io_done = 5,
     io_xa_ok = True, io_cpu = 0\<rparr>"

lemma ex_io_good: "io_good ex_io 0x10000"
  unfolding io_good_def ex_io_def by (auto simp: passes_by_def intro!: exI [of _ "[Poll_Empty]"])

lemma ex_driver_ok: "uint k \<le> CONFIG_BATCH \<Longrightarrow> driver_ok ex_base (ex_driver k)"
  using ex_stage_ok by (simp add: driver_ok_def ex_driver_def ex_stage_def atomic_defs)

lemma ex_block_open: "block_open 0 (ex_driver k)"
  by (simp add: block_open_def ex_driver_def ex_ctrl_def ex_info_def MAX_BLOCKS_def)

lemma ex_targets:
  "get_main_rdma_ctrl (ex_driver k) = Ctrl 0" "get_sub_rdma_ctrl (ex_driver k) = Ctrl 1"
  by (simp_all add: get_main_rdma_ctrl_def get_sub_rdma_ctrl_def ex_driver_def)

text \<open>Call \<open>i\<close> draws slot \<open>i\<close> and gets its own reply.\<close>

definition ex_call :: "u32 \<Rightarrow> call_env" where
  "ex_call opc i = \<lparr>e_draws = [i mod 256], e_post_ok = True,
     e_recv_polls = [Poll_Empty, Poll_Wc \<lparr>wr_id = 77, imm_data = rpc_imm opc (of_nat (i mod 256)), wc_ok = True\<rparr>],
     e_send_polls = [Poll_Wc \<lparr>wr_id = 9, imm_data = 0, wc_ok = True\<rparr>], e_done = 9,
     e_rws = [77 \<mapsto> ex_info]\<rparr>"

lemma ex_call_serves:
  "serves (ex_call opc i) (i mod 256) [Poll_Empty]
     \<lparr>wr_id = 77, imm_data = rpc_imm opc (of_nat (i mod 256)), wc_ok = True\<rparr>"
  unfolding serves_def ex_call_def
  by (auto simp: for_others_def intro!: exI [of _ "[]"])

lemma ex_answers_opc:
  assumes "\<And>b. b < NR_BINDERS \<Longrightarrow> wc_binder (rpc_imm opc (of_nat b)) = of_nat b"
  shows "answers (ex_call opc)"
  unfolding answers_def
proof
  fix i
  let ?w = "\<lparr>wr_id = 77, imm_data = rpc_imm opc (of_nat (i mod 256)), wc_ok = True\<rparr>"
  have "unat (of_nat (i mod 256) :: u32) = i mod 256" by (simp add: unat_of_nat)
  then have "unat (wc_binder (imm_data ?w)) = i mod NR_BINDERS"
    using assms [of "i mod 256"] by (simp add: NR_BINDERS_def)
  then show "\<exists>r rs pre w info. e_draws (ex_call opc i) = r # rs
      \<and> serves (ex_call opc i) (r mod NR_BINDERS) pre w
      \<and> (\<forall>p \<in> set pre. p = Poll_Empty) \<and> unat (wc_binder (imm_data w)) = r mod NR_BINDERS
      \<and> e_rws (ex_call opc i) (wr_id w) = Some info"
    using ex_call_serves [of opc i]
    by (intro exI [of _ "i mod 256"] exI [of _ "[]"] exI [of _ "[Poll_Empty]"] exI [of _ ?w]
        exI [of _ ex_info]) (simp add: ex_call_def NR_BINDERS_def)
qed

lemma ex_answers: "answers (ex_call commit_opcode)"
  by (rule ex_answers_opc) (simp add: commit_fields NR_BINDERS_def word_less_nat_alt unat_of_nat)

lemma ex_answers_open: "answers (ex_call (open_opcode 0x40000))"
  by (rule ex_answers_opc) (simp add: open_block_bounds get_num_memblock_def)

lemma ex_keyed: "keyed (ex_call opc)"
  by (simp add: keyed_def ex_call_def ex_info_def)

lemma ex_all_free: "all_free (ex_driver k)"
  by (simp add: all_free_def ex_driver_def ex_binders_def flag_def atomic_defs)

lemma ex_driver_facts [simp]:
  "main_ctrl (ex_driver k) = Ctrl 0" "ctrl_list (ex_driver k) = [1, 0]"
  "block_open 0 (ex_driver k)" "get_num_memblock 5 = 0"
  "atomic_read (drv_batch (ex_driver k)) = k" "(3 :: int) < CONFIG_BATCH" "(3 :: int) \<le> CONFIG_BATCH"
  "read_target ex_io (ex_driver k) = Ctrl 1" "stage_buffer (ex_driver k) = ex_stage"
  "length (drv_binders (ex_driver k)) = NR_BINDERS" "ctrls (ex_driver k) n = ex_ctrl"
  by (simp_all add: ex_block_open) (simp_all add: ex_driver_def ex_binders_def atomic_defs get_num_memblock_def
    CONFIG_BATCH_def read_target_def ex_io_def get_main_rdma_ctrl_def get_sub_rdma_ctrl_def)

lemma ex_both_servers: "both_servers 0 1 (ex_driver k)"
  using ex_targets(2) [of k] by (simp add: both_servers_def insert_commute) (simp add: ex_ctrl_def)

lemma ex_no_sent: "mc_sent (ex_driver k) = []" "rc_sent ex_ctrl = []"
  by (simp_all add: ex_driver_def ex_ctrl_def)

section \<open>The two together\<close>

abbreviation ex_servers :: "u32 \<Rightarrow> nat \<Rightarrow> server" where "ex_servers k \<equiv> \<lambda>_. ex_server k"

lemma ex_servers_ok:
  "servers_ok (\<lambda>_. ex_env) (\<lambda>_. ex_works) (\<lambda>_. ex_bufs) (ex_driver k, ex_servers c)"
  using ex_serving [of c]
  by (auto simp: servers_ok_def ex_driver_def ex_ctrl_def ex_info_def ex_env_def no_info_def
      MAX_BLOCKS_def MAX_MEMBLOCK_def nth_list_update)

lemma ex_write:
  "\<exists>d'. maruswap_multicast_write (ex_call commit_opcode) ex_io 0x5000 5 (ex_driver 3) = Inr (0, d')
    \<and> ctrls d' = ctrls (ex_driver 3) \<and> ctrl_list d' = [1, 0] \<and> main_ctrl d' = Ctrl 0
    \<and> drv_binders d' = drv_binders (ex_driver 3)"
proof -
  have "driver_ok ex_base (ex_driver 3)" by (rule ex_driver_ok) (simp add: CONFIG_BATCH_def)
  moreover have "main_ctrl (ex_driver 3) = Ctrl 0" "ctrl_list (ex_driver 3) = [1, 0]"
    "uint (atomic_read (drv_batch (ex_driver 3))) < CONFIG_BATCH"
    by (simp_all add: ex_driver_def atomic_defs CONFIG_BATCH_def)
  moreover have "block_open (unat (get_num_memblock 5)) (ex_driver 3)"
    using ex_block_open by (simp add: get_num_memblock_def)
  ultimately show ?thesis
    using write_common [OF _ _ _ _ ex_io_good, of ex_base "ex_driver 3" 0 5 "ex_call commit_opcode" "0x5000"]
    by auto
qed

lemma ex_page_stored: "page_at (kmem (ex_driver k)) 0x5000 = ex_page"
proof -
  have "0x5000 + ucast i < (0x1000000 :: u64)" for i :: "12 word"
  proof -
    have "unat (ucast i :: u64) < 0x1000" using ucast_page_less [of i] by (simp add: word_less_nat_alt)
    then show ?thesis by (simp add: word_less_nat_alt unat_word_ariths)
  qed
  then show ?thesis by (simp add: page_at_def ex_driver_def ex_page_def fun_eq_iff)
qed

lemma ex_store:
  "\<exists>d1 srv1. system_store (ex_call commit_opcode) (\<lambda>_. ex_env) ex_io 5 0x5000 (ex_driver 3, ex_servers 511)
      = Some (d1, srv1)
    \<and> ready_to_commit d1 srv1 \<and> all_free d1"
proof -
  obtain d1 where d1: "maruswap_multicast_write (ex_call commit_opcode) ex_io 0x5000 5 (ex_driver 3) = Inr (0, d1)"
      "ctrls d1 = ctrls (ex_driver 3)" "ctrl_list d1 = [1, 0]" "drv_binders d1 = drv_binders (ex_driver 3)"
    using ex_write by (elim exE conjE) (rule that)
  obtain s where s: "serve_page ex_env 5 ex_page (ex_server 511) = Some s" "atomic_read (batch s) = 512"
    using ex_serve [of ex_page 511] by auto
  have l: "ctrl_list (ex_driver 3) = [1, 0]" by (simp add: ex_driver_def)
  have "system_store (ex_call commit_opcode) (\<lambda>_. ex_env) ex_io 5 0x5000 (ex_driver 3, ex_servers 511)
      = Some (d1, (ex_servers 511)(1 := s, 0 := s))"
    using d1(1) s(1) l ex_page_stored [of 3] by (simp add: system_store_def maruswap_store_def)
  moreover have "ready_to_commit d1 ((ex_servers 511)(1 := s, 0 := s))"
    using d1(2,3) s(2) by (simp add: ready_to_commit_def ex_driver_def ex_ctrl_def SERVER_BATCH_def)
  moreover have "all_free d1" using ex_all_free [of 3] d1(4) by (simp add: all_free_def)
  ultimately show ?thesis by blast
qed

lemma ex_grants:
  assumes "nr < MAX_MEMBLOCK"
  shows "grants ex_env nr"
proof -
  have "unat (mmap_ret (ex_env nr)) = (nr + 1) * 0x40000000"
    using assms by (simp add: ex_env_def MAX_MEMBLOCK_def unat_word_ariths unat_of_nat)
  then have "mmap_ret (ex_env nr) \<noteq> 0" by auto
  then show ?thesis by (simp add: grants_def ex_env_def)
qed

lemma ex_driver_start: "driver_reach ex_base (ex_driver 0)"
  by (rule driver_start [where sb = ex_stage])
    (simp_all add: ex_stage_base init_stage_buffer_def, simp_all add: ex_stage_def ex_base_def
      ex_driver_def ATOMIC_INIT_def)

end
