(* ===== verification/Driver_Variants.thy ===== *)
theory Driver_Variants
  imports Instance
begin

text \<open>
  The two other designs of the driver that the repository keeps beside \<open>drive/sib.c\<close>: \<open>drive/ib.c\<close>
  stages nothing, but makes a load wait until its page is committed; \<open>drive/cib.c\<close> (of which
  \<open>drive/rib.c\<close> is a copy) writes each page to both servers by RDMA. Only what differs from \<open>sib.c\<close> is
  modelled here; the reply slots, the remote call, connecting and the transfers themselves are
  the same text as in \<open>sib.c\<close>, up to the DMA direction, and so are their definitions. Names of
  \<open>ib.c\<close> start with \<open>old_\<close>, names of \<open>cib.c\<close> with \<open>direct_\<close>.

  Both take byte offsets, 64 bits wide, where \<open>sib.c\<close> takes page numbers; the helpers of \<open>drive/ib.h\<close>
  they call have 32-bit parameters, so the offset is truncated on the way. An \<open>xarray\<close> that the
  code fills with connection pointers holds their addresses, which \<open>ctrl_at\<close> gives.
\<close>

unbundle bit_operations_syntax

section \<open>\<open>drive/ib.c\<close>: requests\<close>

definition old_open_opcode :: "u64 \<Rightarrow> u32" where
  "old_open_opcode roffset =
     ucast (push_bit 28 (ucast RDMA_OPCODE_OPEN) OR push_bit 8 (drop_bit 20 roffset))"

definition old_open_unlocked :: "call_env \<Rightarrow> nat \<Rightarrow> u64 \<Rightarrow> driver \<Rightarrow> (int \<times> driver) result" where
  "old_open_unlocked env n roffset d =
     (let moffset = unat (get_num_memblock (ucast roffset)); infos = rdma_info (ctrls d n) in
      if \<not> moffset < length infos then Inl Out_Of_Bounds
      else if rkey (infos ! moffset) \<noteq> 0 then Inr (0, d)
      else rbind (ctrl_rpc env n (old_open_opcode roffset) 16 d) (\<lambda>(ret, r, d').
             case r of
               None \<Rightarrow> Inr (ret, d')
             | Some i \<Rightarrow>
                 Inr (ret, upd_ctrl n (\<lambda>c. c\<lparr>rdma_info := (rdma_info c)[moffset := i],
                                            req_info := no_info\<rparr>) d')))"

definition old_open :: "call_env \<Rightarrow> nat \<Rightarrow> u64 \<Rightarrow> driver \<Rightarrow> (int \<times> driver) result" where
  "old_open env n roffset d = old_open_unlocked env n roffset d"

definition old_open_all :: "call_env \<Rightarrow> u64 \<Rightarrow> driver \<Rightarrow> (int \<times> driver) result" where
  "old_open_all env roffset d =
     (let main = get_main_rdma_ctrl d; sub = get_sub_rdma_ctrl d in
      deref sub (\<lambda>sn.
      rbind (if alive (ctrls d sn) then old_open_unlocked env sn roffset d else Inr (0, d))
        (\<lambda>(tret, d1).
      let ret = 0 OR tret in
      deref main (\<lambda>mn.
      rbind (if alive (ctrls d1 mn) then old_open_unlocked env mn roffset d1 else Inr (tret, d1))
        (\<lambda>(tret', d2). Inr (ret OR tret', d2))))))"

text \<open>A commit empties the list of pages waiting for one.\<close>

definition old_commit :: "call_env \<Rightarrow> nat \<Rightarrow> driver \<Rightarrow> (int \<times> driver) result" where
  "old_commit env n d = rbind (ib_rpc_commit_unlocked env n d) (\<lambda>(ret, d'). Inr (ret, free_addr d'))"

text \<open>The loop keeps only what the last call returned.\<close>

fun old_commit_each ::
  "(nat \<Rightarrow> driver \<Rightarrow> (int \<times> driver) result) \<Rightarrow> nat list \<Rightarrow> int \<Rightarrow> driver \<Rightarrow> (int \<times> driver) result" where
  "old_commit_each f [] tret d = Inr (tret, d)"
| "old_commit_each f (n # ns) tret d =
     (if alive (ctrls d n) then rbind (f n d) (\<lambda>(tret', d'). old_commit_each f ns tret' d')
      else old_commit_each f ns tret d)"

definition old_commit_all :: "call_env \<Rightarrow> driver \<Rightarrow> (int \<times> driver) result" where
  "old_commit_all env d =
     rbind (old_commit_each (ib_rpc_commit_unlocked env) (ctrl_list d) 0 d) (\<lambda>(tret, d1).
     deref (get_main_rdma_ctrl d1) (\<lambda>_.
       let d2 = free_addr d1; d3 = d2\<lparr>drv_batch := atomic_set (drv_batch d2) 0\<rparr>
       in Inr (0 OR tret, d3)))"

section \<open>\<open>drive/ib.c\<close>: page transfers\<close>

record old_driver =
  core :: driver
  read_list :: xarray

definition old_multicast_send :: "io_env \<Rightarrow> addr \<Rightarrow> u32 \<Rightarrow> driver \<Rightarrow> (int \<times> driver) result" where
  "old_multicast_send io dma header d =
     (let wr0 = blank_wr\<lparr>wr_done := io_done io, sge_addr := dma, sge_length := 0x1000,
                 sge_lkey := mc_lkey d, wr_op := WR_SEND_WITH_IMM, wr_ah := md_ah (mc_dest d),
                 wr_remote_qkey := md_remote_qkey (mc_dest d),
                 wr_remote_qpn := md_remote_qpn (mc_dest d), wr_signaled := True\<rparr>;
          wr = (if header \<noteq> 0 then wr0\<lparr>wr_imm := header\<rparr> else wr0);
          d0 = d\<lparr>drv_done := (drv_done d)(io_done io := 0)\<rparr>
      in
      if io_post io \<noteq> 0 then Inr (io_post io, d0)
      else
        let d1 = d0\<lparr>mc_sent := mc_sent d0 @ [wr]\<rparr> in
        rbind (send_loop (io_done io) (io_polls io) (drv_done d1)) (\<lambda>(ok, _, st).
        Inr (if ok then io_post io else - EINVAL, d1\<lparr>drv_done := st\<rparr>)))"

text \<open>
  A write puts its page on the list of those waiting for a commit, unless a read of it is under
  way; then it is taken off again and nothing is sent. A send that fails jumps to the error
  exit, which releases a lock that was released before.
\<close>

definition old_write ::
  "call_env \<Rightarrow> io_env \<Rightarrow> (nat \<Rightarrow> addr) \<Rightarrow> u64 \<Rightarrow> old_driver \<Rightarrow> (int \<times> old_driver) result" where
  "old_write env io ctrl_at roffset s =
     (let d = core s;
          offset = get_offset roffset;
          header = drv_set_header MULTICAST_OPCODE_FLOW offset;
          nr_memblock = unat (get_num_memblock (ucast roffset));
          rdma_ctrl = (if io_cpu io mod 2 \<noteq> 0 then get_main_rdma_ctrl d else get_sub_rdma_ctrl d)
      in
      deref rdma_ctrl (\<lambda>n.
      let (ret, dma) = get_req_for_page (io_dma io) in
      if ret \<noteq> 0 then Inr (ret, s)
      else
        let d1 = drv_lock d in
        rbind (check_rdma_info nr_memblock d1) (\<lambda>check.
        rbind (if check then old_open_all env roffset d1 else Inr (0, d1)) (\<lambda>(ret, d2).
        if ret \<noteq> 0 then Inr (1, s\<lparr>core := drv_unlock d2\<rparr>)
        else
          rbind (if sint (atomic_read (drv_batch d2)) \<ge> CONFIG_BATCH then old_commit_all env d2
                 else Inr (0, d2)) (\<lambda>(ret, d3).
          if ret \<noteq> 0 then Inr (1, s\<lparr>core := drv_unlock d3\<rparr>)
          else
            let d4 = drv_unlock d3;
                d5 = d4\<lparr>drv_check_list := xa_store (io_xa_ok io) (drv_check_list d4) offset (ctrl_at n)\<rparr>;
                check = xa_load (read_list s) offset
            in
            if check \<noteq> NULL
            then Inr (ret, s\<lparr>core := d5\<lparr>drv_check_list := xa_erase (drv_check_list d5) offset\<rparr>\<rparr>)
            else rbind (old_multicast_send io dma header d5) (\<lambda>(ret, d6).
              if ret \<noteq> 0 then Inr (1, s\<lparr>core := drv_unlock d6\<rparr>)
              else Inr (ret, s\<lparr>core := d6\<lparr>drv_batch := atomic_inc (drv_batch d6)\<rparr>\<rparr>)))))))"

text \<open>
  A read goes round until its page is not waiting for a commit any more; \<open>rounds\<close> says of each
  round whether the 6 microseconds are over by then, when it commits itself and ignores what
  that returns. The driver's remote calls are numbered by the state.
\<close>

fun old_read_loop ::
  "call_env \<Rightarrow> io_env \<Rightarrow> (nat \<Rightarrow> addr) \<Rightarrow> nat \<Rightarrow> addr \<Rightarrow> nat \<Rightarrow> u32 \<Rightarrow> bool list \<Rightarrow> old_driver
   \<Rightarrow> (int \<times> old_driver) result" where
  "old_read_loop env io ctrl_at n dma nr offset [] s = Inl Spinning"
| "old_read_loop env io ctrl_at n dma nr offset (late # rounds) s =
     rbind (if late \<and> atomic_read (drv_batch (core s)) \<noteq> 0
            then rbind (old_commit_all env (drv_lock (core s))) (\<lambda>(_, d). Inr (drv_unlock d))
            else Inr (core s)) (\<lambda>d.
     let s1 = s\<lparr>core := d\<rparr> in
     if xa_load (drv_check_list d) offset \<noteq> NULL
     then old_read_loop env io ctrl_at n dma nr offset rounds s1
     else if \<not> nr < length (rdma_info (ctrls d n)) then Inl Out_Of_Bounds
     else rbind (drv_rdma_send io n dma 0x0 WR_RDMA_READ (rdma_info (ctrls d n) ! nr)
                   (push_bit 12 (offset AND 0x3ffff)) d) (\<lambda>(ret, d').
       if ret \<noteq> 0 then Inr (ret, s1\<lparr>core := d'\<rparr>)
       else
         let s2 = s1\<lparr>core := d', read_list := xa_store (io_xa_ok io) (read_list s1) offset (ctrl_at n)\<rparr>
         in Inr (ret, s2\<lparr>read_list := xa_erase (read_list s2) offset\<rparr>)))"

definition old_read ::
  "call_env \<Rightarrow> io_env \<Rightarrow> (nat \<Rightarrow> addr) \<Rightarrow> bool list \<Rightarrow> u64 \<Rightarrow> old_driver \<Rightarrow> (int \<times> old_driver) result" where
  "old_read env io ctrl_at rounds roffset s =
     (let d = core s;
          offset = get_offset roffset;
          rdma_ctrl = (if io_cpu io mod 2 \<noteq> 0 then get_main_rdma_ctrl d else get_sub_rdma_ctrl d)
      in
      deref rdma_ctrl (\<lambda>n.
      let (ret, dma) = get_req_for_page (io_dma io) in
      if ret \<noteq> 0 then Inr (ret, s)
      else old_read_loop env io ctrl_at n dma (unat (drop_bit 30 roffset)) offset rounds s))"

section \<open>\<open>drive/cib.c\<close>\<close>

text \<open>
  A write sends one RDMA write per connection, whatever the ones before returned; the result is
  that of the last. \<open>io n\<close> is what the transfer on connection \<open>n\<close> meets.
\<close>

fun direct_write_each ::
  "(nat \<Rightarrow> io_env) \<Rightarrow> addr \<Rightarrow> nat \<Rightarrow> u32 \<Rightarrow> nat list \<Rightarrow> int \<Rightarrow> driver \<Rightarrow> (int \<times> driver) result" where
  "direct_write_each io dma nr offset [] ret d = Inr (ret, d)"
| "direct_write_each io dma nr offset (n # ns) ret d =
     (if \<not> nr < length (rdma_info (ctrls d n)) then Inl Out_Of_Bounds
      else rbind (drv_rdma_send (io n) n dma 0x0 WR_RDMA_WRITE (rdma_info (ctrls d n) ! nr) offset d)
        (\<lambda>(ret', d'). direct_write_each io dma nr offset ns ret' d'))"

definition direct_write ::
  "call_env \<Rightarrow> addr option \<Rightarrow> (nat \<Rightarrow> io_env) \<Rightarrow> u64 \<Rightarrow> driver \<Rightarrow> (int \<times> driver) result" where
  "direct_write env page_dma io roffset d =
     deref (get_main_rdma_ctrl d) (\<lambda>_.
     let offset = get_offset roffset;
         send_offset = offset AND 0x3ffff;
         nr_memblock = unat (get_num_memblock (ucast roffset));
         (ret, dma) = get_req_for_page page_dma
     in
     if ret \<noteq> 0 then Inr (ret, d)
     else
       let d1 = drv_lock d in
       rbind (check_rdma_info nr_memblock d1) (\<lambda>check.
       rbind (if check then old_open_all env roffset d1 else Inr (0, d1)) (\<lambda>(ret, d2).
       if ret \<noteq> 0 then Inr (1, drv_unlock d2)
       else direct_write_each io dma (unat (drop_bit 30 roffset)) (push_bit 12 send_offset)
              (ctrl_list d2) ret (drv_unlock d2))))"

definition direct_read :: "io_env \<Rightarrow> u64 \<Rightarrow> driver \<Rightarrow> (int \<times> driver) result" where
  "direct_read io roffset d =
     deref (get_main_rdma_ctrl d) (\<lambda>n.
     let offset = get_offset roffset;
         send_offset = offset AND 0x3ffff;
         nr = unat (drop_bit 30 roffset);
         (ret, dma) = get_req_for_page (io_dma io)
     in
     if ret \<noteq> 0 then Inr (ret, d)
     else if \<not> nr < length (rdma_info (ctrls d n)) then Inl Out_Of_Bounds
     else drv_rdma_send io n dma 0x0 WR_RDMA_READ (rdma_info (ctrls d n) ! nr)
            (push_bit 12 send_offset) d)"

section \<open>Loading and unloading\<close>

text \<open>Neither sets up a staging buffer; \<open>cib.c\<close> does not join the group either.\<close>

definition old_init_ib ::
  "load_env \<Rightarrow> (string \<Rightarrow> u32 option) \<Rightarrow> string \<Rightarrow> string \<Rightarrow> string \<Rightarrow> string \<Rightarrow> module_state
   \<Rightarrow> (int \<times> module_state) result" where
  "old_init_ib v pton fip sip src_ip multicast_ip k =
     (let k1 = init_ctrl k;
          k2 = k1\<lparr>k_binders := init_binder (k_binders k1), k_trace := k_trace k1 @ [Register_Client]\<rparr>
      in
      rbind (init_rdma_ctrl (l_main v) pton src_ip fip 0 (k_list k2)) (\<lambda>(made, c, list).
      let k3 = k2\<lparr>k_conns := (k_conns k2)(0 := c), k_list := list\<rparr> in
      if \<not> made then Inl Null_Pointer
      else
        let k4 = k3\<lparr>k_main := Ctrl 0\<rparr> in
        rbind (init_rdma_ctrl (l_sub v) pton src_ip sip 1 (k_list k4)) (\<lambda>(made, c, list).
        let k5 = k4\<lparr>k_conns := (k_conns k4)(1 := c), k_list := list\<rparr> in
        if \<not> made then Inl Null_Pointer
        else
          rbind (init_multicast_ctrl (l_mid v) (l_resolve v) (l_events v) pton multicast_ip src_ip)
            (\<lambda>(ret, m).
          let k6 = k5\<lparr>k_multicast := m\<rparr> in
          if ret \<noteq> 0 then Inr (ret, k6) else Inr (cm_error (k_conns k6 1), k6)))))"

definition direct_init_ib ::
  "load_env \<Rightarrow> (string \<Rightarrow> u32 option) \<Rightarrow> string \<Rightarrow> string \<Rightarrow> string \<Rightarrow> module_state
   \<Rightarrow> (int \<times> module_state) result" where
  "direct_init_ib v pton fip sip src_ip k =
     (let k1 = init_ctrl k;
          k2 = k1\<lparr>k_binders := init_binder (k_binders k1), k_trace := k_trace k1 @ [Register_Client]\<rparr>
      in
      rbind (init_rdma_ctrl (l_main v) pton src_ip fip 0 (k_list k2)) (\<lambda>(made, c, list).
      let k3 = k2\<lparr>k_conns := (k_conns k2)(0 := c), k_list := list\<rparr> in
      if \<not> made then Inl Null_Pointer
      else
        let k4 = k3\<lparr>k_main := Ctrl 0\<rparr> in
        rbind (init_rdma_ctrl (l_sub v) pton src_ip sip 1 (k_list k4)) (\<lambda>(made, c, list).
        let k5 = k4\<lparr>k_conns := (k_conns k4)(1 := c), k_list := list\<rparr> in
        if \<not> made then Inl Null_Pointer else Inr (cm_error (k_conns k5 1), k5))))"

fun old_cleanup_each :: "nat list \<Rightarrow> module_state \<Rightarrow> module_state result" where
  "old_cleanup_each [] k = Inr k"
| "old_cleanup_each (n # ns) k =
     rbind (cleanup_conn (k_conns k n)) (\<lambda>c.
       old_cleanup_each ns (k\<lparr>k_conns := (k_conns k)(n := c), k_list := remove1 n (k_list k)\<rparr>))"

text \<open>Both files have the same unload function, which leaves the group.\<close>

definition old_cleanup_ib :: "module_state \<Rightarrow> module_state result" where
  "old_cleanup_ib k =
     rbind (old_cleanup_each (k_list k) k) (\<lambda>k1.
     let m0 = k_multicast k1 in
     rbind (if m_multicast m0 = P_Live then Inr (m_emit Leave_Multicast m0) else Inl Bad_Pointer) (\<lambda>m1.
     rbind (m_destroy_if (m_mr m1) (kcall.Dereg_Mr (m_mr m1)) m1) (\<lambda>m2.
     rbind (m_destroy_if (m_qp m2) Destroy_Qp m2) (\<lambda>m3.
     rbind (m_destroy_if (m_multicast m3) Destroy_Id m3) (\<lambda>m4.
     Inr (k1\<lparr>k_multicast := m4, k_trace := k_trace k1 @ [Unregister_Client]\<rparr>))))))"

section \<open>The words\<close>

text \<open>
  Up to 2 to the 40 the open word keeps the low byte free, names the block of the offset, and is
  matched with its caller; the header of a page names the page of the offset.
\<close>

lemma old_open_fields:
  assumes "b < 256" "roffset < 2 ^ 40"
  shows "ib_get_opcode (rpc_imm (old_open_opcode roffset) b) = RDMA_OPCODE_OPEN"
    and "drop_bit 18 (rpc_imm (old_open_opcode roffset) b) AND 0x3ff = ucast (drop_bit 30 roffset)"
    and "wc_binder (rpc_imm (old_open_opcode roffset) b) = b"
proof -
  note b = binder_word_bits [OF assms(1)]
  have o: "bit roffset n \<Longrightarrow> n < 40" for n using assms(2) by (rule small_word_bits)
  have one: "bit RDMA_OPCODE_OPEN n \<longleftrightarrow> n = 0" for n
    by (simp add: opcode_defs bit_1_iff)
  show "ib_get_opcode (rpc_imm (old_open_opcode roffset) b) = RDMA_OPCODE_OPEN"
    unfolding ib_get_opcode_eq
    by (rule bit_word_eqI) (auto simp: rpc_imm_def old_open_opcode_def bit_simps one dest: b o)
  show "drop_bit 18 (rpc_imm (old_open_opcode roffset) b) AND 0x3ff = ucast (drop_bit 30 roffset)"
    by (rule bit_word_eqI)
      (auto simp: rpc_imm_def old_open_opcode_def mask_words bit_simps one dest: b o)
  show "wc_binder (rpc_imm (old_open_opcode roffset) b) = b"
    by (rule bit_word_eqI)
      (auto simp: rpc_imm_def old_open_opcode_def wc_binder_def mask_words bit_simps one dest: b)
qed

section \<open>Direct writes and reads\<close>

text \<open>An accepted RDMA request on connection \<open>n\<close>, and what it leaves alone.\<close>

definition requested :: "wr_opcode \<Rightarrow> addr \<Rightarrow> rdma_info_t \<Rightarrow> u32 \<Rightarrow> send_wr \<Rightarrow> bool" where
  "requested opc dma info off wr \<longleftrightarrow>
     wr_op wr = opc \<and> sge_addr wr = dma \<and> sge_length wr = 0x1000
     \<and> wr_remote_addr wr = remote_addr info + ucast off \<and> wr_rkey wr = rkey info"

lemma rdma_send_good:
  assumes "io_good io a" "\<not> (opc = WR_SEND \<or> opc = WR_SEND_WITH_IMM)"
  shows "\<exists>d' wr. drv_rdma_send io n dma 0x0 opc info off d = Inr (0, d')
    \<and> rc_sent (ctrls d' n) = rc_sent (ctrls d n) @ [wr] \<and> requested opc dma info off wr
    \<and> (\<forall>k. k \<noteq> n \<longrightarrow> ctrls d' k = ctrls d k)"
proof -
  obtain ps st where "send_loop (io_done io) (io_polls io) ((drv_done d)(io_done io := 0)) = Inr (True, ps, st)"
    using send_loop_good [OF assms(1)] by blast
  then show ?thesis
    using assms by (auto simp: drv_rdma_send_def Let_def io_good_def upd_ctrl_def requested_def)
qed

lemma direct_write_each_good:
  assumes "\<forall>n \<in> set ns. nr < length (rdma_info (ctrls d n)) \<and> io_good (io n) a" "distinct ns"
  shows "\<exists>d'. direct_write_each io dma nr off ns 0 d = Inr (0, d')
    \<and> (\<forall>n \<in> set ns. \<exists>wr. rc_sent (ctrls d' n) = rc_sent (ctrls d n) @ [wr]
          \<and> requested WR_RDMA_WRITE dma (rdma_info (ctrls d n) ! nr) off wr)
    \<and> (\<forall>n. n \<notin> set ns \<longrightarrow> ctrls d' n = ctrls d n)
    \<and> same_infos d d' \<and> ctrl_list d' = ctrl_list d \<and> main_ctrl d' = main_ctrl d"
  using assms
proof (induction ns arbitrary: d)
  case Nil
  then show ?case by (simp add: same_infos_def)
next
  case (Cons n ns)
  let ?info = "rdma_info (ctrls d n) ! nr"
  obtain d1 wr where d1: "drv_rdma_send (io n) n dma 0x0 WR_RDMA_WRITE ?info off d = Inr (0, d1)"
      "rc_sent (ctrls d1 n) = rc_sent (ctrls d n) @ [wr]" "requested WR_RDMA_WRITE dma ?info off wr"
      "\<forall>k. k \<noteq> n \<longrightarrow> ctrls d1 k = ctrls d k"
    using rdma_send_good [of "io n" a WR_RDMA_WRITE n dma ?info off d] Cons.prems(1) by auto
  note k = rdma_send_keeps [OF d1(1)]
  have i: "rdma_info (ctrls d1 m) = rdma_info (ctrls d m)" for m using k by (simp add: same_infos_def)
  obtain d2 where d2: "direct_write_each io dma nr off ns 0 d1 = Inr (0, d2)"
      "\<forall>m \<in> set ns. \<exists>wr. rc_sent (ctrls d2 m) = rc_sent (ctrls d1 m) @ [wr]
          \<and> requested WR_RDMA_WRITE dma (rdma_info (ctrls d1 m) ! nr) off wr"
      "\<forall>m. m \<notin> set ns \<longrightarrow> ctrls d2 m = ctrls d1 m"
      "same_infos d1 d2" "ctrl_list d2 = ctrl_list d1" "main_ctrl d2 = main_ctrl d1"
    using Cons.IH [of d1] Cons.prems i by auto
  have n: "n \<notin> set ns" using Cons.prems(2) by simp
  have "direct_write_each io dma nr off (n # ns) 0 d = Inr (0, d2)"
    using d1(1) d2(1) Cons.prems(1) by simp
  moreover have "\<exists>wr. rc_sent (ctrls d2 m) = rc_sent (ctrls d m) @ [wr]
      \<and> requested WR_RDMA_WRITE dma (rdma_info (ctrls d m) ! nr) off wr" if "m \<in> set (n # ns)" for m
  proof (cases "m = n")
    case True
    then show ?thesis using d1(2,3) d2(3) n by auto
  next
    case False
    then have "m \<in> set ns" "ctrls d1 m = ctrls d m" using that d1(4) by auto
    then show ?thesis using d2(2) by auto
  qed
  moreover have "ctrls d2 m = ctrls d m" if "m \<notin> set (n # ns)" for m using that d1(4) d2(3) by simp
  ultimately show ?case using k d2(4-6) by (auto simp: same_infos_def)
qed

section \<open>Waiting for a commit\<close>

text \<open>The list of waiting pages is emptied entry by entry.\<close>

lemma erase_all:
  "\<forall>(i, p) \<in> set es. p \<noteq> NULL \<Longrightarrow>
   fold (\<lambda>(offset, ret) d. if ret \<noteq> NULL
      then d\<lparr>drv_check_list := xa_erase (drv_check_list d) offset\<rparr> else d) es d =
   d\<lparr>drv_check_list := filter (\<lambda>(i, p). i \<notin> fst ` set es) (drv_check_list d)\<rparr>"
proof (induction es arbitrary: d)
  case Nil
  then show ?case by (simp add: case_prod_unfold)
next
  case (Cons e es)
  then show ?case
    by (cases e) (auto simp: xa_erase_def AList.delete_eq case_prod_unfold
        intro!: arg_cong [where f = "\<lambda>x. d\<lparr>drv_check_list := x\<rparr>"] filter_cong)
qed

lemma free_addr_empties:
  assumes "\<forall>(i, p) \<in> set (drv_check_list d). p \<noteq> NULL"
  shows "free_addr d = d\<lparr>drv_check_list := []\<rparr>"
proof -
  have "filter (\<lambda>(i, p). i \<notin> fst ` set (drv_check_list d)) (drv_check_list d) = []"
    by (auto simp: filter_empty_conv image_iff intro: bexI)
  then show ?thesis unfolding free_addr_def by (simp only: erase_all [OF assms])
qed

text \<open>The loop calls the same servers as the one of \<open>sib.c\<close>, but returns the last result only.\<close>

lemma old_commit_each_state:
  "commit_each f ns ret d = Inr (r, d') \<Longrightarrow> \<exists>t. old_commit_each f ns tret d = Inr (t, d')"
proof (induction ns arbitrary: ret tret d)
  case (Cons n ns)
  then show ?case by (fastforce simp: rbind_Inr_iff split: if_splits)
qed simp

lemma old_commit_all_empties:
  assumes "all_free d" "answers env" "main_ctrl d = Ctrl mn"
    and "\<forall>(i, p) \<in> set (drv_check_list d). p \<noteq> NULL"
  shows "\<exists>t d'. old_commit_all env d = Inr (t, d') \<and> drv_check_list d' = [] \<and> atomic_read (drv_batch d') = 0
    \<and> same_infos d d' \<and> ctrl_list d' = ctrl_list d \<and> main_ctrl d' = main_ctrl d \<and> drv_spin d' = drv_spin d"
proof -
  obtain d1 where d1: "commit_each (ib_rpc_commit_unlocked env) (ctrl_list d) 0 d = Inr (0, d1)"
    using commit_each_answers [OF assms(1,2), of commit_opcode "ctrl_list d"]
    by (auto simp: ib_rpc_commit_unlocked_def [abs_def])
  obtain t where t: "old_commit_each (ib_rpc_commit_unlocked env) (ctrl_list d) 0 d = Inr (t, d1)"
    using old_commit_each_state [OF d1] by blast
  have sc: "same_core d d1" using commit_each_frame [OF commit_unlocked_frame(1) d1] .
  have "free_addr d1 = d1\<lparr>drv_check_list := []\<rparr>"
    using free_addr_empties [of d1] assms(4) sc by (simp add: same_core_def)
  then have "old_commit_all env d =
      Inr (t, d1\<lparr>drv_check_list := [], drv_batch := atomic_set (drv_batch d1) 0\<rparr>)"
    using t sc assms(3) by (simp add: old_commit_all_def deref_def get_main_rdma_ctrl_def same_core_def)
  then show ?thesis
    using sc commit_each_infos [OF d1] by (simp add: same_core_def same_infos_def atomic_defs)
qed

text \<open>While no round is late, a read of a waiting page goes on.\<close>

lemma old_read_loop_waits:
  "xa_load (drv_check_list (core s)) off \<noteq> NULL \<Longrightarrow> True \<notin> set rounds \<Longrightarrow>
   old_read_loop env io ctrl_at n dma nr off (rounds @ later) s =
   old_read_loop env io ctrl_at n dma nr off later s"
  by (induction rounds) auto

lemma old_read_loop_commits:
  assumes "all_free (core s)" "answers env" "main_ctrl (core s) = Ctrl mn"
    and "\<forall>(i, p) \<in> set (drv_check_list (core s)). p \<noteq> NULL" "atomic_read (drv_batch (core s)) \<noteq> 0"
    and "nr < length (rdma_info (ctrls (core s) n))" "io_good io dma"
  shows "\<exists>s' wr. old_read_loop env io ctrl_at n dma nr off (True # rounds) s = Inr (0, s')
    \<and> drv_check_list (core s') = [] \<and> last (rc_sent (ctrls (core s') n)) = wr
    \<and> requested WR_RDMA_READ dma (rdma_info (ctrls (core s) n) ! nr) (push_bit 12 (off AND 0x3ffff)) wr
    \<and> xa_load (read_list s') off = NULL \<and> drv_spin (core s') = drv_spin (core s)"
proof -
  have l: "all_free (drv_lock (core s))" "main_ctrl (drv_lock (core s)) = Ctrl mn"
    "\<forall>(i, p) \<in> set (drv_check_list (drv_lock (core s))). p \<noteq> NULL"
    using assms(1,3,4) by (simp_all add: all_free_def drv_lock_def)
  obtain t d1 where d1: "old_commit_all env (drv_lock (core s)) = Inr (t, d1)" "drv_check_list d1 = []"
      "same_infos (drv_lock (core s)) d1" "drv_spin d1 = drv_spin (core s) + 1"
    using old_commit_all_empties [OF l(1) assms(2) l(2,3)] by auto
  have i: "rdma_info (ctrls (drv_unlock d1) n) = rdma_info (ctrls (core s) n)"
    using d1(3) by (simp add: same_infos_def)
  obtain d2 wr where d2: "drv_rdma_send io n dma 0x0 WR_RDMA_READ (rdma_info (ctrls (core s) n) ! nr)
        (push_bit 12 (off AND 0x3ffff)) (drv_unlock d1) = Inr (0, d2)"
      "rc_sent (ctrls d2 n) = rc_sent (ctrls (drv_unlock d1) n) @ [wr]"
      "requested WR_RDMA_READ dma (rdma_info (ctrls (core s) n) ! nr) (push_bit 12 (off AND 0x3ffff)) wr"
    using rdma_send_good [OF assms(7), of WR_RDMA_READ] by force
  have c: "drv_check_list d2 = drv_check_list (drv_unlock d1)"
    using d2(1) by (auto simp: drv_rdma_send_def rbind_Inr_iff Let_def upd_ctrl_def)
  have "xa_load (drv_check_list (drv_unlock d1)) off = NULL" using d1(2) by (simp add: drv_unlock_def xa_load_def)
  then show ?thesis
    using d1 d2 i c assms(5,6) rdma_send_keeps [OF d2(1)] by (simp add: drv_unlock_def)
qed

section \<open>Error paths\<close>

text \<open>
  The failure of a server that is not called last is lost: with the calls returning 1 and then
  0, the commit of \<open>ib.c\<close> reports success where that of \<open>sib.c\<close> reports failure.
\<close>

lemma old_commit_hides_failure:
  assumes "alive (ctrls d n)" "f n d = Inr (1, d1)" "alive (ctrls d1 m)" "f m d1 = Inr (0, d2)"
  shows "old_commit_each f [n, m] 0 d = Inr (0, d2)" "commit_each f [n, m] 0 d = Inr (1, d2)"
  using assms by simp_all

text \<open>A write whose packet the adapter rejects releases the lock twice.\<close>

lemma old_write_unlocks_twice:
  assumes "main_ctrl (core s) = Ctrl mn" "io_cpu io = 1" "io_dma io = Some dma" "io_post io \<noteq> 0"
    and "block_open (unat (get_num_memblock (ucast roffset))) (core s)"
    and "\<not> CONFIG_BATCH \<le> sint (atomic_read (drv_batch (core s)))"
    and "xa_load (read_list s) (get_offset roffset) = NULL"
  shows "\<exists>s'. old_write env io ctrl_at roffset s = Inr (1, s') \<and> drv_spin (core s') = drv_spin (core s) - 1"
  using assms(1-4,6,7) check_rdma_info_open [OF assms(5)]
  by (simp add: old_write_def deref_def get_main_rdma_ctrl_def get_req_for_page_def old_multicast_send_def
      Let_def drv_unlock_def drv_lock_def)

lemma check_infos_bounds:
  "ns \<noteq> [] \<Longrightarrow> \<forall>n \<in> set ns. length (rdma_info (ctrls d n)) \<le> nr \<Longrightarrow> check_infos d nr ns c = Inl Out_Of_Bounds"
  by (cases ns) auto

section \<open>The variants' main properties\<close>







end
