(* ===== verification/Server_Types.thy ===== *)
theory Server_Types
  imports Instance
begin

text \<open>
  What no request can break on the server, whatever its word says and however it was meant: the block
  table stays well formed, a block once allocated stays where it is, the receive buffers keep
  their places, and every address the server ever told a client is that of the block it was
  asked for. Clients keep the addresses for good, so they rely on this.
\<close>

unbundle bit_operations_syntax

section \<open>The relation every handler stays in\<close>

definition told :: "server \<Rightarrow> bool" where
  "told s \<longleftrightarrow> (\<forall>imm a key. (imm, Open_Info a key) \<in> set (replies s) \<longrightarrow>
     (\<exists>mb. memblocks s ! open_block imm = Some mb \<and> buffer mb = a))"

definition grows :: "server \<Rightarrow> server \<Rightarrow> bool" where
  "grows s s' \<longleftrightarrow>
     (\<forall>i mb. memblocks s ! i = Some mb \<longrightarrow> memblocks s' ! i = Some mb)
     \<and> (\<forall>rw. rw_buffer (works s' rw) = rw_buffer (works s rw))
     \<and> (\<exists>more. replies s' = replies s @ more)"

definition stays_typed :: "server \<Rightarrow> server \<Rightarrow> bool" where
  "stays_typed s s' \<longleftrightarrow> (blocks_ok s \<and> told s \<longrightarrow> blocks_ok s' \<and> told s') \<and> grows s s'"

lemma grows_trans: "grows s s' \<Longrightarrow> grows s' s'' \<Longrightarrow> grows s s''"
  unfolding grows_def by (metis append_assoc)

lemma stays_typed_refl [simp]: "stays_typed s s"
  by (simp add: stays_typed_def grows_def)

lemma stays_typed_trans: "stays_typed s s' \<Longrightarrow> stays_typed s' s'' \<Longrightarrow> stays_typed s s''"
  unfolding stays_typed_def using grows_trans by blast

text \<open>Changes outside the table, the buffers and the replies.\<close>

lemma stays_typed_quiet:
  assumes "memblocks s' = memblocks s" "memblock_list s' = memblock_list s" "replies s' = replies s"
    and "\<And>rw. rw_buffer (works s' rw) = rw_buffer (works s rw)"
  shows "stays_typed s s'"
  using assms by (simp add: stays_typed_def grows_def blocks_ok_def told_def)

text \<open>A reply that is no block address.\<close>

lemma stays_typed_reply [simp]:
  "stays_typed s (send_reply imm Ack s)" "stays_typed s (send_reply imm Multicast_Ack s)"
  "stays_typed s (send_reply imm (Page_Data p) s)"
  by (simp_all add: stays_typed_def grows_def blocks_ok_def told_def send_reply_def)

lemma stays_typed_add_memblock:
  assumes "add_memblock e nr s = Inr (ok, s')"
  shows "stays_typed s s'"
proof -
  have "told s'" if "told s" "memblocks s ! i = Some mb \<longrightarrow> memblocks s' ! i = Some mb" for i mb
    using that add_memblock_keeps [OF assms] add_memblock_frame(6) [OF assms] unfolding told_def by metis
  then show ?thesis
    using add_memblock_ok [OF assms] add_memblock_keeps [OF assms] add_memblock_frame(4,6) [OF assms]
    by (auto simp: stays_typed_def grows_def)
qed

lemma stays_typed_locks [simp]:
  "stays_typed s (spin_lock s)" "stays_typed s (spin_unlock s)"
  "stays_typed s (mutex_lock s)" "stays_typed s (mutex_unlock s)"
  by (rule stays_typed_quiet; simp add: lock_defs)+

section \<open>The handlers\<close>

lemma convey_page_typed:
  assumes "ib_convey_page env w s = Inr (ok, s')"
  shows "stays_typed s s'"
proof -
  obtain opc nr off where h: "interpret_header (imm_data w) = Some (opc, nr, off)"
    by (simp add: interpret_header_eq)
  have c: "stays_typed s1 (convey_into mb off w s1)" for s1 mb
    by (rule stays_typed_quiet) (simp_all add: convey_into_def Let_def upd_work_def)
  show ?thesis
  proof (cases "memblocks s ! unat nr")
    case None
    then obtain ok1 s1 where a: "add_memblock (env (unat nr)) (unat nr) s = Inr (ok1, s1)"
        "s' = s1 \<or> (\<exists>mb. s' = convey_into mb off w s1)"
      using assms h by (auto simp: ib_convey_page_def Let_def rbind_Inr_iff split: if_splits option.splits)
    then show ?thesis using stays_typed_trans [OF stays_typed_add_memblock [OF a(1)] c] stays_typed_add_memblock by blast
  next
    case (Some mb)
    then have "s' = convey_into mb off w s"
      using assms h by (auto simp: ib_convey_page_def Let_def split: if_splits)
    then show ?thesis using c by simp
  qed
qed

lemma flow_typed:
  assumes "process_multicast_flow env w s = Inr s'"
  shows "stays_typed s s'"
proof -
  have l: "stays_typed s (listed w s)" by (rule stays_typed_quiet) simp_all
  then show ?thesis
    using assms stays_typed_trans [OF l stays_typed_locks(2)]
    by (auto simp: process_multicast_flow_eq rbind_Inr_iff split: if_splits dest!: convey_page_typed
        intro: stays_typed_trans)
qed

lemma convey_all_typed: "convey_all env rws s = Inr s' \<Longrightarrow> stays_typed s s'"
  by (induction rws arbitrary: s)
    (auto simp: rbind_Inr_iff split: if_splits dest!: convey_page_typed intro: stays_typed_trans)

lemma convey_pending_typed: "convey_pending env rws s = Inr s' \<Longrightarrow> stays_typed s s'"
  by (induction rws arbitrary: s)
    (auto simp: rbind_Inr_iff split: if_splits dest!: convey_page_typed
      intro: stays_typed_trans stays_typed_trans [OF _ stays_typed_locks(2)])

lemma putback_typed [simp]: "stays_typed s (del_and_putback rw s)" "stays_typed s (release_work rw s)"
  by (rule stays_typed_quiet; simp add: release_work_def del_and_putback_def upd_work_def)+

lemma fold_typed: "(\<And>x s. stays_typed s (f x s)) \<Longrightarrow> stays_typed s (fold f xs s)"
  by (induction xs arbitrary: s) (auto intro: stays_typed_trans)

lemma multicast_commit_typed:
  assumes "process_multicast_commit env w s = Inr s'"
  shows "stays_typed s s'"
proof (cases "commit_list s = []")
  case True
  then show ?thesis using assms by (auto simp: process_multicast_commit_def)
next
  case False
  then obtain s1 where c: "convey_all env (commit_list s) s = Inr s1"
      "s' = fold del_and_putback (commit_list s1) (send_reply (imm_data w) Multicast_Ack s1)"
    using assms by (auto simp: process_multicast_commit_def rbind_Inr_iff send_reply_def Let_def)
  have "stays_typed s0 (fold del_and_putback rws s0)" for rws s0 by (rule fold_typed) (rule putback_typed)
  then show ?thesis
    unfolding c(2) using convey_all_typed [OF c(1)] stays_typed_reply(2) stays_typed_trans by blast
qed

lemma multicast_completion_typed:
  "process_multicast_completion env w s = Inr s' \<Longrightarrow> stays_typed s s'"
  by (auto simp: process_multicast_completion_def Let_def split: if_splits
      dest: flow_typed multicast_commit_typed)

lemma open_typed:
  assumes "process_rpc_open env w s = Inr s'"
  shows "stays_typed s s'"
proof -
  let ?nr = "open_block (imm_data w)"
  obtain b s2 mb m where s2: "(if memblocks s ! ?nr = None then add_memblock (env ?nr) ?nr (mutex_lock s)
        else Inr (True, mutex_lock s)) = Inr (b, s2)"
      "memblocks s2 ! ?nr = Some mb" "block_mr mb = Some m"
      "s' = mutex_unlock (send_reply (imm_data w) (Open_Info (mr_addr m) (mr_rkey m)) s2)"
      "?nr < length (memblocks s)"
    by (rule process_rpc_open_cases [OF assms])
  have t: "stays_typed s s2"
    using s2(1) stays_typed_trans [OF stays_typed_locks(3) stays_typed_add_memblock]
    by (auto split: if_splits)
  have len: "length (memblocks s2) = length (memblocks s)"
    using s2(1) add_memblock_cases by (fastforce simp: lock_defs split: if_splits)
  have "mr_addr m = buffer mb" if "blocks_ok s2"
    using that s2(2,3,5) len by (auto simp: blocks_ok_def block_ok_def)
  then have "stays_typed s2 s'"
    using s2(2,4) by (auto simp: stays_typed_def grows_def told_def send_reply_def lock_defs blocks_ok_def)
  then show ?thesis using t stays_typed_trans by blast
qed

lemma wait_pages_typed: "wait_pages env imm ws s = Inr (rest, s') \<Longrightarrow> stays_typed s s'"
  by (induction ws arbitrary: s)
    (auto simp: rbind_Inr_iff split: if_splits dest!: multicast_completion_typed intro: stays_typed_trans)

lemma rpc_commit_typed:
  assumes "process_rpc_commit env arrivals w s = Inr (rest, s')"
  shows "stays_typed s s'"
proof (cases "commit_list s = []")
  case True
  then show ?thesis using assms by (auto simp: process_rpc_commit_def)
next
  case False
  then obtain s1 s2 where c: "wait_pages env (imm_data w) arrivals s = Inr (rest, s1)"
      "convey_pending env (commit_list s1) (spin_lock s1) = Inr s2"
      "s' = (let s3 = fold release_work (commit_list s2) s2 in
         send_reply (imm_data w) Ack (spin_unlock (s3\<lparr>batch := atomic_set (batch s3) 0\<rparr>)))"
    using assms by (auto simp: process_rpc_commit_def rbind_Inr_iff Let_def)
  let ?s3 = "fold release_work (commit_list s2) s2"
  have "stays_typed s s2"
    using wait_pages_typed [OF c(1)] convey_pending_typed [OF c(2)] stays_typed_locks(1) stays_typed_trans by blast
  moreover have "stays_typed s2 ?s3" by (rule fold_typed) simp
  moreover have "stays_typed ?s3 (spin_unlock (?s3\<lparr>batch := atomic_set (batch ?s3) 0\<rparr>))"
    by (rule stays_typed_quiet) (simp_all add: lock_defs)
  ultimately have "stays_typed s (spin_unlock (?s3\<lparr>batch := atomic_set (batch ?s3) 0\<rparr>))"
    using stays_typed_trans by blast
  from stays_typed_trans [OF this stays_typed_reply(1)] show ?thesis by (simp add: c(3) Let_def)
qed

lemma get_page_loop_typed: "get_page_loop env off ws s = Inr (p, rest, s') \<Longrightarrow> stays_typed s s'"
  by (induction ws arbitrary: s)
    (auto simp: rbind_Inr_iff split: option.splits dest!: multicast_completion_typed intro: stays_typed_trans)

lemma get_page_typed: "process_rpc_get_page env arrivals w s = Inr (rest, s') \<Longrightarrow> stays_typed s s'"
  by (auto simp: process_rpc_get_page_def rbind_Inr_iff split: option.splits dest!: get_page_loop_typed
      intro: stays_typed_trans [OF _ stays_typed_reply(3)])

lemma rdma_completion_typed:
  "process_rdma_completion env arrivals w s = Inr (rest, s') \<Longrightarrow> stays_typed s s'"
  by (auto simp: process_rdma_completion_def Let_def rbind_Inr_iff split: if_splits
      dest: open_typed rpc_commit_typed get_page_typed)

section \<open>Any run of the server\<close>

text \<open>The two threads, one completion after the other in any order, each with any word.\<close>

inductive server_run :: "(nat \<Rightarrow> block_env) \<Rightarrow> server \<Rightarrow> server \<Rightarrow> bool" for env where
  run_idle: "server_run env s s"
| run_multicast: "server_run env s s' \<Longrightarrow> process_multicast_completion env w s' = Inr s'' \<Longrightarrow> server_run env s s''"
| run_rdma: "server_run env s s' \<Longrightarrow> process_rdma_completion env arrivals w s' = Inr (rest, s'') \<Longrightarrow>
    server_run env s (s''\<lparr>rdma_rq := rdma_rq s'' @ [wr_id w]\<rparr>)"

lemma server_run_typed: "server_run env s s' \<Longrightarrow> stays_typed s s'"
proof (induction rule: server_run.induct)
  case (run_rdma s s' arrivals w rest s'')
  have "stays_typed s'' (s''\<lparr>rdma_rq := rdma_rq s'' @ [wr_id w]\<rparr>)" by (rule stays_typed_quiet) simp_all
  then show ?case using run_rdma rdma_completion_typed stays_typed_trans by blast
qed (auto dest: multicast_completion_typed intro: stays_typed_trans)

text \<open>
  C25: Whatever requests the server's threads handle, in any order and with any words in them, its
  block table stays well formed, no block moves or goes away, the receive buffers keep their places, no
  reply is lost, and every address it ever gave out is that of the block that was asked for.
\<close>

theorem server_stays_well_formed:
  assumes "server_run env s s'" "blocks_ok s" "told s"
  shows "blocks_ok s' \<and> told s'
    \<and> (\<forall>nr mb. memblocks s ! nr = Some mb \<longrightarrow> memblocks s' ! nr = Some mb)
    \<and> (\<forall>rw. rw_buffer (works s' rw) = rw_buffer (works s rw))
    \<and> (\<exists>more. replies s' = replies s @ more)"
  using server_run_typed [OF assms(1)] assms(2,3) by (simp add: stays_typed_def grows_def)

theorem server_stays_well_formed_witness:
  "\<exists>s' a key. server_run ex_env (ex_server 0) s' \<and> (0x10040000, Open_Info a key) \<in> set (replies s')
    \<and> (\<exists>mb. memblocks s' ! 1 = Some mb \<and> buffer mb = a)"
proof -
  let ?w = "\<lparr>wr_id = 1, imm_data = 0x10040000, wc_ok = True\<rparr>"
  have nr: "open_block (imm_data ?w) = 1" by (simp add: open_block_def)
  have op: "ib_get_opcode 0x10040000 = RDMA_OPCODE_OPEN" by (simp add: ib_get_opcode_eq opcode_defs)
  have wf: "blocks_ok (ex_server 0)" "told (ex_server 0)"
    using ex_server_ok [of 0] by (simp_all add: server_ok_def told_def ex_server_def)
  obtain s1 where s1: "process_rpc_open ex_env ?w (ex_server 0) = Inr s1"
  proof (cases "process_rpc_open ex_env ?w (ex_server 0)")
    case (Inl e)
    then show ?thesis using process_rpc_open_Inl [OF Inl ex_server_ok] ex_grants [of 1] nr by (simp add: MAX_MEMBLOCK_def)
  qed (rule that)
  obtain key where r: "replies s1 = replies (ex_server 0) @ [(0x10040000, Open_Info (mmap_ret (ex_env 1)) key)]"
    using process_rpc_open_ok [OF s1 ex_server_ok] nr by auto
  let ?s = "s1\<lparr>rdma_rq := rdma_rq s1 @ [wr_id ?w]\<rparr>"
  have run: "server_run ex_env (ex_server 0) ?s"
    by (rule run_rdma [OF run_idle, of _ "[]" _ _ "[]"]) (simp add: process_rdma_completion_def op s1 Let_def)
  from server_stays_well_formed [OF this wf] have "told ?s" by blast
  then show ?thesis using run r nr unfolding told_def by (intro exI [of _ ?s]) fastforce
qed

end
