(* ===== verification/Decimal.thy ===== *)
theory Decimal
  imports Prelude
begin

text \<open>
  The two functions of the C library with which the self-test of \<open>lib/test.c\<close> marks its pages:
  \<open>snprintf\<close> with \<open>"%d"\<close> into a page, and \<open>atoi\<close>; that one undoes the other.
\<close>

unbundle bit_operations_syntax

section \<open>Printing and reading\<close>

text \<open>\<open>snprintf\<close> with \<open>"%d"\<close>: the digits, a sign before them, a zero byte behind them.\<close>

fun digits :: "nat \<Rightarrow> u8 list" where
  "digits n = (if n < 10 then [0x30 + of_nat n] else digits (n div 10) @ [0x30 + of_nat (n mod 10)])"

declare digits.simps [simp del]

definition decimal :: "int \<Rightarrow> u8 list" where
  "decimal x = (if x < 0 then 0x2d # digits (nat (- x)) else digits (nat x))"

definition put_string :: "u8 list \<Rightarrow> page \<Rightarrow> page" where
  "put_string cs p =
     (\<lambda>i. if unat i < length cs then cs ! unat i else if unat i = length cs then 0 else p i)"

definition page_bytes :: "page \<Rightarrow> u8 list" where
  "page_bytes p = map (\<lambda>i. p (of_nat i)) [0..<4096]"

text \<open>\<open>atoi\<close>: white space, a sign, digits up to the first byte that is none.\<close>

definition is_space :: "u8 \<Rightarrow> bool" where "is_space c \<longleftrightarrow> c = 0x20 \<or> 9 \<le> c \<and> c \<le> 13"

fun atoi_digits :: "int \<Rightarrow> u8 list \<Rightarrow> int" where
  "atoi_digits acc [] = acc"
| "atoi_digits acc (c # cs) =
     (if 0x30 \<le> c \<and> c \<le> 0x39 then atoi_digits (acc * 10 + uint (c - 0x30)) cs else acc)"

definition atoi :: "u8 list \<Rightarrow> int" where
  "atoi cs =
     (case dropWhile is_space cs of
        [] \<Rightarrow> 0
      | c # ds \<Rightarrow> if c = 0x2d then - atoi_digits 0 ds else if c = 0x2b then atoi_digits 0 ds
          else atoi_digits 0 (c # ds))"

text \<open>What was printed is what is read, whatever the buffer held behind it.\<close>

lemma digit_value: "d < 10 \<Longrightarrow> 0x30 \<le> (0x30 + of_nat d :: u8) \<and> (0x30 + of_nat d :: u8) \<le> 0x39
    \<and> uint ((0x30 + of_nat d :: u8) - 0x30) = int d"
  by (simp add: word_le_nat_alt unat_word_ariths unat_of_nat uint_nat)

lemma digits_ne: "digits n \<noteq> []"
  by (subst digits.simps) simp

lemma atoi_digits_append:
  "\<forall>c \<in> set cs. 0x30 \<le> c \<and> c \<le> 0x39 \<Longrightarrow> atoi_digits acc (cs @ ds) = atoi_digits (atoi_digits acc cs) ds"
  by (induction cs arbitrary: acc) auto

lemma digits_range: "c \<in> set (digits n) \<Longrightarrow> 0x30 \<le> c \<and> c \<le> 0x39"
proof (induction n rule: digits.induct)
  case (1 n)
  show ?case
  proof (cases "n < 10")
    case True
    then show ?thesis using 1(2) digit_value [of n] by (subst (asm) digits.simps) simp
  next
    case False
    then have "c \<in> set (digits (n div 10)) \<or> c = 0x30 + of_nat (n mod 10)"
      using 1(2) by (subst (asm) digits.simps) auto
    then show ?thesis using 1(1) [OF False] digit_value [of "n mod 10"] by auto
  qed
qed

lemma atoi_of_digits: "atoi_digits 0 (digits n) = int n"
proof (induction n rule: digits.induct)
  case (1 n)
  show ?case
  proof (cases "n < 10")
    case True
    then show ?thesis using digit_value [of n] by (subst digits.simps) simp
  next
    case False
    have "atoi_digits 0 (digits n) = atoi_digits (atoi_digits 0 (digits (n div 10))) [0x30 + of_nat (n mod 10)]"
      using False digits_range by (subst digits.simps) (simp add: atoi_digits_append)
    also have "\<dots> = int (n div 10) * 10 + int (n mod 10)"
      using 1(1) [OF False] digit_value [of "n mod 10"] by simp
    also have "\<dots> = int n" by (simp add: zdiv_int zmod_int)
    finally show ?thesis .
  qed
qed

lemma atoi_decimal: "atoi (decimal x @ 0 # rest) = x"
proof -
  have end0: "atoi_digits 0 (digits n @ 0 # rest) = int n" for n
    using atoi_of_digits [of n] digits_range [of _ n] by (subst atoi_digits_append) auto
  have sp: "\<not> is_space 0x2d" by (simp add: is_space_def word_le_nat_alt)
  show ?thesis
  proof (cases "x < 0")
    case True
    then show ?thesis using end0 [of "nat (- x)"] sp by (simp add: atoi_def decimal_def)
  next
    case False
    obtain c cs where d: "digits (nat x) = c # cs" using digits_ne by (cases "digits (nat x)") auto
    then have c: "0x30 \<le> c" "c \<le> 0x39" using digits_range [of c "nat x"] by auto
    then have "\<not> is_space c" "c \<noteq> 0x2d" "c \<noteq> 0x2b"
      by (auto simp: is_space_def word_le_nat_alt)
    then show ?thesis using False d end0 [of "nat x"] by (simp add: atoi_def decimal_def)
  qed
qed

lemma length_digits: "n < 10 ^ k \<Longrightarrow> 0 < k \<Longrightarrow> length (digits n) \<le> k"
proof (induction k arbitrary: n)
  case (Suc k)
  show ?case
  proof (cases "n < 10")
    case False
    have "n div 10 < 10 ^ k" using Suc.prems(1) by (simp add: less_mult_imp_div_less mult.commute)
    moreover have "0 < k" using False Suc.prems(1) by (cases k) auto
    ultimately show ?thesis using False Suc.IH by (subst digits.simps) simp
  qed (subst digits.simps, simp)
qed simp

lemma page_bytes_put_string:
  assumes "length cs < 4096"
  shows "\<exists>rest. page_bytes (put_string cs p) = cs @ 0 # rest"
proof -
  have u: "unat (of_nat i :: 12 word) = i" if "i < 4096" for i using that by (simp add: unat_of_nat)
  have "page_bytes (put_string cs p) ! i = (cs @ 0 # drop (Suc (length cs)) (page_bytes p)) ! i"
    if "i < 4096" for i
    using that assms u by (simp add: page_bytes_def put_string_def nth_append nth_Cons' nth_drop)
  then have "page_bytes (put_string cs p) = cs @ 0 # drop (Suc (length cs)) (page_bytes p)"
    using assms by (intro nth_equalityI) (auto simp: page_bytes_def)
  then show ?thesis by blast
qed

lemma atoi_page:
  assumes "\<bar>x\<bar> < 10 ^ 10"
  shows "atoi (page_bytes (put_string (decimal x) p)) = x"
proof -
  have "length (digits (nat \<bar>x\<bar>)) \<le> 10" using assms by (intro length_digits) (simp_all add: nat_less_iff)
  then have "length (decimal x) < 4096" by (auto simp: decimal_def split: if_splits)
  then obtain rest where "page_bytes (put_string (decimal x) p) = decimal x @ 0 # rest"
    using page_bytes_put_string by blast
  then show ?thesis by (simp add: atoi_decimal)
qed

end
