(* ===== verification/Self_Test.thy ===== *)
theory Self_Test
  imports Decimal System Server_Setup_Proofs
begin

text \<open>
  The client program (\<open>client/main.c\<close>) and what it runs, the self-test of \<open>lib/test.c\<close>: it opens
  25 blocks, then 30 times sends \<open>2^18\<close> pages to random places, each with its own number written
  into it in decimal, commits every 512 of them and reads each one back to compare.

  \<open>tester\<close> is the test's local variables with its connection's reply slots; the second component
  of the state is the server at the other end, which handles each request and takes each page as
  in \<open>Server\<close> and \<open>Far_Memory\<close>. The environments of the test's calls, sends and reads are numbered
  by the state's counters; \<open>rand\<close> is an argument.
\<close>

unbundle bit_operations_syntax

section \<open>The client's options\<close>

text \<open>
  \<open>getopt\<close> with \<open>"s:p:n:"\<close> yields the option's letter and argument; \<open>num\<close> is \<open>atoi\<close>. There is no
  case for \<open>n\<close>.
\<close>

fun client_options ::
  "(string \<Rightarrow> int) \<Rightarrow> (char \<times> string) list \<Rightarrow> string \<Rightarrow> u16 \<Rightarrow> (string \<times> u16) option" where
  "client_options num [] ip port = Some (ip, port)"
| "client_options num ((c, arg) # opts) ip port =
     (if c = CHR ''s'' then client_options num opts arg port
      else if c = CHR ''p'' then client_options num opts ip (word_of_int (num arg))
      else None)"

definition CONFIG_SERVER_IP :: string where "CONFIG_SERVER_IP = ''10.10.1.17''"

text \<open>\<open>main\<close> up to the self-test: \<open>Some\<close> is the status it ends with instead.\<close>

definition client_start ::
  "(string \<Rightarrow> int) \<Rightarrow> (char \<times> string) list \<Rightarrow> connect_env \<Rightarrow> connect_env \<Rightarrow> net
   \<Rightarrow> (int option \<times> net) result" where
  "client_start num opts v vm s =
     (case client_options num opts CONFIG_SERVER_IP CONFIG_SERVER_PORT of
        None \<Rightarrow> Inr (Some 1, s)
      | Some (ip, port) \<Rightarrow>
          let (ok, s1) = init_client v ip port s in
          if \<not> ok then Inr (Some 1, s1)
          else rbind (init_multicast vm CONFIG_MULTI_IP s1) (\<lambda>(ok, s2).
                 Inr (if ok then None else Some 1, s2)))"

section \<open>State and environment of the self-test\<close>

record tester =
  te_rpc :: rpc_state
  te_lnum :: page              \<comment> \<open>the page sent\<close>
  te_scan :: page              \<comment> \<open>\<open>scan_buffer\<close>, the page read\<close>
  te_res :: rdma_info_t        \<comment> \<open>\<open>*res\<close>\<close>
  te_list :: "rdma_info_t list"
  te_numlist :: "int list"
  te_offsetlist :: "u32 list"
  te_batch :: nat
  te_send_count :: nat
  te_count :: nat
  te_calls :: nat
  te_sends :: nat
  te_reads :: nat

record test_env =
  tv_calls :: "nat \<Rightarrow> rdma_info_t rpc_env"
  tv_sends :: "nat \<Rightarrow> bool \<times> poll list"     \<comment> \<open>whether the post is taken, and the polls\<close>
  tv_reads :: "nat \<Rightarrow> bool \<times> poll list"
  tv_done :: addr
  tv_req :: addr
  tv_mr :: u32
  tv_lnum :: addr
  tv_lmr :: u32
  tv_scan :: addr
  tv_scan_mr :: u32
  tv_dest :: multicast_dest
  tv_blocks :: "nat \<Rightarrow> block_env"             \<comment> \<open>what the server's allocations meet\<close>
  tv_rid :: "nat \<Rightarrow> addr"                    \<comment> \<open>the receive in which call \<open>n\<close> arrives\<close>

datatype verdict = Send_Failed | Mismatch | Passed

definition TEST_BATCH :: nat where "TEST_BATCH = 2 ^ 9"

text \<open>The receives for the replies: memory is not checked, a post that fails is the \<open>assert(!bad_wr)\<close>.\<close>

fun test_post_recvs ::
  "(nat \<Rightarrow> bool) \<Rightarrow> (nat \<Rightarrow> int) \<Rightarrow> addr \<Rightarrow> u32 \<Rightarrow> nat list \<Rightarrow> lib_recv list \<Rightarrow> lib_recv list result" where
  "test_post_recvs rw post base lkey [] rs = Inr rs"
| "test_post_recvs rw post base lkey (i # is) rs =
     (if \<not> rw i then Inl Null_Pointer
      else if post i \<noteq> 0 then Inl Assert_Failed
      else test_post_recvs rw post base lkey is
             (rs @ [\<lparr>lr_id = i, lr_size = LIB_EACH_SIZE, lr_buffer = base + of_nat i * LIB_EACH_SIZE,
                     lr_lkey = lkey\<rparr>]))"

section \<open>Calls, sends and reads\<close>

text \<open>
  A call, whose result the test does not look at: the reply, if there is one, is copied to \<open>res\<close>.
  The server handles the request.
\<close>

definition test_call :: "test_env \<Rightarrow> u32 \<Rightarrow> tester \<times> server \<Rightarrow> (tester \<times> server) result" where
  "test_call e opcode st =
     (case st of (t, s) \<Rightarrow>
       rbind (ib_rpc (tv_calls e (te_calls t)) opcode (tv_req e) 16 (Some (tv_mr e)) (te_rpc t))
         (\<lambda>(_, r, rs).
       let w = \<lparr>wr_id = tv_rid e (te_calls t), imm_data = wr_imm (last (r_sent rs)), wc_ok = True\<rparr>;
           t' = t\<lparr>te_rpc := rs, te_calls := te_calls t + 1,
                  te_res := (case r of None \<Rightarrow> te_res t | Some i \<Rightarrow> i)\<rparr>
       in rbind (process_rdma_completion (tv_blocks e) [] w s) (\<lambda>(_, s'). Inr (t', s'))))"

text \<open>A page on its way arrives, or is dropped when the server has no receive posted.\<close>

definition packet_arrives ::
  "(nat \<Rightarrow> block_env) \<Rightarrow> u32 \<Rightarrow> page \<Rightarrow> server \<Rightarrow> server result" where
  "packet_arrives env imm p s =
     (case deliver imm p s of None \<Rightarrow> Inr s | Some (w, s1) \<Rightarrow> process_multicast_completion env w s1)"

definition test_send ::
  "test_env \<Rightarrow> u32 \<Rightarrow> tester \<times> server \<Rightarrow> (bool \<times> tester \<times> server) result" where
  "test_send e header st =
     (case st of (t, s) \<Rightarrow>
       let (post_ok, polls) = tv_sends e (te_sends t) in
       rbind (ib_multicast_send post_ok polls (r_done (te_rpc t)) (tv_done e) (tv_dest e) (tv_lmr e)
                (tv_lnum e) PAGE_SIZE header) (\<lambda>(_, ok, _, st').
       rbind (packet_arrives (tv_blocks e) header (te_lnum t) s) (\<lambda>s'.
       Inr (ok, t\<lparr>te_rpc := (te_rpc t)\<lparr>r_done := st'\<rparr>, te_sends := te_sends t + 1\<rparr>, s'))))"

definition test_read ::
  "test_env \<Rightarrow> u64 \<Rightarrow> u32 \<Rightarrow> tester \<times> server \<Rightarrow> (bool \<times> tester \<times> server) result" where
  "test_read e remote key st =
     (case st of (t, s) \<Rightarrow>
       let (post_ok, polls) = tv_reads e (te_reads t) in
       rbind (ib_rdma_read post_ok polls (r_done (te_rpc t)) (tv_done e) (tv_scan_mr e) (tv_scan e)
                PAGE_SIZE remote key False) (\<lambda>(_, ok, _, st').
       Inr (ok, t\<lparr>te_rpc := (te_rpc t)\<lparr>r_done := st'\<rparr>, te_reads := te_reads t + 1,
                  te_scan := page_at (smem s) remote\<rparr>, s)))"

section \<open>\<open>test_rpc_open\<close>\<close>

text \<open>The open of block \<open>i\<close>; the answer is kept in \<open>list\<close>.\<close>

definition open_offset :: "nat \<Rightarrow> u32" where
  "open_offset i = ucast (drop_bit 12 (2 ^ 30 * of_nat i :: u64))"

fun test_opens :: "test_env \<Rightarrow> nat list \<Rightarrow> tester \<times> server \<Rightarrow> (tester \<times> server) result" where
  "test_opens e [] st = Inr st"
| "test_opens e (i # is) st =
     rbind (test_call e (push_bit 28 RDMA_OPCODE_OPEN OR open_offset i) st) (\<lambda>(t, s).
     if \<not> i < length (te_list t) then Inl Out_Of_Bounds
     else test_opens e is (t\<lparr>te_list := (te_list t)[i := te_res t]\<rparr>, s))"

text \<open>Reading back the pages \<open>send_count\<close> to \<open>batch\<close>; a read that fails is an \<open>assert(0)\<close>.\<close>

fun test_check ::
  "test_env \<Rightarrow> nat list \<Rightarrow> tester \<times> server \<Rightarrow> (verdict option \<times> tester \<times> server) result" where
  "test_check e [] st = Inr (None, st)"
| "test_check e (ia # ias) (t, s) =
     (let offset = te_offsetlist t ! (ia mod TEST_BATCH);
          nr_block = unat (drop_bit 18 offset AND 0xff)
      in
      if \<not> nr_block < length (te_list t) then Inl Out_Of_Bounds
      else
        let info = te_list t ! nr_block in
        rbind (test_read e (remote_addr info + ucast (push_bit 12 (offset AND 0x3ffff))) (rkey info) (t, s))
          (\<lambda>(ok, t', s').
            if \<not> ok then Inl Assert_Failed
            else if te_numlist t' ! (ia mod TEST_BATCH) \<noteq> atoi (page_bytes (te_scan t'))
            then Inr (Some Mismatch, t', s')
            else test_check e ias (t'\<lparr>te_count := te_count t' + 1\<rparr>, s')))"

text \<open>One page: remember its number, print it into the page, send it; every 512th is a commit.\<close>

definition test_page ::
  "test_env \<Rightarrow> u32 \<Rightarrow> nat \<Rightarrow> tester \<times> server \<Rightarrow> (verdict option \<times> tester \<times> server) result" where
  "test_page e rnd i st =
     (case st of (t, s) \<Rightarrow>
       let offset = rnd AND 0x3fffff;
           header = push_bit 28 MULTICAST_OPCODE_FLOW OR (offset AND 0xfffffff);
           rnum = sint offset;
           t1 = t\<lparr>te_numlist := (te_numlist t)[i mod TEST_BATCH := rnum],
                  te_offsetlist := (te_offsetlist t)[i mod TEST_BATCH := offset],
                  te_lnum := put_string (decimal rnum) (te_lnum t),
                  te_batch := te_batch t + 1\<rparr>
       in
       rbind (test_send e header (t1, s)) (\<lambda>(ok, t2, s2).
       if \<not> ok then Inr (Some Send_Failed, t2, s2)
       else if te_batch t2 mod TEST_BATCH = 0 then
         rbind (test_call e (push_bit 28 RDMA_OPCODE_COMMIT) (t2, s2)) (\<lambda>(t3, s3).
         rbind (test_check e [te_send_count t3..<te_batch t3] (t3, s3)) (\<lambda>(out, t4, s4).
         Inr (out, if out = None then t4\<lparr>te_send_count := te_batch t4\<rparr> else t4, s4)))
       else Inr (None, t2, s2)))"

fun test_pages ::
  "test_env \<Rightarrow> (nat \<Rightarrow> u32) \<Rightarrow> nat list \<Rightarrow> tester \<times> server \<Rightarrow> (verdict option \<times> tester \<times> server) result"
  where
  "test_pages e rand [] st = Inr (None, st)"
| "test_pages e rand (i # is) st =
     rbind (test_page e (rand (te_sends (fst st))) i st) (\<lambda>(out, st').
     if out \<noteq> None then Inr (out, st') else test_pages e rand is st')"

fun test_rounds ::
  "test_env \<Rightarrow> (nat \<Rightarrow> u32) \<Rightarrow> nat \<Rightarrow> tester \<times> server \<Rightarrow> (verdict option \<times> tester \<times> server) result"
  where
  "test_rounds e rand 0 st = Inr (None, st)"
| "test_rounds e rand (Suc n) st =
     rbind (test_pages e rand [0..<2 ^ 18] st) (\<lambda>(out, t, s).
     if out \<noteq> None then Inr (out, t, s)
     else test_rounds e rand n (t\<lparr>te_batch := 0, te_send_count := 0\<rparr>, s))"

definition test_rpc_open ::
  "test_env \<Rightarrow> (nat \<Rightarrow> u32) \<Rightarrow> tester \<times> server \<Rightarrow> (verdict \<times> tester \<times> server) result" where
  "test_rpc_open e rand st =
     rbind (test_opens e [0..<25] st) (\<lambda>(t, s).
     rbind (test_rounds e rand 30 (t\<lparr>te_batch := 0, te_send_count := 0, te_count := 0\<rparr>, s))
       (\<lambda>(out, st'). Inr (case out of None \<Rightarrow> Passed | Some v \<Rightarrow> v, st')))"

end
