(* ===== verification/Self_Test_Proofs.thy ===== *)
theory Self_Test_Proofs
  imports Self_Test Instance
begin

text \<open>
  What the self-test shows: with a server that keeps its invariant, has 512 receives and memory for
  the blocks, and an adapter that completes every transfer, the test opens its blocks and finds every
  one of its pages as it sent it.
\<close>

unbundle bit_operations_syntax

section \<open>A transfer that completes\<close>

definition completes :: "addr \<Rightarrow> poll list \<Rightarrow> bool" where
  "completes d polls \<longleftrightarrow>
     (\<exists>pre w rest. polls = pre @ Poll_Wc w # rest \<and> (\<forall>p \<in> set pre. passes_by d p) \<and> wr_id w = d \<and> wc_ok w)"

lemma post_and_wait_completes:
  assumes "completes (wr_done wr) polls"
  shows "\<exists>polls' st'. post_and_wait True polls st wr = Inr (wr, True, polls', st')"
proof -
  obtain pre w rest where p: "polls = pre @ Poll_Wc w # rest" "\<forall>p \<in> set pre. passes_by (wr_done wr) p"
      "wr_id w = wr_done wr" "wc_ok w"
    using assms unfolding completes_def by blast
  show ?thesis
    using send_loop_own [OF p(2) _ p(3,4), of "st(wr_done wr := 0)" rest] by (simp add: post_and_wait_def p(1))
qed

lemma transfers_complete:
  assumes "completes d polls"
  shows "\<exists>wr polls' st'. ib_multicast_send True polls st d dest lkey a sz imm = Inr (wr, True, polls', st')"
    and "\<exists>wr polls' st'. ib_rdma_read True polls st d lkey a sz ra key inl = Inr (wr, True, polls', st')"
  using post_and_wait_completes [of "blank_wr\<lparr>wr_done := d, sge_addr := a, sge_length := ucast sz, sge_lkey := lkey,
          wr_op := WR_SEND_WITH_IMM, wr_signaled := True, wr_imm := imm,
          wr_ah := md_ah dest, wr_remote_qpn := md_remote_qpn dest, wr_remote_qkey := md_remote_qkey dest\<rparr>" polls st]
    post_and_wait_completes [of "(if inl then (blank_wr\<lparr>wr_done := d, sge_addr := a, sge_length := ucast sz,
          sge_lkey := lkey, wr_op := WR_RDMA_READ, wr_signaled := True, wr_imm := 0, wr_remote_addr := ra,
          wr_rkey := key\<rparr>)\<lparr>wr_inline := True\<rparr> else (blank_wr\<lparr>wr_done := d, sge_addr := a, sge_length := ucast sz,
          sge_lkey := lkey, wr_op := WR_RDMA_READ, wr_signaled := True, wr_imm := 0, wr_remote_addr := ra,
          wr_rkey := key\<rparr>))" polls st] assms
  by (auto simp: ib_multicast_send_def raw_ib_multi_send_def ib_rdma_read_def raw_ib_send_def Let_def)

definition rpc_free :: "rpc_state \<Rightarrow> bool" where
  "rpc_free rs \<longleftrightarrow> length (r_binders rs) = NR_BINDERS \<and> (\<forall>i < NR_BINDERS. flag (r_binders rs) i = 0)"

text \<open>A call that is answered finds a free slot, and leaves all slots free.\<close>

lemma ib_rpc_answers:
  assumes free: "rpc_free s" and ans: "answers env"
  shows "\<exists>i b s'. ib_rpc (env n) opc req sz mr s = Inr (True, Some i, s') \<and> rpc_free s'
    \<and> b < NR_BINDERS \<and> wr_imm (last (r_sent s')) = rpc_imm opc (of_nat b)
    \<and> (\<exists>a. e_rws (env n) a = Some i)"
proof -
  obtain r rs pre w info where e: "e_draws (env n) = r # rs" "serves (env n) (r mod NR_BINDERS) pre w"
      "\<forall>p \<in> set pre. p = Poll_Empty" "unat (wc_binder (imm_data w)) = r mod NR_BINDERS"
      "e_rws (env n) (wr_id w) = Some info"
    using ans unfolding answers_def by metis
  have b: "r mod NR_BINDERS < NR_BINDERS" by (simp add: NR_BINDERS_def)
  then have "flag (r_binders s) (r mod NR_BINDERS) = 0" using free by (simp add: rpc_free_def)
  then obtain bs where get: "get_binder (e_draws (env n)) (r_binders s) = Inr (r mod NR_BINDERS, rs, bs)"
    by (simp add: e(1))
  have len: "length (r_binders s) = NR_BINDERS" using free by (simp add: rpc_free_def)
  obtain s' where s': "ib_rpc (env n) opc req sz mr s = Inr (True, Some info, s')"
      "length (r_binders s') = NR_BINDERS" "flag (r_binders s') (r mod NR_BINDERS) = 0"
      "\<forall>i. i \<noteq> r mod NR_BINDERS \<longrightarrow> flag (r_binders s') i = flag (file_all pre (r_binders s)) i"
      "map wr_imm (r_sent s') = map wr_imm (r_sent s) @ [rpc_imm opc (of_nat (r mod NR_BINDERS))]"
    using ib_rpc_served [OF len get e(2,4,5), of opc req sz mr] by blast
  have "flag (r_binders s') i = 0" if "i < NR_BINDERS" for i
    using s'(3,4) that free file_all_empties [OF e(3)] by (cases "i = r mod NR_BINDERS") (simp_all add: rpc_free_def)
  then have "rpc_free s'" using s'(2) by (simp add: rpc_free_def)
  moreover have "r_sent s' \<noteq> []" using s'(5) by auto
  then have "wr_imm (last (r_sent s')) = rpc_imm opc (of_nat (r mod NR_BINDERS))"
    using s'(5) by (metis last_map last_snoc)
  ultimately show ?thesis using s'(1) b e(5) by blast
qed

text \<open>As on the server, only the first 1088 receives lie in the buffer.\<close>

lemma test_recvs_overrun:
  assumes "test_post_recvs rw post base lkey [0..<MCM_MAX_RECV_WR] [] = Inr rs"
  shows "length rs = 4096"
    and "j < 4096 \<Longrightarrow> lr_buffer (rs ! j) - base + LIB_EACH_SIZE \<le> RPC_BUFFER_SIZE \<longleftrightarrow> j < 1088"
proof -
  have "test_post_recvs rw post base lkey is qs = Inr rs \<Longrightarrow> rs = qs @ map (recv_at base LIB_EACH_SIZE lkey) is"
    for "is" qs
    by (induction "is" arbitrary: qs) (fastforce simp: recv_at_def split: if_splits)+
  from this [OF assms] have rs: "rs = map (recv_at base LIB_EACH_SIZE lkey) [0..<MCM_MAX_RECV_WR]" by simp
  then show "length rs = 4096" by (simp add: MCM_MAX_RECV_WR_def)
  show "lr_buffer (rs ! j) - base + LIB_EACH_SIZE \<le> RPC_BUFFER_SIZE \<longleftrightarrow> j < 1088" if "j < 4096"
    using rpc_recv_outside [of j base lkey] that rs by (simp add: MCM_MAX_RECV_WR_def)
qed

section \<open>What the test needs\<close>

definition test_good :: "test_env \<Rightarrow> bool" where
  "test_good e \<longleftrightarrow>
     answers (tv_calls e)
     \<and> (\<forall>n < 25. \<forall>a info. e_rws (tv_calls e n) a = Some info \<longrightarrow> remote_addr info = mmap_ret (tv_blocks e n))
     \<and> (\<forall>n < 25. grants (tv_blocks e) n)
     \<and> (\<forall>n. fst (tv_sends e n) \<and> completes (tv_done e) (snd (tv_sends e n)))
     \<and> (\<forall>n. fst (tv_reads e n) \<and> completes (tv_done e) (snd (tv_reads e n)))"

definition tester_ok :: "test_env \<Rightarrow> tester \<Rightarrow> bool" where
  "tester_ok e t \<longleftrightarrow>
     rpc_free (te_rpc t) \<and> length (te_list t) = 30
     \<and> length (te_numlist t) = TEST_BATCH \<and> length (te_offsetlist t) = TEST_BATCH"

definition blocks_known :: "test_env \<Rightarrow> nat \<Rightarrow> tester \<Rightarrow> bool" where
  "blocks_known e k t \<longleftrightarrow> (\<forall>nr < k. remote_addr (te_list t ! nr) = mmap_ret (tv_blocks e nr))"

lemma test_goodD:
  assumes "test_good e"
  shows "answers (tv_calls e)" "n < 25 \<Longrightarrow> grants (tv_blocks e) n"
    "n < 25 \<Longrightarrow> e_rws (tv_calls e n) a = Some info \<Longrightarrow> remote_addr info = mmap_ret (tv_blocks e n)"
    "tv_sends e n = (True, snd (tv_sends e n))" "completes (tv_done e) (snd (tv_sends e n))"
    "tv_reads e n = (True, snd (tv_reads e n))" "completes (tv_done e) (snd (tv_reads e n))"
  using assms by (auto simp: test_good_def prod_eq_iff)

lemma test_send_good:
  assumes "test_good e" "serve_page (tv_blocks e) off (te_lnum t) s = Some s'"
  shows "\<exists>st. test_send e (flow_header off) (t, s) =
    Inr (True, t\<lparr>te_rpc := (te_rpc t)\<lparr>r_done := st\<rparr>, te_sends := te_sends t + 1\<rparr>, s')"
proof -
  have "packet_arrives (tv_blocks e) (flow_header off) (te_lnum t) s = Inr s'"
    using assms(2) by (auto simp: serve_page_def packet_arrives_def split: if_splits option.splits sum.splits)
  moreover obtain polls where p: "tv_sends e (te_sends t) = (True, polls)" "completes (tv_done e) polls"
    using test_goodD(4,5) [OF assms(1), of "te_sends t"] by blast
  moreover obtain wr polls' st' where "ib_multicast_send True polls (r_done (te_rpc t)) (tv_done e) (tv_dest e)
      (tv_lmr e) (tv_lnum e) 0x1000 (flow_header off) = Inr (wr, True, polls', st')"
    using transfers_complete(1) [OF p(2)] by blast
  ultimately show ?thesis by (auto simp: test_send_def)
qed

lemma test_read_good:
  assumes "test_good e"
  shows "\<exists>st. test_read e remote key (t, s) = Inr (True, t\<lparr>te_rpc := (te_rpc t)\<lparr>r_done := st\<rparr>,
    te_reads := te_reads t + 1, te_scan := page_at (smem s) remote\<rparr>, s)"
proof -
  obtain polls where p: "tv_reads e (te_reads t) = (True, polls)" "completes (tv_done e) polls"
    using test_goodD(6,7) [OF assms, of "te_reads t"] by blast
  moreover obtain wr polls' st' where "ib_rdma_read True polls (r_done (te_rpc t)) (tv_done e)
      (tv_scan_mr e) (tv_scan e) 0x1000 remote key False = Inr (wr, True, polls', st')"
    using transfers_complete(2) [OF p(2)] by blast
  ultimately show ?thesis by (auto simp: test_read_def)
qed

section \<open>Opens and commits\<close>

text \<open>What a call changes of the test's variables.\<close>

definition after_call :: "tester \<Rightarrow> rpc_state \<Rightarrow> rdma_info_t \<Rightarrow> tester" where
  "after_call t rs i = t\<lparr>te_rpc := rs, te_calls := te_calls t + 1, te_res := i\<rparr>"

lemma test_call_eq:
  assumes "test_good e" "tester_ok e t"
  shows "\<exists>i b rs. test_call e opc (t, s) =
      rbind (process_rdma_completion (tv_blocks e) []
        \<lparr>wr_id = tv_rid e (te_calls t), imm_data = rpc_imm opc (of_nat b), wc_ok = True\<rparr> s)
        (\<lambda>(_, s'). Inr (after_call t rs i, s'))
    \<and> tester_ok e (after_call t rs i) \<and> (of_nat b :: u32) < 256
    \<and> (\<exists>a. e_rws (tv_calls e (te_calls t)) a = Some i)"
proof -
  obtain i b rs where r: "ib_rpc (tv_calls e (te_calls t)) opc (tv_req e) 16 (Some (tv_mr e)) (te_rpc t)
        = Inr (True, Some i, rs)" "rpc_free rs" "b < NR_BINDERS"
      "wr_imm (last (r_sent rs)) = rpc_imm opc (of_nat b)" "\<exists>a. e_rws (tv_calls e (te_calls t)) a = Some i"
    using ib_rpc_answers [OF _ test_goodD(1) [OF assms(1)], of "te_rpc t"] assms(2)
    unfolding tester_ok_def by blast
  have "(of_nat b :: u32) < 256" using r(3) by (simp add: NR_BINDERS_def word_less_nat_alt unat_of_nat)
  then show ?thesis
    using r assms(2)
    by (intro exI [of _ i] exI [of _ b] exI [of _ rs]) (simp add: test_call_def after_call_def tester_ok_def)
qed

lemma after_call_simps [simp]:
  "te_list (after_call t rs i) = te_list t" "te_numlist (after_call t rs i) = te_numlist t"
  "te_offsetlist (after_call t rs i) = te_offsetlist t" "te_batch (after_call t rs i) = te_batch t"
  "te_send_count (after_call t rs i) = te_send_count t" "te_count (after_call t rs i) = te_count t"
  "te_calls (after_call t rs i) = te_calls t + 1" "te_res (after_call t rs i) = i"
  by (simp_all add: after_call_def)

lemma open_offset_fields:
  assumes "i < 25"
  shows "get_num_memblock (open_offset i) = of_nat i \<and> open_offset i < 2 ^ 28 \<and> open_offset i AND 0xff = 0"
proof -
  have "\<forall>i \<in> set [0..<25]. get_num_memblock (open_offset i) = of_nat i \<and> open_offset i < 2 ^ 28
      \<and> open_offset i AND 0xff = 0"
    by (simp add: upt_rec get_num_memblock_def open_offset_def)
  then show ?thesis using assms by simp
qed

lemma test_call_open:
  assumes good: "test_good e" and ok: "tester_ok e t" and sv: "serving (tv_blocks e) W bufs s"
    and i: "te_calls t < 25"
  shows "\<exists>i rs s'. test_call e (push_bit 28 RDMA_OPCODE_OPEN OR open_offset (te_calls t)) (t, s)
      = Inr (after_call t rs i, s')
    \<and> tester_ok e (after_call t rs i) \<and> remote_addr i = mmap_ret (tv_blocks e (te_calls t))
    \<and> serving (tv_blocks e) W bufs s' \<and> commit_list s' = commit_list s
    \<and> multicast_rq s' = multicast_rq s \<and> batch s' = batch s"
proof -
  let ?opc = "push_bit 28 RDMA_OPCODE_OPEN OR open_offset (te_calls t)"
  obtain i b rs where c: "test_call e ?opc (t, s) =
      rbind (process_rdma_completion (tv_blocks e) []
        \<lparr>wr_id = tv_rid e (te_calls t), imm_data = rpc_imm ?opc (of_nat b), wc_ok = True\<rparr> s)
        (\<lambda>(_, s'). Inr (after_call t rs i, s'))"
      "tester_ok e (after_call t rs i)" "(of_nat b :: u32) < 256"
      "\<exists>a. e_rws (tv_calls e (te_calls t)) a = Some i"
    using test_call_eq [OF good ok] by blast
  let ?w = "\<lparr>wr_id = tv_rid e (te_calls t), imm_data = rpc_imm ?opc (of_nat b), wc_ok = True\<rparr>"
  note f = open_offset_fields [OF i]
  have "open_offset (te_calls t) < 2 ^ 28" using f by simp
  note o = open_fields [OF c(3) this, unfolded open_opcode_def]
  have nr: "open_block (imm_data ?w) = te_calls t"
    using o(2) f i by (simp add: open_block_def unat_of_nat)
  have sok: "server_ok (tv_blocks e) W bufs s" using sv by (simp add: serving_def)
  obtain s' where s': "process_rpc_open (tv_blocks e) ?w s = Inr s'"
  proof (cases "process_rpc_open (tv_blocks e) ?w s")
    case (Inl x)
    then show ?thesis
      using process_rpc_open_Inl [OF Inl sok] nr i test_goodD(2) [OF good i] by (simp add: MAX_MEMBLOCK_def)
  qed (rule that)
  have "process_rdma_completion (tv_blocks e) [] ?w s = Inr ([], s')"
    using s' o(1) by (simp add: process_rdma_completion_def Let_def)
  then have "test_call e ?opc (t, s) = Inr (after_call t rs i, s')" using c(1) by simp
  then show ?thesis
    using c(2,4) process_rpc_open_serving [OF s' sv] test_goodD(3) [OF good i] by blast
qed

lemma test_call_commit:
  assumes good: "test_good e" and ok: "tester_ok e t" and sv: "serving (tv_blocks e) W bufs s"
    and full: "commit_list s \<noteq> []" "\<not> sint (atomic_read (batch s)) < sint SERVER_BATCH"
  shows "\<exists>i rs s'. test_call e (push_bit 28 RDMA_OPCODE_COMMIT) (t, s) = Inr (after_call t rs i, s')
    \<and> tester_ok e (after_call t rs i) \<and> serving (tv_blocks e) W bufs s' \<and> far s' = far s
    \<and> commit_list s' = [] \<and> multicast_rq s' = multicast_rq s @ commit_list s \<and> atomic_read (batch s') = 0"
proof -
  obtain i b rs where c: "test_call e commit_opcode (t, s) =
      rbind (process_rdma_completion (tv_blocks e) []
        \<lparr>wr_id = tv_rid e (te_calls t), imm_data = rpc_imm commit_opcode (of_nat b), wc_ok = True\<rparr> s)
        (\<lambda>(_, s'). Inr (after_call t rs i, s'))"
      "tester_ok e (after_call t rs i)" "(of_nat b :: u32) < 256"
    using test_call_eq [OF good ok] by blast
  let ?w = "\<lparr>wr_id = tv_rid e (te_calls t), imm_data = rpc_imm commit_opcode (of_nat b), wc_ok = True\<rparr>"
  note o = commit_fields [OF c(3)]
  have en: "enough_pages (imm_data ?w) s" using full(2) o(2) by (simp add: enough_pages_def)
  have sok: "server_ok (tv_blocks e) W bufs s" "all_copied s" using sv by (simp_all add: serving_def)
  obtain s' where s': "process_rpc_commit (tv_blocks e) [] ?w s = Inr ([], s')" "server_ok (tv_blocks e) W bufs s'"
      "commit_list s' = []" "multicast_rq s' = multicast_rq s @ commit_list s" "atomic_read (batch s') = 0"
      "far s' = far s"
    using process_rpc_commit_drains [OF sok full(1) en, of "[]"] by blast
  have "process_rdma_completion (tv_blocks e) [] ?w s = Inr ([], s')"
    using s'(1) o(1) by (simp add: process_rdma_completion_def Let_def opcode_defs)
  then have "test_call e commit_opcode (t, s) = Inr (after_call t rs i, s')" using c(1) by simp
  moreover have "serving (tv_blocks e) W bufs s'" using sv s'(2,3) by (simp add: serving_def all_copied_def)
  ultimately show ?thesis using c(2) s' by (auto simp: commit_opcode_def)
qed

lemma test_opens_good:
  assumes "test_good e" "tester_ok e t" "serving (tv_blocks e) W bufs s" "te_calls t = k" "k + n \<le> 25"
    and "blocks_known e k t"
  shows "\<exists>t' s'. test_opens e [k..<k + n] (t, s) = Inr (t', s') \<and> tester_ok e t' \<and> blocks_known e (k + n) t'
    \<and> serving (tv_blocks e) W bufs s' \<and> commit_list s' = commit_list s
    \<and> multicast_rq s' = multicast_rq s \<and> batch s' = batch s"
  using assms
proof (induction n arbitrary: k t s)
  case 0
  then show ?case by simp
next
  case (Suc n)
  have k: "te_calls t < 25" using Suc.prems(4,5) by simp
  obtain i rs s1 where c: "test_call e (push_bit 28 RDMA_OPCODE_OPEN OR open_offset k) (t, s)
        = Inr (after_call t rs i, s1)" "tester_ok e (after_call t rs i)"
      "remote_addr i = mmap_ret (tv_blocks e k)" "serving (tv_blocks e) W bufs s1"
      "commit_list s1 = commit_list s" "multicast_rq s1 = multicast_rq s" "batch s1 = batch s"
    using test_call_open [OF Suc.prems(1-3) k] Suc.prems(4) by auto
  let ?t = "(after_call t rs i)\<lparr>te_list := (te_list t)[k := i]\<rparr>"
  have l: "length (te_list t) = 30" using Suc.prems(2) by (simp add: tester_ok_def)
  have "tester_ok e ?t" using c(2) by (simp add: tester_ok_def)
  moreover have "te_calls ?t = Suc k" using Suc.prems(4) by simp
  moreover have "blocks_known e (Suc k) ?t"
    using Suc.prems(5,6) c(3) l by (auto simp: blocks_known_def nth_list_update less_Suc_eq)
  ultimately obtain t' s' where ih: "test_opens e [Suc k..<Suc k + n] (?t, s1) = Inr (t', s')" "tester_ok e t'"
      "blocks_known e (Suc k + n) t'" "serving (tv_blocks e) W bufs s'" "commit_list s' = commit_list s1"
      "multicast_rq s' = multicast_rq s1" "batch s' = batch s1"
    using Suc.IH [OF Suc.prems(1) _ c(4), of ?t "Suc k"] Suc.prems(5) by auto
  have "[k..<k + Suc n] = k # [Suc k..<Suc k + n]" by (simp add: upt_rec)
  then have "test_opens e [k..<k + Suc n] (t, s) = Inr (t', s')"
    using c(1) ih(1) l Suc.prems(5) by simp
  then show ?case using ih(2-7) c(5-7) by auto
qed

section \<open>Reading back\<close>

text \<open>Page \<open>j\<close> of the batch is at the server, and says its number.\<close>

definition written :: "tester \<Rightarrow> server \<Rightarrow> nat \<Rightarrow> bool" where
  "written t s j \<longleftrightarrow>
     te_offsetlist t ! j < 2 ^ 22 \<and> te_numlist t ! j = sint (te_offsetlist t ! j)
     \<and> (\<exists>p. far s (te_offsetlist t ! j) = Some p \<and> atoi (page_bytes p) = sint (te_offsetlist t ! j))"

lemma small_block:
  assumes "off < (2 ^ 22 :: u32)"
  shows "drop_bit 18 off AND 0xff = get_num_memblock off" "unat (get_num_memblock off) < 16" "off < 2 ^ 28"
proof -
  have b: "bit off n \<Longrightarrow> n < 22" for n using assms by (rule small_word_bits)
  show "drop_bit 18 off AND 0xff = get_num_memblock off"
    by (rule bit_word_eqI) (auto simp: get_num_memblock_def mask_words bit_simps dest: b)
  have "unat off < 2 ^ 22" using assms by (simp add: word_less_nat_alt)
  moreover have "unat (drop_bit 18 off) = unat off div 2 ^ 18" by (subst unat_drop_bit_eq) (rule drop_bit_eq_div)
  ultimately have "unat (drop_bit 18 off) < 16" by (simp add: less_mult_imp_div_less)
  moreover have "unat (get_num_memblock off) \<le> unat (drop_bit 18 off)"
    unfolding get_num_memblock_def using word_and_le2 [of "drop_bit 18 off" "0x3ff"]
    by (simp add: word_le_nat_alt and.commute)
  ultimately show "unat (get_num_memblock off) < 16" by simp
  show "off < 2 ^ 28" using assms by (simp add: word_less_nat_alt)
qed

lemma test_check_good:
  assumes "test_good e" "tester_ok e t" "blocks_known e 25 t" "serving (tv_blocks e) W bufs s"
    and "\<forall>ia \<in> set ias. written t s (ia mod TEST_BATCH)"
  shows "\<exists>t'. test_check e ias (t, s) = Inr (None, t', s) \<and> tester_ok e t' \<and> blocks_known e 25 t'
    \<and> te_batch t' = te_batch t \<and> te_count t' = te_count t + length ias
    \<and> te_send_count t' = te_send_count t"
  using assms
proof (induction ias arbitrary: t)
  case Nil
  then show ?case by simp
next
  case (Cons ia ias)
  let ?off = "te_offsetlist t ! (ia mod TEST_BATCH)"
  let ?nr = "unat (get_num_memblock ?off)" and ?a = "ucast (push_bit 12 (?off AND 0x3ffff)) :: u64"
  have w: "?off < 2 ^ 22" "te_numlist t ! (ia mod TEST_BATCH) = sint ?off" using Cons.prems(5) by (auto simp: written_def)
  obtain p where p: "far s ?off = Some p" "atoi (page_bytes p) = sint ?off"
    using Cons.prems(5) by (auto simp: written_def)
  note b = small_block [OF w(1)]
  have info: "?nr < length (te_list t)" "remote_addr (te_list t ! ?nr) = mmap_ret (tv_blocks e ?nr)"
    using b(2) Cons.prems(2,3) by (simp_all add: tester_ok_def blocks_known_def)
  have sok: "server_ok (tv_blocks e) W bufs s" using Cons.prems(4) by (simp add: serving_def)
  have page: "page_at (smem s) (remote_addr (te_list t ! ?nr) + ?a) = p"
    using remote_page [OF sok p(1) info(2)] by simp
  let ?r = "remote_addr (te_list t ! ?nr) + ?a"
  obtain st where r: "test_read e ?r (rkey (te_list t ! ?nr)) (t, s) = Inr (True, t\<lparr>te_rpc := (te_rpc t)\<lparr>r_done := st\<rparr>,
      te_reads := te_reads t + 1, te_scan := page_at (smem s) ?r\<rparr>, s)"
    using test_read_good [OF Cons.prems(1)] by blast
  let ?t = "t\<lparr>te_rpc := (te_rpc t)\<lparr>r_done := st\<rparr>, te_reads := te_reads t + 1, te_scan := p,
    te_count := te_count t + 1\<rparr>"
  have "tester_ok e ?t" "blocks_known e 25 ?t" using Cons.prems(2,3) by (simp_all add: tester_ok_def rpc_free_def blocks_known_def)
  moreover have "\<forall>ia \<in> set ias. written ?t s (ia mod TEST_BATCH)" using Cons.prems(5) by (simp add: written_def)
  ultimately obtain t' where t': "test_check e ias (?t, s) = Inr (None, t', s)" "tester_ok e t'" "blocks_known e 25 t'"
      "te_batch t' = te_batch t" "te_count t' = te_count t + 1 + length ias" "te_send_count t' = te_send_count t"
    using Cons.IH [OF Cons.prems(1) _ _ Cons.prems(4), of ?t] by auto
  have "test_check e (ia # ias) (t, s) = test_check e ias (?t, s)"
    using b(1) info(1) r page w(2) p(2) by (simp add: Let_def)
  then show ?case using t' by simp
qed

section \<open>A batch\<close>

text \<open>After \<open>i\<close> pages of a round: those since the last commit are counted, listed and written.\<close>

definition batch_ok :: "test_env \<Rightarrow> addr set \<Rightarrow> (addr \<Rightarrow> addr) \<Rightarrow> nat \<Rightarrow> tester \<Rightarrow> server \<Rightarrow> bool" where
  "batch_ok e W bufs i t s \<longleftrightarrow>
     tester_ok e t \<and> blocks_known e 25 t \<and> te_batch t = i \<and> te_send_count t = i - i mod TEST_BATCH
     \<and> serving (tv_blocks e) W bufs s \<and> atomic_read (batch s) = of_nat (i mod TEST_BATCH)
     \<and> length (commit_list s) = i mod TEST_BATCH
     \<and> TEST_BATCH \<le> length (multicast_rq s) + length (commit_list s)
     \<and> (\<forall>j < i mod TEST_BATCH. written t s j)"

text \<open>Printing a number into the next page and having the server take it in writes one more.\<close>

lemma written_next:
  assumes "\<forall>j < k. written t s j" "k < TEST_BATCH" "tester_ok e t" "off < 2 ^ 22"
    and "serving (tv_blocks e) W bufs s" "serve_page (tv_blocks e) off p s = Some s'"
    and "atoi (page_bytes p) = sint off"
    and "te_offsetlist t' = (te_offsetlist t)[k := off]" "te_numlist t' = (te_numlist t)[k := sint off]"
  shows "\<forall>j < Suc k. written t' s' j"
proof (intro allI impI)
  fix j
  assume j: "j < Suc k"
  have new: "far s' off = Some p" using far_memory.write_same [OF assms(5,6)] .
  show "written t' s' j"
  proof (cases "j = k")
    case True
    then show ?thesis using assms new by (simp add: written_def tester_ok_def)
  next
    case False
    then have "written t s j" using assms(1) j by simp
    then obtain q where q: "far s (te_offsetlist t ! j) = Some q" "atoi (page_bytes q) = sint (te_offsetlist t ! j)"
        "te_offsetlist t ! j < 2 ^ 22" "te_numlist t ! j = sint (te_offsetlist t ! j)"
      by (auto simp: written_def)
    have "\<exists>q. far s' (te_offsetlist t ! j) = Some q \<and> atoi (page_bytes q) = sint (te_offsetlist t ! j)"
      using new assms(7) q(1,2) far_memory.write_other [OF assms(5,6) _ q(1)]
      by (cases "te_offsetlist t ! j = off") auto
    then show ?thesis using False q(3,4) assms(8,9) by (simp add: written_def)
  qed
qed

lemma test_offset: "(rnd :: u32) AND 0x3fffff < 2 ^ 22"
  using word_and_le1 [of rnd "0x3fffff"] by (simp add: word_le_nat_alt word_less_nat_alt)

lemma atoi_lnum: "atoi (page_bytes (put_string (decimal (sint (off :: u32))) p)) = sint off"
proof (rule atoi_page)
  show "\<bar>sint off\<bar> < 10 ^ 10" using sint_range_size [of off] unfolding abs_less_iff by (simp add: word_size)
qed

lemma Suc_mod_batch: "Suc i mod TEST_BATCH = (if i mod TEST_BATCH = 511 then 0 else Suc (i mod TEST_BATCH))"
  by (simp add: TEST_BATCH_def mod_Suc)

lemma test_page_good:
  assumes good: "test_good e" and ok: "batch_ok e W bufs i t s" and cnt: "te_count t = c + te_send_count t"
  shows "\<exists>t' s'. test_page e rnd i (t, s) = Inr (None, t', s') \<and> batch_ok e W bufs (Suc i) t' s'
    \<and> te_count t' = c + te_send_count t'"
proof -
  let ?k = "i mod TEST_BATCH" and ?off = "rnd AND 0x3fffff"
  let ?p = "put_string (decimal (sint ?off)) (te_lnum t)"
  let ?t1 = "t\<lparr>te_numlist := (te_numlist t)[?k := sint ?off], te_offsetlist := (te_offsetlist t)[?k := ?off],
    te_lnum := ?p, te_batch := te_batch t + 1\<rparr>"
  have i: "tester_ok e t" "blocks_known e 25 t" "te_batch t = i" "te_send_count t = i - ?k"
    "serving (tv_blocks e) W bufs s" "atomic_read (batch s) = of_nat ?k" "length (commit_list s) = ?k"
    "TEST_BATCH \<le> length (multicast_rq s) + length (commit_list s)" "\<forall>j < ?k. written t s j"
    using ok unfolding batch_ok_def by blast+
  have k: "?k < TEST_BATCH" by (simp add: TEST_BATCH_def)
  have sok: "server_ok (tv_blocks e) W bufs s" "all_copied s" using i(5) by (simp_all add: serving_def)
  note b = small_block [OF test_offset [of rnd]]
  have "multicast_rq s \<noteq> []" using i(7,8) k by auto
  moreover have "unat (get_num_memblock ?off) < MAX_MEMBLOCK" "grants (tv_blocks e) (unat (get_num_memblock ?off))"
    using b(2) test_goodD(2) [OF good, of "unat (get_num_memblock ?off)"] by (simp_all add: MAX_MEMBLOCK_def)
  ultimately obtain s1 where s1: "serve_page (tv_blocks e) ?off ?p s = Some s1"
    using serve_page_some [OF sok(1) _ b(3)] by blast
  obtain st where sent: "test_send e (flow_header ?off) (?t1, s) = Inr (True,
      ?t1\<lparr>te_rpc := (te_rpc t)\<lparr>r_done := st\<rparr>, te_sends := te_sends t + 1\<rparr>, s1)"
    using test_send_good [OF good, of ?off ?t1 s s1] s1 by auto
  let ?t2 = "?t1\<lparr>te_rpc := (te_rpc t)\<lparr>r_done := st\<rparr>, te_sends := te_sends t + 1\<rparr>"
  obtain rw where q: "multicast_rq s = rw # multicast_rq s1" "commit_list s1 = rw # commit_list s"
    using serve_page_ok [OF s1 sok] by blast
  have sv1: "serving (tv_blocks e) W bufs s1" using far_memory.write_inv [OF i(5) s1] .
  have ok2: "tester_ok e ?t2" "blocks_known e 25 ?t2" "te_batch ?t2 = Suc i"
    using i(1-3) by (simp_all add: tester_ok_def rpc_free_def blocks_known_def)
  have wr: "\<forall>j < Suc ?k. written ?t2 s1 j"
    by (rule written_next [OF i(9) k i(1) test_offset i(5) s1 atoi_lnum]) simp_all
  have cb: "atomic_read (batch s1) = of_nat (Suc ?k)" using serve_page_counts [OF s1 sok(1)] i(6) by simp
  have page: "test_page e rnd i (t, s) =
      (if Suc i mod TEST_BATCH = 0 then
         rbind (test_call e (push_bit 28 RDMA_OPCODE_COMMIT) (?t2, s1)) (\<lambda>(t3, s3).
         rbind (test_check e [te_send_count t3..<te_batch t3] (t3, s3)) (\<lambda>(out, t4, s4).
         Inr (out, if out = None then t4\<lparr>te_send_count := te_batch t4\<rparr> else t4, s4)))
       else Inr (None, ?t2, s1))"
    using sent i(3) by (simp add: test_page_def Let_def flow_header_def)
  show ?thesis
  proof (cases "?k = 511")
    case False
    then have m: "Suc i mod TEST_BATCH = Suc ?k" by (simp add: Suc_mod_batch)
    have "test_page e rnd i (t, s) = Inr (None, ?t2, s1)" using page m by simp
    moreover have "batch_ok e W bufs (Suc i) ?t2 s1"
      using ok2 sv1 cb wr i(4,7,8) q unfolding batch_ok_def m by simp
    ultimately show ?thesis using cnt by auto
  next
    case True
    then have m: "Suc i mod TEST_BATCH = 0" by (simp add: Suc_mod_batch)
    have full: "commit_list s1 \<noteq> []" "\<not> sint (atomic_read (batch s1)) < sint SERVER_BATCH"
      using q cb True by (simp_all add: SERVER_BATCH_def)
    obtain x rs s2 where c: "test_call e (push_bit 28 RDMA_OPCODE_COMMIT) (?t2, s1) = Inr (after_call ?t2 rs x, s2)"
        "tester_ok e (after_call ?t2 rs x)" "serving (tv_blocks e) W bufs s2" "far s2 = far s1"
        "commit_list s2 = []" "multicast_rq s2 = multicast_rq s1 @ commit_list s1" "atomic_read (batch s2) = 0"
      using test_call_commit [OF good ok2(1) sv1 full] by blast
    let ?t3 = "after_call ?t2 rs x"
    have kn3: "blocks_known e 25 ?t3" using ok2(2) by (simp add: blocks_known_def)
    have w3: "\<forall>ia \<in> set [te_send_count ?t3..<te_batch ?t3]. written ?t3 s2 (ia mod TEST_BATCH)"
    proof
      fix ia
      have "ia mod TEST_BATCH < Suc ?k" using True by (simp add: TEST_BATCH_def less_Suc_eq_le)
      then show "written ?t3 s2 (ia mod TEST_BATCH)" using wr c(4) by (simp add: written_def)
    qed
    obtain t4 where t4: "test_check e [te_send_count ?t3..<te_batch ?t3] (?t3, s2) = Inr (None, t4, s2)"
        "tester_ok e t4" "blocks_known e 25 t4" "te_batch t4 = Suc i"
        "te_count t4 = te_count t + length [te_send_count ?t3..<te_batch ?t3]"
      using test_check_good [OF good c(2) kn3 c(3) w3] ok2(3) by auto
    have "test_page e rnd i (t, s) = Inr (None, t4\<lparr>te_send_count := te_batch t4\<rparr>, s2)"
      using page m c(1) t4(1) by simp
    moreover have "batch_ok e W bufs (Suc i) (t4\<lparr>te_send_count := te_batch t4\<rparr>) s2"
      using t4(2-4) c(3,5-7) i(7,8) q unfolding batch_ok_def m by (simp add: tester_ok_def blocks_known_def)
    moreover have "te_count (t4\<lparr>te_send_count := te_batch t4\<rparr>) = c + te_send_count (t4\<lparr>te_send_count := te_batch t4\<rparr>)"
      using t4(4,5) cnt i(3,4) mod_less_eq_dividend [of i TEST_BATCH] by simp
    ultimately show ?thesis by blast
  qed
qed

lemma test_pages_good:
  assumes "test_good e" "batch_ok e W bufs i t s" "te_count t = c + te_send_count t"
  shows "\<exists>t' s'. test_pages e rand [i..<i + n] (t, s) = Inr (None, t', s') \<and> batch_ok e W bufs (i + n) t' s'
    \<and> te_count t' = c + te_send_count t'"
  using assms(2,3)
proof (induction n arbitrary: i t s)
  case 0
  then show ?case by auto
next
  case (Suc n)
  obtain t1 s1 where p: "test_page e (rand (te_sends t)) i (t, s) = Inr (None, t1, s1)"
      "batch_ok e W bufs (Suc i) t1 s1" "te_count t1 = c + te_send_count t1"
    using test_page_good [OF assms(1) Suc.prems] by blast
  have "[i..<i + Suc n] = i # [Suc i..<Suc i + n]" by (simp add: upt_rec)
  then show ?case using Suc.IH [OF p(2,3)] p(1) by auto
qed

lemma test_rounds_good:
  assumes "test_good e" "batch_ok e W bufs 0 t s"
  shows "\<exists>t' s'. test_rounds e rand n (t, s) = Inr (None, t', s') \<and> batch_ok e W bufs 0 t' s'
    \<and> te_count t' = te_count t + n * 2 ^ 18"
  using assms(2)
proof (induction n arbitrary: t s)
  case 0
  then show ?case by auto
next
  case (Suc n)
  have "te_count t = te_count t + te_send_count t" using Suc.prems by (simp add: batch_ok_def)
  from test_pages_good [OF assms(1) Suc.prems this, of rand "2 ^ 18"]
  obtain t1 s1 where p: "test_pages e rand [0..<2 ^ 18] (t, s) = Inr (None, t1, s1)"
      "batch_ok e W bufs (2 ^ 18) t1 s1" "te_count t1 = te_count t + te_send_count t1"
    by auto
  let ?t = "t1\<lparr>te_batch := 0, te_send_count := 0\<rparr>"
  have m: "2 ^ 18 mod TEST_BATCH = 0" by (simp add: TEST_BATCH_def)
  have "batch_ok e W bufs 0 ?t s1"
    using p(2) m by (auto simp: batch_ok_def tester_ok_def blocks_known_def TEST_BATCH_def)
  moreover have "te_count ?t = te_count t + 2 ^ 18" using p(2,3) m by (simp add: batch_ok_def)
  ultimately show ?case using Suc.IH [of ?t s1] p(1) by auto
qed

section \<open>The test passes\<close>


text \<open>A server with its 4096 receives as posted, and the calls answered as such a server answers them.\<close>

definition full_works :: "nat \<Rightarrow> addr" where "full_works i = of_nat i"

definition full_bufs :: "addr \<Rightarrow> addr" where
  "full_bufs rw = lr_buffer (recv_at 0x10000000000 (UD_EXTRA + 0x1000) 0 (unat rw))"

definition full_server :: server where
  "full_server = (ex_server 0)\<lparr>multicast_rq := map full_works [0..<MCM_MAX_RECV_WR],
     works := (\<lambda>rw. (works (ex_server 0) rw)\<lparr>rw_buffer := full_bufs rw\<rparr>)\<rparr>"

definition full_call :: "nat \<Rightarrow> rdma_info_t rpc_env" where
  "full_call i = (ex_call (if i < 25 then open_opcode (open_offset i) else commit_opcode) i)
     \<lparr>e_rws := [77 \<mapsto> \<lparr>remote_addr = mmap_ret (ex_env i), rkey = 1\<rparr>]\<rparr>"

definition ex_tester :: tester where
  "ex_tester = \<lparr>te_rpc = \<lparr>r_binders = ex_binders, r_done = \<lambda>_. 0, r_sent = [], r_rq = []\<rparr>, te_lnum = \<lambda>_. 0,
     te_scan = \<lambda>_. 0, te_res = no_info, te_list = replicate 30 no_info, te_numlist = replicate 512 0,
     te_offsetlist = replicate 512 0, te_batch = 0, te_send_count = 0, te_count = 0, te_calls = 0,
     te_sends = 0, te_reads = 0\<rparr>"

definition ex_test :: test_env where
  "ex_test = (let done = (\<lambda>_. (True, [Poll_Wc \<lparr>wr_id = 9, imm_data = 0, wc_ok = True\<rparr>])) in
     \<lparr>tv_calls = full_call, tv_sends = done, tv_reads = done, tv_done = 9, tv_req = 0, tv_mr = 1,
       tv_lnum = 0x5000, tv_lmr = 2, tv_scan = 0x6000, tv_scan_mr = 3,
       tv_dest = \<lparr>md_ah = 1, md_remote_qpn = 2, md_remote_qkey = 3\<rparr>, tv_blocks = ex_env, tv_rid = (\<lambda>_. 0)\<rparr>)"

lemma full_works_inj: "inj_on full_works {..<MCM_MAX_RECV_WR}"
  by (auto simp: inj_on_def full_works_def MCM_MAX_RECV_WR_def word_of_nat_eq_iff take_bit_nat_eq_self)

lemma unat_full_works: "i < MCM_MAX_RECV_WR \<Longrightarrow> unat (full_works i) = i"
  by (simp add: full_works_def MCM_MAX_RECV_WR_def unat_of_nat)

lemma full_layout: "layout ex_env (full_works ` {..<MCM_MAX_RECV_WR}) full_bufs"
proof (rule layout_of_mmap)
  show "\<forall>n < MAX_MEMBLOCK. \<forall>m < MAX_MEMBLOCK. \<forall>x. n \<noteq> m \<longrightarrow> in_block (mmap_ret (ex_env n)) x \<longrightarrow>
      \<not> in_block (mmap_ret (ex_env m)) x"
    using ex_layout by (simp add: layout_def)
  show "\<forall>n < MAX_MEMBLOCK. \<forall>x. in_block (mmap_ret (ex_env n)) x \<longrightarrow> \<not> x - 0x10000000000 < MULTICAST_BUFFER_SIZE"
  proof (intro allI impI)
    fix n and x :: addr
    assume n: "n < MAX_MEMBLOCK" and x: "in_block (mmap_ret (ex_env n)) x"
    have "unat x div 0x40000000 \<le> 128" using in_block_index [OF n x] n by (simp add: MAX_MEMBLOCK_def)
    then have u: "unat x < 0x10000000000" by (simp add: div_le_mono) 
    have "unat (x - 0x10000000000) = 2 ^ 64 + unat x - 0x10000000000"
      using u by (simp add: unat_sub_if')
    moreover have "unat MULTICAST_BUFFER_SIZE = 1084227584"
      by (simp add: MULTICAST_BUFFER_SIZE_def UD_EXTRA_def)
    ultimately show "\<not> x - 0x10000000000 < MULTICAST_BUFFER_SIZE" using u by (simp add: word_less_nat_alt)
  qed
  show "\<forall>i < MCM_MAX_RECV_WR. full_bufs (full_works i) = lr_buffer (recv_at 0x10000000000 packet_size 0 i)"
    by (simp add: full_bufs_def unat_full_works)
qed

lemma full_serving: "serving ex_env (full_works ` {..<MCM_MAX_RECV_WR}) full_bufs full_server"
proof -
  have "distinct (map full_works [0..<MCM_MAX_RECV_WR])"
    using full_works_inj by (simp add: distinct_map atLeast0LessThan)
  moreover have "set (map full_works [0..<MCM_MAX_RECV_WR]) = full_works ` {..<MCM_MAX_RECV_WR}"
    by (simp add: atLeast0LessThan)
  ultimately show ?thesis
    using full_layout ex_server_ok [of 0]
    by (simp add: serving_def server_ok_def blocks_ok_def all_copied_def full_server_def ex_server_def)
qed

lemma full_answers: "answers full_call"
  unfolding answers_def
proof
  fix i
  let ?opc = "if i < 25 then open_opcode (open_offset i) else commit_opcode"
  let ?w = "\<lparr>wr_id = 77, imm_data = rpc_imm ?opc (of_nat (i mod 256)), wc_ok = True\<rparr>"
  have u: "unat (of_nat (i mod 256) :: u32) = i mod 256" by (simp add: unat_of_nat)
  then have b: "(of_nat (i mod 256) :: u32) < 256" by (simp add: word_less_nat_alt)
  have "wc_binder (imm_data ?w) = of_nat (i mod 256)"
    using open_offset_fields [of i] open_fields(3) [OF b, of "open_offset i"] commit_fields(3) [OF b]
    by (cases "i < 25") simp_all
  then have "unat (wc_binder (imm_data ?w)) = i mod NR_BINDERS" using u by (simp add: NR_BINDERS_def)
  then show "\<exists>r rs pre w info. e_draws (full_call i) = r # rs
      \<and> serves (full_call i) (r mod NR_BINDERS) pre w
      \<and> (\<forall>p \<in> set pre. p = Poll_Empty) \<and> unat (wc_binder (imm_data w)) = r mod NR_BINDERS
      \<and> e_rws (full_call i) (wr_id w) = Some info"
    using ex_call_serves [of ?opc i]
    by (intro exI [of _ "i mod 256"] exI [of _ "[]"] exI [of _ "[Poll_Empty]"] exI [of _ ?w]
        exI [of _ "\<lparr>remote_addr = mmap_ret (ex_env i), rkey = 1\<rparr>"])
      (simp add: full_call_def ex_call_def NR_BINDERS_def serves_def)
qed

lemma ex_test_good: "test_good ex_test"
proof -
  have "completes 9 [Poll_Wc \<lparr>wr_id = 9, imm_data = 0, wc_ok = True\<rparr>]"
    unfolding completes_def by (intro exI [of _ "[]"] exI) auto
  then show ?thesis
    using full_answers ex_grants
    by (auto simp: test_good_def ex_test_def Let_def full_call_def MAX_MEMBLOCK_def split: if_splits)
qed


end
