(* ===== verification/Self_Test_Sends.thy ===== *)
theory Self_Test_Sends
  imports Self_Test_Proofs
begin

text \<open>
  The three small tests of \<open>lib/test.c\<close>: ten messages of 64 bytes, each a random number in decimal,
  sent over the connection, to the group, or to the group as if they were pages. What the C library
  and the adapter return is in \<open>message_env\<close>; a message that is sent is put on \<open>ms_sent\<close>.
\<close>

unbundle bit_operations_syntax

section \<open>The tests\<close>

record message_env =
  me_lnum :: addr                          \<comment> \<open>what \<open>malloc\<close> returned, 0 if nothing\<close>
  me_lkey :: "u32 option"                  \<comment> \<open>the key of the registered region, if there is one\<close>
  me_sends :: "nat \<Rightarrow> bool \<times> poll list"
  me_done :: addr
  me_dest :: multicast_dest

record message_state =
  ms_lnum :: page                          \<comment> \<open>the first 64 bytes are \<open>*lnum\<close>\<close>
  ms_done :: done_flags
  ms_sent :: "(send_wr \<times> page) list"
  ms_freed :: bool                         \<comment> \<open>\<open>lnum\<close> deregistered and freed\<close>

fun test_messages ::
  "(bool \<Rightarrow> poll list \<Rightarrow> done_flags \<Rightarrow> u32 \<Rightarrow> sent result) \<Rightarrow> message_env \<Rightarrow> (nat \<Rightarrow> int) \<Rightarrow> nat list
   \<Rightarrow> message_state \<Rightarrow> message_state result" where
  "test_messages send e rand [] m = Inr (m\<lparr>ms_freed := True\<rparr>)"
| "test_messages send e rand (i # is) m =
     (if me_lnum e = 0 then Inl Null_Pointer
      else (case me_lkey e of
              None \<Rightarrow> Inl Null_Pointer
            | Some lkey \<Rightarrow>
                let m1 = m\<lparr>ms_lnum := put_string (decimal (rand i)) (ms_lnum m)\<rparr>;
                    (post_ok, polls) = me_sends e i
                in rbind (send post_ok polls (ms_done m1) lkey) (\<lambda>(wr, ok, _, st).
                     let m2 = m1\<lparr>ms_done := st, ms_sent := ms_sent m1 @ [(wr, ms_lnum m1)]\<rparr>
                     in if \<not> ok then Inr m2 else test_messages send e rand is m2)))"

definition test_rdma_send ::
  "message_env \<Rightarrow> (nat \<Rightarrow> int) \<Rightarrow> message_state \<Rightarrow> message_state result" where
  "test_rdma_send e rand m =
     (let header = push_bit 28 RDMA_OPCODE_CHECK in
      test_messages (\<lambda>post_ok polls st lkey. ib_rdma_send post_ok polls st (me_done e) lkey (me_lnum e)
        LIB_EACH_SIZE header False) e rand [0..<10] m)"

definition test_multicast_send ::
  "message_env \<Rightarrow> (nat \<Rightarrow> int) \<Rightarrow> message_state \<Rightarrow> message_state result" where
  "test_multicast_send e rand m =
     (let header = push_bit 28 MULTICAST_OPCODE_CHECK in
      test_messages (\<lambda>post_ok polls st lkey. ib_multicast_send post_ok polls st (me_done e) (me_dest e) lkey
        (me_lnum e) LIB_EACH_SIZE header) e rand [0..<10] m)"

definition test_multicast_send_flow ::
  "message_env \<Rightarrow> (nat \<Rightarrow> int) \<Rightarrow> message_state \<Rightarrow> message_state result" where
  "test_multicast_send_flow e rand m =
     (let header = push_bit 28 MULTICAST_OPCODE_FLOW OR push_bit 23 1 in
      test_messages (\<lambda>post_ok polls st lkey. ib_multicast_send post_ok polls st (me_done e) (me_dest e) lkey
        (me_lnum e) LIB_EACH_SIZE header) e rand [0..<10] m)"

section \<open>What is sent\<close>

text \<open>
  With a buffer, a region, and transfers that complete, every number is sent in its turn, in a request of
  64 bytes with the test's header, and the buffer is given back.
\<close>

definition messages_good :: "message_env \<Rightarrow> bool" where
  "messages_good e \<longleftrightarrow> me_lnum e \<noteq> 0 \<and> me_lkey e \<noteq> None
     \<and> (\<forall>n. fst (me_sends e n) \<and> completes (me_done e) (snd (me_sends e n)))"

definition message_of :: "u32 \<Rightarrow> int \<Rightarrow> send_wr \<times> page \<Rightarrow> bool" where
  "message_of header x sent = (case sent of (wr, p) \<Rightarrow>
     wr_imm wr = header \<and> sge_length wr = 64 \<and> (\<exists>q. p = put_string (decimal x) q))"

lemma test_messages_sent:
  assumes "messages_good e"
    and "\<And>polls st lkey. completes (me_done e) polls \<Longrightarrow>
      \<exists>wr polls' st'. send True polls st lkey = Inr (wr, True, polls', st') \<and> wr_imm wr = header \<and> sge_length wr = 64"
  shows "\<exists>m' new. test_messages send e rand is m = Inr m' \<and> ms_freed m' \<and> ms_sent m' = ms_sent m @ new
    \<and> list_all2 (message_of header) (map rand is) new"
proof (induction "is" arbitrary: m)
  case Nil
  then show ?case by simp
next
  case (Cons i "is")
  let ?p = "put_string (decimal (rand i)) (ms_lnum m)"
  obtain polls lkey where e: "me_sends e i = (True, polls)" "completes (me_done e) polls" "me_lkey e = Some lkey" "me_lnum e \<noteq> 0"
    using assms(1) by (auto simp: messages_good_def prod_eq_iff)
  obtain wr polls' st' where s: "send True polls (ms_done m) lkey = Inr (wr, True, polls', st')" "wr_imm wr = header"
      "sge_length wr = 64" using assms(2) [OF e(2)] by blast
  obtain m' new where m: "test_messages send e rand is (m\<lparr>ms_lnum := ?p, ms_done := st', ms_sent := ms_sent m @ [(wr, ?p)]\<rparr>) = Inr m'"
      "ms_freed m'" "ms_sent m' = (ms_sent m @ [(wr, ?p)]) @ new" "list_all2 (message_of header) (map rand is) new"
    using Cons.IH [of "m\<lparr>ms_lnum := ?p, ms_done := st', ms_sent := ms_sent m @ [(wr, ?p)]\<rparr>"] by auto
  moreover have "message_of header (rand i) (wr, ?p)" using s(2,3) by (auto simp: message_of_def)
  ultimately show ?case using e s by (intro exI [of _ m'] exI [of _ "(wr, ?p) # new"]) (auto simp: Let_def)
qed

lemma message_sends:
  assumes "completes d polls"
  shows "\<exists>wr polls' st'. ib_multicast_send True polls st d dest lkey a LIB_EACH_SIZE imm = Inr (wr, True, polls', st')
      \<and> wr_imm wr = imm \<and> sge_length wr = 64"
    and "\<exists>wr polls' st'. ib_rdma_send True polls st d lkey a LIB_EACH_SIZE imm False = Inr (wr, True, polls', st')
      \<and> wr_imm wr = imm \<and> sge_length wr = 64"
proof -
  let ?w = "blank_wr\<lparr>wr_done := d, sge_addr := a, sge_length := ucast LIB_EACH_SIZE, sge_lkey := lkey,
    wr_op := WR_SEND_WITH_IMM, wr_signaled := True, wr_imm := imm\<rparr>"
  show "\<exists>wr polls' st'. ib_multicast_send True polls st d dest lkey a LIB_EACH_SIZE imm = Inr (wr, True, polls', st')
      \<and> wr_imm wr = imm \<and> sge_length wr = 64"
    using post_and_wait_completes [of "?w\<lparr>wr_ah := md_ah dest, wr_remote_qpn := md_remote_qpn dest,
      wr_remote_qkey := md_remote_qkey dest\<rparr>" polls st] assms
    by (auto simp: ib_multicast_send_def raw_ib_multi_send_def LIB_EACH_SIZE_def)
  show "\<exists>wr polls' st'. ib_rdma_send True polls st d lkey a LIB_EACH_SIZE imm False = Inr (wr, True, polls', st')
      \<and> wr_imm wr = imm \<and> sge_length wr = 64"
    using post_and_wait_completes [of ?w polls st] assms
    by (auto simp: ib_rdma_send_def raw_ib_send_def Let_def LIB_EACH_SIZE_def)
qed

lemma small_tests_send:
  assumes "messages_good e"
  shows "\<exists>m' new. test_rdma_send e rand m = Inr m' \<and> ms_freed m' \<and> ms_sent m' = ms_sent m @ new
      \<and> list_all2 (message_of (push_bit 28 RDMA_OPCODE_CHECK)) (map rand [0..<10]) new"
    and "\<exists>m' new. test_multicast_send e rand m = Inr m' \<and> ms_freed m' \<and> ms_sent m' = ms_sent m @ new
      \<and> list_all2 (message_of (push_bit 28 MULTICAST_OPCODE_CHECK)) (map rand [0..<10]) new"
    and "\<exists>m' new. test_multicast_send_flow e rand m = Inr m' \<and> ms_freed m' \<and> ms_sent m' = ms_sent m @ new
      \<and> list_all2 (message_of (flow_header 0x800000)) (map rand [0..<10]) new"
proof -
  have h: "push_bit 28 MULTICAST_OPCODE_FLOW OR push_bit 23 1 = flow_header 0x800000"
    by (simp add: flow_header_def MULTICAST_OPCODE_FLOW_def)
  show "\<exists>m' new. test_rdma_send e rand m = Inr m' \<and> ms_freed m' \<and> ms_sent m' = ms_sent m @ new
      \<and> list_all2 (message_of (push_bit 28 RDMA_OPCODE_CHECK)) (map rand [0..<10]) new"
    unfolding test_rdma_send_def Let_def by (rule test_messages_sent [OF assms]) (erule message_sends(2))
  show "\<exists>m' new. test_multicast_send e rand m = Inr m' \<and> ms_freed m' \<and> ms_sent m' = ms_sent m @ new
      \<and> list_all2 (message_of (push_bit 28 MULTICAST_OPCODE_CHECK)) (map rand [0..<10]) new"
    unfolding test_multicast_send_def Let_def by (rule test_messages_sent [OF assms]) (erule message_sends(1))
  show "\<exists>m' new. test_multicast_send_flow e rand m = Inr m' \<and> ms_freed m' \<and> ms_sent m' = ms_sent m @ new
      \<and> list_all2 (message_of (flow_header 0x800000)) (map rand [0..<10]) new"
    unfolding test_multicast_send_flow_def Let_def h by (rule test_messages_sent [OF assms]) (erule message_sends(1))
qed

text \<open>A send that fails ends a test with its buffer still registered and allocated.\<close>

lemma failed_message_leaks:
  assumes "me_lnum e \<noteq> 0" "me_lkey e = Some k" "me_sends e 0 = (True, Poll_Wc w # polls)" "\<not> wc_ok w"
  shows "\<exists>m'. test_rdma_send e rand m = Inr m' \<and> ms_freed m' = ms_freed m"
    and "\<exists>m'. test_multicast_send e rand m = Inr m' \<and> ms_freed m' = ms_freed m"
  using assms
  by (auto simp: test_rdma_send_def test_multicast_send_def ib_rdma_send_def ib_multicast_send_def raw_ib_send_def
      raw_ib_multi_send_def post_and_wait_def Let_def upt_rec [of 0])

section \<open>What the server makes of it\<close>

text \<open>A packet of 64 bytes arrives: behind them the receive's buffer holds what it held before.\<close>

definition short_packet :: "page \<Rightarrow> server \<Rightarrow> page" where
  "short_packet p s =
     (\<lambda>i. if unat i < 64 then p i
          else page_at (smem s) (rw_buffer (works s (hd (multicast_rq s))) + UD_EXTRA) i)"

fun all_arrive :: "(nat \<Rightarrow> block_env) \<Rightarrow> (send_wr \<times> page) list \<Rightarrow> server \<Rightarrow> server result" where
  "all_arrive env [] s = Inr s"
| "all_arrive env ((wr, p) # sent) s =
     rbind (packet_arrives env (wr_imm wr) (short_packet p s) s) (all_arrive env sent)"

lemma short_packet_put:
  "length cs < 64 \<Longrightarrow> short_packet (put_string cs q) s = put_string cs (short_packet q s)"
  by (rule ext) (simp add: short_packet_def put_string_def)

lemma length_decimal:
  assumes "\<bar>x\<bar> < 10 ^ 10"
  shows "length (decimal x) < 64"
proof -
  have "nat \<bar>x\<bar> < 10 ^ 10" using assms by simp
  from length_digits [OF this] show ?thesis by (auto simp: decimal_def abs_if split: if_splits)
qed

lemma all_arrive_stores:
  assumes "list_all2 (message_of (flow_header off)) xs sent" "serving env W bufs s" "length sent \<le> length (multicast_rq s)"
    and "off < 2 ^ 28" "unat (get_num_memblock off) < MAX_MEMBLOCK" "grants env (unat (get_num_memblock off))"
    and "\<forall>x \<in> set xs. \<bar>x\<bar> < 10 ^ 10"
  shows "\<exists>s'. all_arrive env sent s = Inr s' \<and> serving env W bufs s'
    \<and> (xs \<noteq> [] \<longrightarrow> (\<exists>q. far s' off = Some (put_string (decimal (last xs)) q)))"
  using assms(1-3,7)
proof (induction xs sent arbitrary: s rule: list_all2_induct)
  case Nil
  then show ?case by simp
next
  case (Cons x xs m sent)
  obtain wr p q where m: "m = (wr, p)" "wr_imm wr = flow_header off" "p = put_string (decimal x) q"
    using Cons.hyps(1) by (cases m) (auto simp: message_of_def)
  have len: "length (decimal x) < 64" using Cons.prems(3) by (intro length_decimal) simp
  have ok: "server_ok env W bufs s" "multicast_rq s \<noteq> []" using Cons.prems(1,2) by (auto simp: serving_def)
  obtain s1 where s1: "serve_page env off (short_packet p s) s = Some s1" "length (multicast_rq s) = length (multicast_rq s1) + 1"
    using serve_page_some [OF ok assms(4-6), of "short_packet p s"] by blast
  have a: "packet_arrives env (wr_imm wr) (short_packet p s) s = Inr s1"
    using s1(1) m(2) by (auto simp: serve_page_def packet_arrives_def split: if_splits option.splits sum.splits)
  have k: "serving env W bufs s1" "far s1 off = Some (put_string (decimal x) (short_packet q s))"
    using far_memory.write_inv [OF Cons.prems(1) s1(1)] far_memory.write_same [OF Cons.prems(1) s1(1)] m(3)
      short_packet_put [OF len] by simp_all
  obtain s' where s': "all_arrive env sent s1 = Inr s'" "serving env W bufs s'"
      "xs \<noteq> [] \<longrightarrow> (\<exists>q. far s' off = Some (put_string (decimal (last xs)) q))"
    using Cons.IH [OF k(1)] Cons.prems(2,3) s1(2) by auto
  show ?case
  proof (cases "xs = []")
    case True
    then have "sent = []" using Cons.hyps(2) by simp
    then show ?thesis using s' k a True m(1) by auto
  next
    case False
    then show ?thesis using s' a m(1) by auto
  qed
qed

text \<open>
  The flow test sends its ten numbers under one page number, the first page of block 32: the server
  ends up with the last of them there, in decimal, and the test has given its buffer back.
\<close>

lemma flow_test_keeps_last:
  assumes "messages_good e" "ms_sent m = []" "serving env W bufs s" "10 \<le> length (multicast_rq s)" "grants env 32"
    and "\<forall>i. \<bar>rand i\<bar> < 2 ^ 31"
  shows "\<exists>m' s' p. test_multicast_send_flow e rand m = Inr m' \<and> ms_freed m' \<and> length (ms_sent m') = 10
    \<and> all_arrive env (ms_sent m') s = Inr s' \<and> serving env W bufs s'
    \<and> far s' 0x800000 = Some p \<and> atoi (page_bytes p) = rand 9"
proof -
  obtain m' where m: "test_multicast_send_flow e rand m = Inr m'" "ms_freed m'"
      "list_all2 (message_of (flow_header 0x800000)) (map rand [0..<10]) (ms_sent m')"
    using small_tests_send(3) [OF assms(1), of rand m] assms(2) by auto
  have len: "length (ms_sent m') = 10" using list_all2_lengthD [OF m(3)] by simp
  have small: "\<bar>rand i\<bar> < 10 ^ 10" for i using spec [OF assms(6), of i] by simp
  have b: "get_num_memblock 0x800000 = 32" by (simp add: get_num_memblock_def)
  have last: "last (map rand [0..<10]) = rand 9" by (simp add: upt_rec eval_nat_numeral)
  obtain s' q where s': "all_arrive env (ms_sent m') s = Inr s'" "serving env W bufs s'"
      "far s' 0x800000 = Some (put_string (decimal (rand 9)) q)"
    using all_arrive_stores [OF m(3) assms(3)] assms(4,5) len small last by (auto simp: b MAX_MEMBLOCK_def)
  then show ?thesis using m(1,2) len atoi_page [OF small] by blast
qed

end
