(* ===== verification/Driver_Threads.thy ===== *)
theory Driver_Threads
  imports Instance
begin

text \<open>
  Many processors store at once. \<open>maruswap_multicast_write\<close> (\<open>drive/sib.c\<close>) holds the driver's spin
  lock while it opens a block, commits a full batch and counts its page, but sends and stages the page
  after it has released it; clearing the staging buffer and resetting its count are two
  operations of a commit, of which only the first takes the lock of the xarray. Here a write is the
  sequence of its atomic steps, and the steps of any number of writers interleave, with loads
  among them. A writer that waits for the lock makes steps that change nothing.

  A remote call is one step: it is made with the lock held, and what it touches no one else does.
\<close>

unbundle bit_operations_syntax

section \<open>A write, step by step\<close>

text \<open>Where a writer is; the \<open>u64\<close> is the DMA address of its page, the \<open>int\<close> what a commit returned.\<close>

datatype writer =
    W_Start | W_Mapped u64 | W_Locked u64 | W_Opened u64 | W_Clear u64 int | W_Reset u64 int
  | W_Ready u64 | W_Send u64 | W_Stage | W_Wait | W_Done int

text \<open>The requests of a commit and the new batch; clearing and resetting come later.\<close>

definition commit_begin :: "call_env \<Rightarrow> driver \<Rightarrow> (int \<times> driver) result" where
  "commit_begin env d =
     rbind (commit_each (ib_rpc_commit_unlocked env) (ctrl_list d) 0 d) (\<lambda>(ret, d1).
     deref (get_main_rdma_ctrl d1) (\<lambda>_. Inr (ret, d1\<lparr>drv_batch := atomic_set (drv_batch d1) 0\<rparr>)))"

text \<open>Posting the packet; the result is what \<open>ib_post_send\<close> returned.\<close>

definition post_flow :: "io_env \<Rightarrow> addr \<Rightarrow> u32 \<Rightarrow> driver \<Rightarrow> int \<times> driver" where
  "post_flow io dma header d =
     (let wr0 = blank_wr\<lparr>wr_done := io_done io, sge_addr := dma, sge_length := 0x1000,
                 sge_lkey := mc_lkey d, wr_op := WR_SEND_WITH_IMM, wr_ah := md_ah (mc_dest d),
                 wr_remote_qkey := md_remote_qkey (mc_dest d),
                 wr_remote_qpn := md_remote_qpn (mc_dest d), wr_signaled := True\<rparr>;
          wr = (if header \<noteq> 0 then wr0\<lparr>wr_imm := header\<rparr> else wr0);
          d0 = d\<lparr>drv_done := (drv_done d)(io_done io := 0)\<rparr>
      in if io_post io \<noteq> 0 then (io_post io, d0) else (0, d0\<lparr>mc_sent := mc_sent d0 @ [wr]\<rparr>))"

fun w_step :: "call_env \<Rightarrow> io_env \<Rightarrow> addr \<Rightarrow> u32 \<Rightarrow> writer \<Rightarrow> driver \<Rightarrow> (writer \<times> driver) result" where
  "w_step env io page offset W_Start d =
     deref (get_main_rdma_ctrl d) (\<lambda>_.
       let (ret, dma) = get_req_for_page (io_dma io)
       in Inr (if ret \<noteq> 0 then W_Done ret else W_Mapped dma, d))"
| "w_step env io page offset (W_Mapped dma) d =
     Inr (if drv_spin d \<noteq> 0 then (W_Mapped dma, d) else (W_Locked dma, drv_lock d))"
| "w_step env io page offset (W_Locked dma) d =
     rbind (check_rdma_info (unat (get_num_memblock offset)) d) (\<lambda>check.
     rbind (if check then ib_rpc_open_all env offset d else Inr (0, d)) (\<lambda>(ret, d1).
     Inr (if ret \<noteq> 0 then (W_Done 1, drv_unlock d1) else (W_Opened dma, d1))))"
| "w_step env io page offset (W_Opened dma) d =
     (if sint (atomic_read (drv_batch d)) \<ge> CONFIG_BATCH
      then rbind (commit_begin env d) (\<lambda>(ret, d1). Inr (W_Clear dma ret, d1))
      else Inr (W_Ready dma, d))"
| "w_step env io page offset (W_Clear dma ret) d = Inr (W_Reset dma ret, clear_stage d)"
| "w_step env io page offset (W_Reset dma ret) d =
     (let d1 = d\<lparr>stage_buffer := stage_buffer_count_reset (stage_buffer d)\<rparr>
      in Inr (if ret \<noteq> 0 then (W_Done 1, drv_unlock d1) else (W_Ready dma, d1)))"
| "w_step env io page offset (W_Ready dma) d =
     Inr (W_Send dma, drv_unlock (d\<lparr>drv_batch := atomic_inc (drv_batch d)\<rparr>))"
| "w_step env io page offset (W_Send dma) d =
     (let (ret, d1) = post_flow io dma (flow_header offset) d
      in Inr (if ret \<noteq> 0 then W_Done ret else W_Stage, d1))"
| "w_step env io page offset W_Stage d =
     rbind (stage_buffer_store (io_xa_ok io) page offset (stage_buffer d) (kmem d)) (\<lambda>(sb, m).
     Inr (W_Wait, d\<lparr>stage_buffer := sb, kmem := m\<rparr>))"
| "w_step env io page offset W_Wait d =
     rbind (send_loop (io_done io) (io_polls io) (drv_done d)) (\<lambda>(ok, _, st).
     Inr (W_Done (if ok then 0 else - EINVAL), d\<lparr>drv_done := st\<rparr>))"
| "w_step env io page offset (W_Done ret) d = Inr (W_Done ret, d)"

fun w_run :: "nat \<Rightarrow> call_env \<Rightarrow> io_env \<Rightarrow> addr \<Rightarrow> u32 \<Rightarrow> writer \<Rightarrow> driver \<Rightarrow> (writer \<times> driver) result" where
  "w_run 0 env io page offset p d = Inr (p, d)"
| "w_run (Suc n) env io page offset p d =
     rbind (w_step env io page offset p d) (\<lambda>(p', d'). w_run n env io page offset p' d')"

section \<open>A writer on its own\<close>

lemma w_run_num:
  "w_run (n + numeral k) env io page offset p d =
     rbind (w_step env io page offset p d) (\<lambda>(p', d'). w_run (n + pred_numeral k) env io page offset p' d')"
  by (simp add: numeral_eq_Suc)

lemma w_run_done: "w_run n env io page offset (W_Done ret) d = Inr (W_Done ret, d)"
  by (induction n) simp_all

definition finish :: "(int \<times> driver) result \<Rightarrow> (writer \<times> driver) result" where
  "finish r = rbind r (\<lambda>(ret, d). Inr (W_Done ret, d))"

lemma rbind_assoc: "rbind (rbind m f) g = rbind m (\<lambda>x. rbind (f x) g)"
  by (cases m) simp_all

lemma rbind_deref: "rbind (deref p f) g = deref p (\<lambda>n. rbind (f n) g)"
  by (cases p) (simp_all add: deref_def)

lemma rbind_if: "rbind (if b then m else m') f = (if b then rbind m f else rbind m' f)"
  by simp

lemma finish_simps [simp]:
  "finish (Inl e) = Inl e" "finish (Inr x) = Inr (W_Done (fst x), snd x)"
  "finish (rbind m f) = rbind m (\<lambda>x. finish (f x))"
  "finish (deref p g) = deref p (\<lambda>n. finish (g n))"
  "finish (if b then r else r') = (if b then finish r else finish r')"
  by (simp_all add: finish_def rbind_assoc rbind_deref case_prod_unfold)

text \<open>From each of its steps on, a writer that is alone does the rest of the write.\<close>

lemmas run_simps = rbind_assoc rbind_deref rbind_if case_prod_unfold Let_def w_run_done

lemma run_send:
  "w_run (n + 3) env io page offset (W_Send dma) d = finish (drv_multicast_send io dma (flow_header offset) page offset d)"
  by (cases "io_post io = 0") (simp_all add: w_run_num run_simps
      drv_multicast_send_def post_flow_def flow_header_nonzero cong: if_cong)

lemma run_ready:
  "w_run (n + 4) env io page offset (W_Ready dma) d =
     finish (drv_multicast_send io dma (flow_header offset) page offset
       (drv_unlock (d\<lparr>drv_batch := atomic_inc (drv_batch d)\<rparr>)))"
  using run_send [of n env io page offset dma] by (simp add: eval_nat_numeral)

definition after_commit :: "io_env \<Rightarrow> u64 \<Rightarrow> addr \<Rightarrow> u32 \<Rightarrow> int \<times> driver \<Rightarrow> (int \<times> driver) result" where
  "after_commit io dma page offset = (\<lambda>(ret, d).
     if ret \<noteq> 0 then Inr (1, drv_unlock d)
     else drv_multicast_send io dma (flow_header offset) page offset
            (drv_unlock (d\<lparr>drv_batch := atomic_inc (drv_batch d)\<rparr>)))"

lemma run_clear:
  "w_run (n + 6) env io page offset (W_Clear dma ret) d =
     finish (after_commit io dma page offset (ret,
       (clear_stage d)\<lparr>stage_buffer := stage_buffer_count_reset (stage_buffer (clear_stage d))\<rparr>))"
proof -
  have "w_run (n + 6) env io page offset (W_Clear dma ret) d =
      rbind (w_step env io page offset (W_Reset dma ret) (clear_stage d))
        (\<lambda>(p, d). w_run (n + 4) env io page offset p d)"
    by (simp add: w_run_num [where p = "W_Clear dma ret"] w_run_num [where p = "W_Reset dma ret"])
  then show ?thesis by (simp add: after_commit_def run_ready w_run_done Let_def)
qed

lemma run_opened:
  "w_run (n + 7) env io page offset (W_Opened dma) d =
     finish (rbind (if sint (atomic_read (drv_batch d)) \<ge> CONFIG_BATCH then ib_rpc_commit_all env d else Inr (0, d))
       (after_commit io dma page offset))"
proof -
  have "w_run (n + 7) env io page offset (W_Opened dma) d =
      rbind (w_step env io page offset (W_Opened dma) d) (\<lambda>(p, d). w_run (n + 6) env io page offset p d)"
    by (simp add: w_run_num [where p = "W_Opened dma"])
  moreover have "w_run (n + 6) env io page offset (W_Ready dma) d = finish (after_commit io dma page offset (0, d))"
    using run_ready [of "n + 2" env io page offset dma d] by (simp add: after_commit_def add.commute)
  ultimately show ?thesis
    by (simp add: ib_rpc_commit_all_def restart_batch_def commit_begin_def run_simps run_clear)
qed



section \<open>Many writers\<close>

text \<open>
  \<open>th_at t\<close> says which page writer \<open>t\<close> stores under which number, and where it is. \<open>th_last\<close> is not in
  the code: the pages staged since the staging buffer was last cleared, each as it was then.
\<close>

record threads =
  th_driver :: driver
  th_at :: "nat \<Rightarrow> addr \<times> u32 \<times> writer"
  th_last :: "u32 \<Rightarrow> page option"

definition at_step :: "threads \<Rightarrow> nat \<Rightarrow> writer" where
  "at_step s t = snd (snd (th_at s t))"

fun noted :: "page \<Rightarrow> u32 \<Rightarrow> writer \<Rightarrow> (u32 \<Rightarrow> page option) \<Rightarrow> u32 \<Rightarrow> page option" where
  "noted p offset W_Stage pages = pages(offset \<mapsto> p)"
| "noted p offset (W_Clear _ _) pages = Map.empty"
| "noted p offset _ pages = pages"

text \<open>A page frame is no part of the staging buffer.\<close>

definition frame :: "addr \<Rightarrow> stage_buffer_t \<Rightarrow> bool" where
  "frame page sb \<longleftrightarrow> (\<forall>j. 0 \<le> j \<longrightarrow> j < CONFIG_BATCH \<longrightarrow> apart page (slot (sb_buffer sb) j))"

text \<open>
  One step: a writer's next, a writer that is through taking up another page, or a load. What
  the adapter, the servers and the kernel answer is arbitrary, but that the xarray gets the memory
  it asks for.
\<close>

inductive threads_step :: "threads \<Rightarrow> threads \<Rightarrow> bool" where
  th_write: "th_at s t = (page, offset, p) \<Longrightarrow> io_xa_ok io \<Longrightarrow>
     w_step env io page offset p (th_driver s) = Inr (p', d') \<Longrightarrow>
     threads_step s (s\<lparr>th_driver := d', th_at := (th_at s)(t := (page, offset, p')),
       th_last := noted (page_at (kmem (th_driver s)) page) offset p (th_last s)\<rparr>)"
| th_new: "at_step s t = W_Done ret \<Longrightarrow>
     threads_step s (s\<lparr>th_at := (th_at s)(t := (page, offset, W_Start))\<rparr>)"
| th_load: "maruswap_rdma_read io page offset (th_driver s) = Inr (ret, d') \<Longrightarrow>
     frame page (stage_buffer (th_driver s)) \<Longrightarrow> threads_step s (s\<lparr>th_driver := d'\<rparr>)"

text \<open>Runs from a driver at rest, in which every state fulfils \<open>ok\<close>.\<close>

inductive threads_reach :: "(threads \<Rightarrow> bool) \<Rightarrow> addr \<Rightarrow> threads \<Rightarrow> bool" for ok base where
  th_rest: "driver_ok base (th_driver s) \<Longrightarrow> drv_spin (th_driver s) = 0 \<Longrightarrow>
     \<forall>t. \<exists>ret. at_step s t = W_Done ret \<Longrightarrow>
     th_last s = staged (stage_buffer (th_driver s)) (kmem (th_driver s)) \<Longrightarrow> threads_reach ok base s"
| th_then: "threads_reach ok base s \<Longrightarrow> threads_step s s' \<Longrightarrow> ok s' \<Longrightarrow> threads_reach ok base s'"

definition ex_threads :: "u32 \<Rightarrow> threads" where
  "ex_threads k = \<lparr>th_driver = ex_driver k, th_at = (\<lambda>_. (0, 0, W_Done 0)), th_last = Map.empty\<rparr>"

lemma ex_threads_rest:
  assumes "uint k \<le> CONFIG_BATCH"
  shows "threads_reach ok ex_base (ex_threads k)"
proof (rule th_rest)
  show "driver_ok ex_base (th_driver (ex_threads k))" using ex_driver_ok [OF assms] by (simp add: ex_threads_def)
qed (simp_all add: ex_threads_def at_step_def, simp_all add: ex_driver_def ex_stage_def staged_def xa_load_def fun_eq_iff)

section \<open>What a step changes\<close>

fun crit :: "writer \<Rightarrow> bool" where
  "crit (W_Locked _) = True" | "crit (W_Opened _) = True" | "crit (W_Clear _ _) = True"
| "crit (W_Reset _ _) = True" | "crit (W_Ready _) = True" | "crit _ = False"

fun clearing :: "writer \<Rightarrow> bool" where
  "clearing (W_Clear _ _) = True" | "clearing (W_Reset _ _) = True" | "clearing _ = False"

text \<open>Counted, but not staged yet.\<close>

fun pending :: "writer \<Rightarrow> bool" where
  "pending (W_Send _) = True" | "pending W_Stage = True" | "pending _ = False"

text \<open>What the batch counter is where a writer is.\<close>

fun batch_at :: "writer \<Rightarrow> u32 \<Rightarrow> bool" where
  "batch_at (W_Ready _) b \<longleftrightarrow> uint b < CONFIG_BATCH"
| "batch_at (W_Clear _ _) b \<longleftrightarrow> b = 0"
| "batch_at (W_Reset _ _) b \<longleftrightarrow> b = 0"
| "batch_at _ b \<longleftrightarrow> True"

lemma commit_begin_keeps:
  assumes "commit_begin env d = Inr (ret, d')"
  shows "drv_spin d' = drv_spin d \<and> stage_buffer d' = stage_buffer d \<and> kmem d' = kmem d
    \<and> atomic_read (drv_batch d') = 0"
proof -
  obtain d1 where d1: "commit_each (ib_rpc_commit_unlocked env) (ctrl_list d) 0 d = Inr (ret, d1)"
      "d' = d1\<lparr>drv_batch := atomic_set (drv_batch d1) 0\<rparr>"
    using assms by (auto simp: commit_begin_def rbind_Inr_iff deref_Inr_iff)
  then show ?thesis
    using commit_each_frame [OF commit_unlocked_frame(1) d1(1)] by (simp add: same_core_def atomic_defs)
qed

lemma post_flow_keeps [simp]:
  "drv_spin (snd (post_flow io dma header d)) = drv_spin d"
  "drv_batch (snd (post_flow io dma header d)) = drv_batch d"
  "stage_buffer (snd (post_flow io dma header d)) = stage_buffer d"
  "kmem (snd (post_flow io dma header d)) = kmem d"
  by (simp_all add: post_flow_def Let_def)

lemma clear_stage_keeps [simp]:
  "drv_spin (clear_stage d) = drv_spin d" "drv_batch (clear_stage d) = drv_batch d" "kmem (clear_stage d) = kmem d"
  "stage_buffer (clear_stage d) = clear_stage_buffer_addr (stage_buffer d)"
  by (simp_all add: clear_stage_def)

lemmas w_step_iffs = deref_Inr_iff case_prod_unfold Let_def rbind_Inr_iff same_core_def

text \<open>The lock is taken only when it is free, and given back.\<close>

lemma w_step_lock:
  assumes "w_step env io page offset p d = Inr (p', d')"
  shows "drv_spin d' = drv_spin d + of_bool (crit p') - of_bool (crit p) \<and> (crit p' \<and> \<not> crit p \<longrightarrow> drv_spin d = 0)"
  using assms
  by (cases p) (auto simp: w_step_iffs split: if_splits dest!: open_all_frame commit_begin_keeps)

lemma count_up: "uint (w :: u32) < 1024 \<Longrightarrow> uint (w + 1) = uint w + 1"
  by (simp add: uint_word_ariths)

lemma w_step_batch:
  assumes "w_step env io page offset p d = Inr (p', d')" "uint (atomic_read (drv_batch d)) \<le> CONFIG_BATCH"
    and "batch_at p (atomic_read (drv_batch d))"
  shows "uint (atomic_read (drv_batch d')) \<le> CONFIG_BATCH \<and> batch_at p' (atomic_read (drv_batch d'))
    \<and> (\<not> crit p \<longrightarrow> drv_batch d' = drv_batch d)"
proof -
  have b: "sint (atomic_read (drv_batch d)) = uint (atomic_read (drv_batch d))"
    using assms(2) by (rule batch_sint)
  show ?thesis
    using assms b
    by (cases p) (auto simp: w_step_iffs count_up CONFIG_BATCH_def split: if_splits
        dest!: open_all_frame commit_begin_keeps)
qed

text \<open>Only staging, clearing and resetting change the staging buffer, and only staging writes memory.\<close>

lemma w_step_stage:
  assumes "w_step env io page offset p d = Inr (p', d')"
  shows "p = W_Stage \<Longrightarrow> p' = W_Wait
      \<and> stage_buffer_store (io_xa_ok io) page offset (stage_buffer d) (kmem d) = Inr (stage_buffer d', kmem d')"
    and "p \<noteq> W_Stage \<Longrightarrow> kmem d' = kmem d \<and> stage_buffer d' =
      (case p of W_Clear _ _ \<Rightarrow> clear_stage_buffer_addr (stage_buffer d)
       | W_Reset _ _ \<Rightarrow> stage_buffer_count_reset (stage_buffer d) | _ \<Rightarrow> stage_buffer d)"
proof -
  show "p = W_Stage \<Longrightarrow> p' = W_Wait
      \<and> stage_buffer_store (io_xa_ok io) page offset (stage_buffer d) (kmem d) = Inr (stage_buffer d', kmem d')"
    using assms by (auto simp: w_step_iffs)
  show "p \<noteq> W_Stage \<Longrightarrow> kmem d' = kmem d \<and> stage_buffer d' =
      (case p of W_Clear _ _ \<Rightarrow> clear_stage_buffer_addr (stage_buffer d)
       | W_Reset _ _ \<Rightarrow> stage_buffer_count_reset (stage_buffer d) | _ \<Rightarrow> stage_buffer d)"
    using assms
    by (cases p) (auto simp: w_step_iffs split: if_splits dest!: open_all_frame commit_begin_keeps)
qed

text \<open>How a writer moves on.\<close>

lemma w_step_moves:
  assumes "w_step env io page offset p d = Inr (p', d')"
  shows "pending p' \<longleftrightarrow> (\<exists>dma. p = W_Ready dma) \<or> (\<exists>dma. p = W_Send dma) \<and> p' = W_Stage"
    and "clearing p' \<Longrightarrow> crit p"
    and "\<exists>dma ret. p' = W_Reset dma ret \<Longrightarrow> \<exists>dma ret. p = W_Clear dma ret"
    and "\<exists>dma ret. p = W_Clear dma ret \<Longrightarrow> \<exists>dma ret. p' = W_Reset dma ret"
    and "\<exists>dma ret. p = W_Reset dma ret \<Longrightarrow> \<not> clearing p'"
  using assms by (cases p; auto simp: w_step_iffs split: if_splits)+

section \<open>What no interleaving breaks\<close>

text \<open>Every entry names a slot of the buffer, and the indices stay in range.\<close>

definition stage_within :: "addr \<Rightarrow> stage_buffer_t \<Rightarrow> bool" where
  "stage_within base sb \<longleftrightarrow> stage_base base \<and> sb_buffer sb = base
     \<and> 0 \<le> sb_index sb \<and> sb_index sb < CONFIG_BATCH \<and> 0 \<le> sb_count sb \<and> sb_count sb \<le> CONFIG_BATCH
     \<and> distinct (map fst (sb_check_list sb))
     \<and> (\<forall>(off, p) \<in> set (sb_check_list sb). \<exists>j. 0 \<le> j \<and> j < CONFIG_BATCH \<and> p = slot base j)"

lemma stage_ok_within: "stage_ok base sb \<Longrightarrow> stage_within base sb"
  unfolding stage_ok_def stage_within_def using recent_range by fast

lemma stage_within_store:
  assumes "stage_within base sb" "stage_buffer_store True page off sb m = Inr (sb', m')"
  shows "stage_within base sb'"
proof (cases "stage_buffer_full sb")
  case True
  have "stage_within base (sb\<lparr>sb_check_list := xa_erase (sb_check_list sb) off\<rparr>)"
    using assms(1) unfolding stage_within_def
    by (auto simp: set_xa_erase) (simp add: xa_erase_def distinct_delete)
  then show ?thesis using assms True by (auto simp: stage_buffer_store_def split: if_splits)
next
  case False
  have nn: "slot base (sb_index sb) \<noteq> NULL" and d: "distinct (map fst (sb_check_list sb))"
    and i: "0 \<le> sb_index sb" "sb_index sb < CONFIG_BATCH" "sb_buffer sb = base" "base \<noteq> NULL"
    using assms(1) by (simp_all add: stage_within_def stage_base_def)
  let ?xa = "xa_store True (sb_check_list sb) off (slot base (sb_index sb))"
  have "sb' = sb\<lparr>sb_index := (sb_index sb + 1) mod CONFIG_BATCH, sb_check_list := ?xa, sb_count := sb_count sb + 1\<rparr>"
    using assms(2) False i by (simp add: stage_buffer_store_def stage_buffer_count_add_def Let_def)
  moreover have "distinct (map fst ?xa)" using d nn by (simp add: xa_store_def distinct_update)
  moreover have "\<forall>(off, p) \<in> set ?xa. \<exists>j. 0 \<le> j \<and> j < CONFIG_BATCH \<and> p = slot base j"
    using assms(1) i(1,2) unfolding set_xa_store [OF d nn] stage_within_def by auto
  ultimately show ?thesis
    using assms(1) False unfolding stage_within_def by (simp add: stage_buffer_full_def CONFIG_BATCH_def)
qed

lemma stage_within_clear: "stage_within base sb \<Longrightarrow> clear_stage_buffer_addr sb = sb\<lparr>sb_check_list := []\<rparr>"
  by (rule clear_stage_buffer_addr_eq) (fastforce simp: stage_within_def stage_base_def)

text \<open>At most one holds the lock, and the lock says so.\<close>

definition lock_ok :: "int \<Rightarrow> (nat \<Rightarrow> bool) \<Rightarrow> bool" where
  "lock_ok n holds \<longleftrightarrow> n = 0 \<and> (\<forall>t. \<not> holds t) \<or> n = 1 \<and> (\<exists>t. \<forall>u. holds u \<longleftrightarrow> u = t)"

lemma lock_ok_step:
  assumes "lock_ok n holds" "n' = n + of_bool b - of_bool (holds t)" "b \<and> \<not> holds t \<longrightarrow> n = 0"
  shows "lock_ok n' (holds(t := b))"
  using assms by (cases b; cases "holds t") (auto simp: lock_ok_def)

definition threads_ok :: "addr \<Rightarrow> threads \<Rightarrow> bool" where
  "threads_ok base s \<longleftrightarrow>
     lock_ok (drv_spin (th_driver s)) (\<lambda>t. crit (at_step s t))
     \<and> uint (atomic_read (drv_batch (th_driver s))) \<le> CONFIG_BATCH
     \<and> (\<forall>t. batch_at (at_step s t) (atomic_read (drv_batch (th_driver s))))
     \<and> stage_within base (stage_buffer (th_driver s))"

lemma batch_at_free: "\<not> crit p \<Longrightarrow> batch_at p b"
  by (cases p) simp_all

lemma w_step_within:
  assumes "w_step env io page offset p d = Inr (p', d')" "io_xa_ok io" "stage_within base (stage_buffer d)"
  shows "stage_within base (stage_buffer d')"
proof (cases "p = W_Stage")
  case True
  have "stage_buffer_store True page offset (stage_buffer d) (kmem d) = Inr (stage_buffer d', kmem d')"
    using w_step_stage(1) [OF assms(1) True] assms(2) by simp
  with assms(3) show ?thesis by (rule stage_within_store)
next
  case False
  have "stage_within base (clear_stage_buffer_addr (stage_buffer d))"
    "stage_within base (stage_buffer_count_reset (stage_buffer d))"
    using assms(3) by (simp_all add: stage_within_clear [OF assms(3)] stage_within_def stage_buffer_count_reset_def
        CONFIG_BATCH_def)
  then show ?thesis
    using w_step_stage(2) [OF assms(1) False] assms(3) by (cases p) simp_all
qed

lemma at_step_simps [simp]:
  "at_step (s\<lparr>th_driver := d, th_at := (th_at s)(t := (page, offset, p)), th_last := l\<rparr>) u = (if u = t then p else at_step s u)"
  "at_step (s\<lparr>th_at := (th_at s)(t := (page, offset, p))\<rparr>) u = (if u = t then p else at_step s u)"
  "at_step (s\<lparr>th_driver := d\<rparr>) u = at_step s u"
  by (simp_all add: at_step_def)

lemma threads_step_ok:
  assumes "threads_step s s'" "threads_ok base s"
  shows "threads_ok base s'"
  using assms(1)
proof cases
  case (th_write t page offset p io env p' d')
  have p: "at_step s t = p" using th_write(2) by (simp add: at_step_def)
  have ok: "uint (atomic_read (drv_batch (th_driver s))) \<le> CONFIG_BATCH" "batch_at p (atomic_read (drv_batch (th_driver s)))"
    "stage_within base (stage_buffer (th_driver s))" "\<And>u. batch_at (at_step s u) (atomic_read (drv_batch (th_driver s)))"
    using assms(2) p by (auto simp: threads_ok_def)
  note b = w_step_batch [OF th_write(4) ok(1,2)] and l = w_step_lock [OF th_write(4)]
  note st = w_step_within [OF th_write(4,3) ok(3)]
  have "batch_at (at_step s u) (atomic_read (drv_batch d'))" if "u \<noteq> t" for u
  proof (cases "crit p")
    case True
    then have "\<not> crit (at_step s u)" using assms(2) p that by (auto simp: threads_ok_def lock_ok_def)
    then show ?thesis by (rule batch_at_free)
  next
    case False
    then show ?thesis using b ok(4) [of u] by simp
  qed
  moreover have "lock_ok (drv_spin d') ((\<lambda>t. crit (at_step s t))(t := crit p'))"
    using assms(2) l by (intro lock_ok_step [of "drv_spin (th_driver s)"]) (auto simp: threads_ok_def p)
  moreover have "(\<lambda>u. crit (at_step s' u)) = (\<lambda>t. crit (at_step s t))(t := crit p')"
    by (auto simp: th_write(1))
  ultimately show ?thesis
    using b st unfolding threads_ok_def by (simp add: th_write(1))
next
  case (th_new t ret page offset)
  have "(\<lambda>u. crit (at_step s' u)) = (\<lambda>u. crit (at_step s u))"
    using th_new(2) by (auto simp: th_new(1))
  then show ?thesis using assms(2) unfolding threads_ok_def by (simp add: th_new(1))
next
  case (th_load io page offset ret d')
  then show ?thesis using assms(2) read_keeps [OF th_load(2)] unfolding threads_ok_def by simp
qed

lemma threads_reach_ok: "threads_reach ok base s \<Longrightarrow> threads_ok base s"
proof (induction rule: threads_reach.induct)
  case (th_rest s)
  have "\<not> crit (at_step s t)" "batch_at (at_step s t) b" for t b
    using spec [OF th_rest(3), of t] by auto
  then show ?case using th_rest(1,2) by (auto simp: threads_ok_def driver_ok_def stage_ok_within lock_ok_def)
next
  case (th_then s s')
  then show ?case using threads_step_ok by blast
qed

section \<open>When no page is staged late\<close>

text \<open>No writer stands between counting and staging its page while another empties the buffer.\<close>

definition prompt :: "threads \<Rightarrow> bool" where
  "prompt s \<longleftrightarrow> (\<forall>t u. clearing (at_step s t) \<longrightarrow> \<not> pending (at_step s u))"

definition waiting :: "threads \<Rightarrow> nat set" where
  "waiting s = {t. pending (at_step s t)}"

definition prompt_ok :: "addr \<Rightarrow> threads \<Rightarrow> bool" where
  "prompt_ok base s \<longleftrightarrow> threads_ok base s \<and> finite (waiting s) \<and> stage_ok base (stage_buffer (th_driver s))
     \<and> staged (stage_buffer (th_driver s)) (kmem (th_driver s)) = th_last s
     \<and> (\<forall>t dma ret. at_step s t = W_Reset dma ret \<longrightarrow> sb_check_list (stage_buffer (th_driver s)) = [])
     \<and> ((\<exists>t. clearing (at_step s t))
        \<or> sb_count (stage_buffer (th_driver s)) + int (card (waiting s)) \<le> uint (atomic_read (drv_batch (th_driver s))))"

lemma w_step_count:
  assumes "w_step env io page offset p d = Inr (p', d')" "batch_at p (atomic_read (drv_batch d))"
  shows "clearing p' \<or> uint (atomic_read (drv_batch d')) = uint (atomic_read (drv_batch d)) + of_bool (\<exists>dma. p = W_Ready dma)"
  using assms
  by (cases p) (auto simp: w_step_iffs count_up CONFIG_BATCH_def split: if_splits dest!: open_all_frame)

lemma waiting_step:
  "waiting (s\<lparr>th_driver := d, th_at := (th_at s)(t := (page, offset, p)), th_last := l\<rparr>)
     = (if pending p then insert t (waiting s) else waiting s - {t})"
  by (auto simp: waiting_def)

lemma card_waiting:
  assumes "finite W" "w = (if b then insert t W else W - {t})" "b \<longrightarrow> c \<or> t \<in> W"
  shows "finite w \<and> int (card w) \<le> int (card W) + of_bool c"
  using assms by (auto simp: card_insert_if insert_absorb card_Diff_singleton_if intro: order_trans)

text \<open>Only staging and clearing change what is staged.\<close>

lemma staged_reset [simp]: "staged (stage_buffer_count_reset sb) m = staged sb m"
  by (simp add: staged_def stage_buffer_count_reset_def fun_eq_iff)

lemma count_reset [simp]: "sb_count (stage_buffer_count_reset sb) = 0"
  by (simp add: stage_buffer_count_reset_def)

lemma w_step_prompt:
  assumes "w_step env io page offset p d = Inr (p', d')" "io_xa_ok io" "stage_ok base (stage_buffer d)"
    and "p = W_Stage \<Longrightarrow> sb_count (stage_buffer d) < CONFIG_BATCH"
    and "\<And>dma ret. p = W_Reset dma ret \<Longrightarrow> sb_check_list (stage_buffer d) = []"
  shows "stage_ok base (stage_buffer d')"
    and "staged (stage_buffer d') (kmem d')
      = noted (page_at (kmem d) page) offset p (staged (stage_buffer d) (kmem d))"
    and "sb_count (stage_buffer d') = (if p = W_Stage then sb_count (stage_buffer d) + 1
      else if \<exists>dma ret. p = W_Reset dma ret then 0 else sb_count (stage_buffer d))"
    and "(\<exists>dma ret. p = W_Clear dma ret) \<Longrightarrow> sb_check_list (stage_buffer d') = []"
proof -
  note c = clear_stage_buffer_addr_ok [OF assms(3)]
  have r: "stage_ok base (stage_buffer_count_reset (stage_buffer d))" if "p = W_Reset dma ret" for dma ret
    using assms(3) assms(5) [OF that] by (rule stage_buffer_count_reset_ok)
  have "stage_ok base (stage_buffer d') \<and> staged (stage_buffer d') (kmem d')
        = noted (page_at (kmem d) page) offset p (staged (stage_buffer d) (kmem d))
      \<and> sb_count (stage_buffer d') = (if p = W_Stage then sb_count (stage_buffer d) + 1
          else if \<exists>dma ret. p = W_Reset dma ret then 0 else sb_count (stage_buffer d))
      \<and> ((\<exists>dma ret. p = W_Clear dma ret) \<longrightarrow> sb_check_list (stage_buffer d') = [])"
  proof (cases "p = W_Stage")
    case True
    have "\<not> stage_buffer_full (stage_buffer d)" using assms(4) [OF True] by (simp add: stage_buffer_full_def)
    from stage_buffer_store_ok [OF assms(3) this, of page offset "kmem d"]
    show ?thesis using w_step_stage(1) [OF assms(1) True] assms(2) True by auto
  next
    case False
    show ?thesis
      using w_step_stage(2) [OF assms(1) False] False c r assms(3)
      by (cases p) simp_all
  qed
  then show "stage_ok base (stage_buffer d')"
    "staged (stage_buffer d') (kmem d') = noted (page_at (kmem d) page) offset p (staged (stage_buffer d) (kmem d))"
    "sb_count (stage_buffer d') = (if p = W_Stage then sb_count (stage_buffer d) + 1
      else if \<exists>dma ret. p = W_Reset dma ret then 0 else sb_count (stage_buffer d))"
    "(\<exists>dma ret. p = W_Clear dma ret) \<Longrightarrow> sb_check_list (stage_buffer d') = []" by blast+
qed

lemma threads_step_prompt:
  assumes "threads_step s s'" "prompt_ok base s" "prompt s"
  shows "prompt_ok base s'"
  using assms(1)
proof cases
  case (th_write t page offset p io env p' d')
  have p: "at_step s t = p" using th_write(2) by (simp add: at_step_def)
  have ok: "threads_ok base s" "finite (waiting s)" "stage_ok base (stage_buffer (th_driver s))"
    "staged (stage_buffer (th_driver s)) (kmem (th_driver s)) = th_last s"
    "batch_at p (atomic_read (drv_batch (th_driver s)))"
    using assms(2) p by (auto simp: prompt_ok_def threads_ok_def)
  have alone: "\<not> clearing (at_step s u)" if "pending p \<or> (\<exists>dma. p = W_Ready dma)" for u
  proof
    assume c: "clearing (at_step s u)"
    then have "crit (at_step s u)" by (cases "at_step s u") simp_all
    then have "u = t" if "crit p" using ok(1) p that by (auto simp: threads_ok_def lock_ok_def)
    then show False using that assms(3) c p unfolding prompt_def by auto
  qed
  have le: "sb_count (stage_buffer (th_driver s)) + int (card (waiting s)) \<le> uint (atomic_read (drv_batch (th_driver s)))"
    if "\<And>u. \<not> clearing (at_step s u)"
    using assms(2) that by (auto simp: prompt_ok_def)
  have room: "sb_count (stage_buffer (th_driver s)) < CONFIG_BATCH" if st: "p = W_Stage"
  proof -
    have "t \<in> waiting s" using p st by (simp add: waiting_def)
    then have "0 < card (waiting s)" using ok(2) card_gt_0_iff by blast
    then show ?thesis using le alone ok(1) st by (auto simp: threads_ok_def)
  qed
  have res: "sb_check_list (stage_buffer (th_driver s)) = []" if "p = W_Reset dma ret" for dma ret
    using assms(2) p that by (auto simp: prompt_ok_def)
  note w = w_step_prompt [OF th_write(4,3) ok(3) room res]
  note mv = w_step_moves [OF th_write(4)]
  have fin: "finite (waiting s')" using ok(2) by (simp add: th_write(1) waiting_step)
  have reset: "sb_check_list (stage_buffer d') = []" if u: "at_step s' u = W_Reset dma ret" for u dma ret
  proof (cases "u = t")
    case True
    then show ?thesis using u mv(3) w(4) by (auto simp: th_write(1))
  next
    case False
    then have a: "at_step s u = W_Reset dma ret" using u by (simp add: th_write(1))
    then have "crit (at_step s u)" by simp
    then have "\<not> crit p" using ok(1) p False by (auto simp: threads_ok_def lock_ok_def)
    then have "p \<noteq> W_Stage \<Longrightarrow> stage_buffer d' = stage_buffer (th_driver s)"
      using w_step_stage(2) [OF th_write(4)] by (cases p) simp_all
    moreover have "p \<noteq> W_Stage" using assms(3) a p unfolding prompt_def by (metis clearing.simps(2) pending.simps(2))
    ultimately show ?thesis using assms(2) a by (auto simp: prompt_ok_def)
  qed
  have "(\<exists>u. clearing (at_step s' u))
    \<or> sb_count (stage_buffer d') + int (card (waiting s')) \<le> uint (atomic_read (drv_batch d'))"
  proof (cases "clearing p' \<or> (\<exists>u. u \<noteq> t \<and> clearing (at_step s u))")
    case True
    then show ?thesis by (auto simp: th_write(1))
  next
    case False
    note count = w_step_count [OF th_write(4) ok(5)]
    have W: "waiting s' = (if pending p' then insert t (waiting s) else waiting s - {t})"
      by (simp add: th_write(1) waiting_step)
    have tw: "t \<in> waiting s \<longleftrightarrow> pending p" using p by (simp add: waiting_def)
    show ?thesis
    proof (cases "clearing p")
      case True
      then obtain dma ret where r: "p = W_Reset dma ret" using False mv(4) by (cases p) auto
      have "waiting s = {}" using assms(3) p True unfolding prompt_def waiting_def by auto
      then show ?thesis using W mv(1) w(3) r by simp
    next
      case nc: False
      then have b: "sb_count (stage_buffer (th_driver s)) + int (card (waiting s))
          \<le> uint (atomic_read (drv_batch (th_driver s)))"
        using le False p by metis
      have "p \<noteq> W_Reset dma ret" for dma ret using nc by auto
      then have c: "sb_count (stage_buffer d') = sb_count (stage_buffer (th_driver s)) + of_bool (p = W_Stage)"
        using w(3) by simp
      have "int (card (waiting s')) + of_bool (p = W_Stage) \<le> int (card (waiting s)) + of_bool (\<exists>dma. p = W_Ready dma)"
      proof (cases "p = W_Stage")
        case True
        then have "card (waiting s) = Suc (card (waiting s'))"
          using W tw mv(1) ok(2) card.remove [of "waiting s" t] by simp
        then show ?thesis using True by simp
      next
        case ns: False
        then show ?thesis using card_waiting [OF ok(2) W, of "\<exists>dma. p = W_Ready dma"] mv(1) tw by auto
      qed
      then show ?thesis using b c count False by auto
    qed
  qed
  then show ?thesis
    using threads_step_ok [OF assms(1) ok(1)] fin w(1,2) ok(4) reset
    unfolding prompt_ok_def by (simp add: th_write(1))
next
  case (th_new t ret page offset)
  have "waiting s' = waiting s" "\<And>u. clearing (at_step s' u) = clearing (at_step s u)"
    using th_new(2) by (auto simp: th_new(1) waiting_def)
  then show ?thesis
    using assms(2) threads_step_ok [OF assms(1)] unfolding prompt_ok_def by (auto simp: th_new(1))
next
  case (th_load io page offset ret d')
  have k: "staged (stage_buffer (th_driver s)) (kmem d') = staged (stage_buffer (th_driver s)) (kmem (th_driver s))"
  proof (rule staged_cong)
    show "stage_ok base (stage_buffer (th_driver s))" using assms(2) by (simp add: prompt_ok_def)
    then have b: "sb_buffer (stage_buffer (th_driver s)) = base" by (simp add: stage_ok_def)
    fix j assume j: "0 \<le> j" "j < CONFIG_BATCH"
    show "page_at (kmem d') (slot base j) = page_at (kmem (th_driver s)) (slot base j)"
      using read_keeps [OF th_load(2)] th_load(3) j b by (auto simp: frame_def page_at_memcpy_apart)
  qed
  have "waiting s' = waiting s" by (simp add: th_load(1) waiting_def)
  then show ?thesis
    using assms(2) threads_step_ok [OF assms(1)] read_keeps [OF th_load(2)] k
    unfolding prompt_ok_def by (auto simp: th_load(1))
qed

lemma threads_reach_prompt: "threads_reach prompt base s \<Longrightarrow> prompt s \<and> prompt_ok base s"
proof (induction rule: threads_reach.induct)
  case (th_rest s)
  have d: "\<not> crit (at_step s t)" "\<not> clearing (at_step s t)" "\<not> pending (at_step s t)" "at_step s t \<noteq> W_Reset dma ret"
    for t dma ret
    using spec [OF th_rest(3), of t] by auto
  then have "threads_ok base s"
    using threads_reach.th_rest [OF th_rest, of prompt] threads_reach_ok by blast
  then show ?case
    using th_rest(1,4) d by (auto simp: prompt_ok_def prompt_def waiting_def driver_ok_def)
next
  case (th_then s s')
  then show ?case using threads_step_prompt by blast
qed

end
