(* ===== verification/Driver_Races.thy ===== *)
theory Driver_Races
  imports Driver_Threads
begin

text \<open>
  A page staged late: a writer that has counted its page but not staged it yet when another commits, and
  stages it between that commit's clearing of the staging buffer and the resetting of its count. Its
  entry survives into the next batch, but its slot is free for that batch to fill: the 1024th
  page of it lands there, and a load of the first page's number copies out the other page.
\<close>

section \<open>Running one writer\<close>

type_synonym progress = "writer \<times> driver \<times> (u32 \<Rightarrow> page option)"

fun w_go :: "nat \<Rightarrow> call_env \<Rightarrow> io_env \<Rightarrow> addr \<Rightarrow> u32 \<Rightarrow> progress \<Rightarrow> progress result" where
  "w_go 0 env io page offset x = Inr x"
| "w_go (Suc n) env io page offset (p, d, l) =
     rbind (w_step env io page offset p d) (\<lambda>(p', d').
       w_go n env io page offset (p', d', noted (page_at (kmem d) page) offset p l))"

lemma w_go_steps:
  "w_go n env io page offset (p, th_driver s, th_last s) = Inr (p', d', l') \<Longrightarrow> io_xa_ok io \<Longrightarrow>
   th_at s t = (page, offset, p) \<Longrightarrow>
   threads_step\<^sup>*\<^sup>* s (s\<lparr>th_driver := d', th_at := (th_at s)(t := (page, offset, p')), th_last := l'\<rparr>)"
proof (induction n arbitrary: s p)
  case 0
  then have "s\<lparr>th_driver := d', th_at := (th_at s)(t := (page, offset, p')), th_last := l'\<rparr> = s"
    by (auto simp: fun_upd_idem)
  then show ?case by (simp only: rtranclp.rtrancl_refl)
next
  case (Suc n)
  obtain p1 d1 where st: "w_step env io page offset p (th_driver s) = Inr (p1, d1)"
    and rest: "w_go n env io page offset (p1, d1, noted (page_at (kmem (th_driver s)) page) offset p (th_last s)) = Inr (p', d', l')"
    using Suc.prems(1) by (auto simp: rbind_Inr_iff)
  let ?s = "s\<lparr>th_driver := d1, th_at := (th_at s)(t := (page, offset, p1)),
      th_last := noted (page_at (kmem (th_driver s)) page) offset p (th_last s)\<rparr>"
  have "threads_step s ?s" by (rule th_write [OF Suc.prems(3,2) st])
  moreover have "threads_step\<^sup>*\<^sup>* ?s (s\<lparr>th_driver := d', th_at := (th_at s)(t := (page, offset, p')), th_last := l'\<rparr>)"
    using Suc.IH [of p1 ?s] rest Suc.prems(2) by (simp del: fun_upd_apply add: fun_upd_same)
  ultimately show ?case by (rule converse_rtranclp_into_rtranclp)
qed

lemma w_go_add:
  "w_go (m + n) env io page offset x = rbind (w_go m env io page offset x) (w_go n env io page offset)"
proof (induction m arbitrary: x)
  case (Suc m)
  obtain p d l where x: "x = (p, d, l)" by (cases x)
  show ?case by (cases "w_step env io page offset p d") (auto simp: x Suc.IH)
qed simp

text \<open>What the parts of a write that only count, call and send leave alone.\<close>

definition alike :: "driver \<Rightarrow> driver \<Rightarrow> bool" where
  "alike d d' \<longleftrightarrow> main_ctrl d' = main_ctrl d \<and> ctrl_list d' = ctrl_list d \<and> same_infos d d'"

lemma alike_refl: "alike d d" and alike_trans: "alike d d' \<Longrightarrow> alike d' d'' \<Longrightarrow> alike d d''"
  by (simp_all add: alike_def same_infos_def)

lemma alike_open: "alike d d' \<Longrightarrow> block_open nr d' = block_open nr d"
  by (simp add: alike_def block_open_def same_infos_def)

text \<open>With room in the batch a writer gets as far as its packet being posted.\<close>

lemma go_count:
  assumes "main_ctrl d = Ctrl mn" "drv_spin d = 0" "block_open (unat (get_num_memblock offset)) d"
    and "uint (atomic_read (drv_batch d)) < CONFIG_BATCH" "io_good io dma"
  shows "\<exists>d'. w_go 6 env io page offset (W_Start, d, l) = Inr (W_Stage, d', l) \<and> alike d d' \<and> drv_spin d' = 0
    \<and> uint (atomic_read (drv_batch d')) = uint (atomic_read (drv_batch d)) + 1
    \<and> stage_buffer d' = stage_buffer d \<and> kmem d' = kmem d \<and> drv_binders d' = drv_binders d"
proof -
  have "\<not> CONFIG_BATCH \<le> sint (atomic_read (drv_batch d))"
    using assms(4) batch_sint [of "atomic_read (drv_batch d)"] by simp
  then show ?thesis
    using assms check_rdma_info_open [OF assms(3)]
    by (simp add: eval_nat_numeral deref_def get_main_rdma_ctrl_def io_good_def get_req_for_page_def Let_def
        post_flow_def alike_def same_infos_def CONFIG_BATCH_def count_up)
qed

text \<open>With a full batch and servers that answer, up to the point where the staging buffer is to be cleared.\<close>

lemma go_commit:
  assumes "main_ctrl d = Ctrl mn" "drv_spin d = 0" "block_open (unat (get_num_memblock offset)) d"
    and "uint (atomic_read (drv_batch d)) = CONFIG_BATCH" "io_dma io = Some dma" "all_free d" "answers env"
  shows "\<exists>d'. w_go 4 env io page offset (W_Start, d, l) = Inr (W_Clear dma 0, d', l) \<and> alike d d' \<and> drv_spin d' = 1
    \<and> atomic_read (drv_batch d') = 0 \<and> stage_buffer d' = stage_buffer d \<and> kmem d' = kmem d"
proof -
  have b: "CONFIG_BATCH \<le> sint (atomic_read (drv_batch d))"
    using assms(4) batch_sint [of "atomic_read (drv_batch d)"] by simp
  have "all_free (drv_lock d)" using assms(6) by (simp add: all_free_def)
  then obtain d1 where d1: "commit_each (ib_rpc_commit_unlocked env) (ctrl_list (drv_lock d)) 0 (drv_lock d) = Inr (0, d1)"
    using commit_each_answers [OF _ assms(7), of "drv_lock d" commit_opcode]
    by (auto simp: ib_rpc_commit_unlocked_def [abs_def])
  have k1: "same_core (drv_lock d) d1" using commit_each_frame [OF commit_unlocked_frame(1) d1] .
  note k = k1 commit_each_infos [OF d1]
  then have "commit_begin env (drv_lock d) = Inr (0, d1\<lparr>drv_batch := atomic_set (drv_batch d1) 0\<rparr>)"
    using d1 assms(1) by (simp add: commit_begin_def deref_def get_main_rdma_ctrl_def same_core_def)
  then show ?thesis
    using assms(1,2,5) b check_rdma_info_open [OF assms(3)] k
    by (simp add: eval_nat_numeral deref_def get_main_rdma_ctrl_def get_req_for_page_def Let_def
        alike_def same_infos_def same_core_def atomic_defs)
qed

lemma send_loop_any:
  assumes "io_good io dma"
  shows "\<exists>ps st'. send_loop (io_done io) (io_polls io) st = Inr (True, ps, st')"
proof (cases "st (io_done io) = 0")
  case True
  then have "st(io_done io := 0) = st" by (simp add: fun_upd_idem)
  then show ?thesis using send_loop_good [OF assms, of st] by simp
qed (simp add: send_loop_done)

lemma go_stage:
  assumes "io_good io dma" "stage_buffer_store True page offset (stage_buffer d) (kmem d) = Inr (sb, m)"
  shows "\<exists>d'. w_go 2 env io page offset (W_Stage, d, l) = Inr (W_Done 0, d', l(offset \<mapsto> page_at (kmem d) page))
    \<and> alike d d' \<and> drv_spin d' = drv_spin d \<and> drv_batch d' = drv_batch d \<and> stage_buffer d' = sb \<and> kmem d' = m"
proof -
  obtain ps st where "send_loop (io_done io) (io_polls io) (drv_done d) = Inr (True, ps, st)"
    using send_loop_any [OF assms(1)] by blast
  then show ?thesis
    using assms by (simp add: eval_nat_numeral io_good_def alike_def same_infos_def)
qed

lemma go_clear:
  "w_go 1 env io page offset (W_Clear dma ret, d, l) = Inr (W_Reset dma ret, clear_stage d, Map.empty)"
  by simp

lemma go_reset:
  assumes "io_good io dma" "drv_spin d = 1" "atomic_read (drv_batch d) = 0"
  shows "\<exists>d'. w_go 3 env io page offset (W_Reset dma' 0, d, l) = Inr (W_Stage, d', l) \<and> alike d d' \<and> drv_spin d' = 0
    \<and> atomic_read (drv_batch d') = 1 \<and> stage_buffer d' = (stage_buffer d)\<lparr>sb_count := 0\<rparr> \<and> kmem d' = kmem d"
  using assms
  by (simp add: eval_nat_numeral io_good_def Let_def post_flow_def alike_def same_infos_def stage_buffer_count_reset_def)

text \<open>What a page put into a slot that is free changes.\<close>

lemma store_slot:
  assumes "sb_buffer sb = base" "base \<noteq> NULL" "sb_count sb < CONFIG_BATCH"
  shows "stage_buffer_store True page off sb m = Inr
    (sb\<lparr>sb_index := (sb_index sb + 1) mod CONFIG_BATCH,
       sb_check_list := xa_store True (sb_check_list sb) off (slot base (sb_index sb)), sb_count := sb_count sb + 1\<rparr>,
     memcpy m (slot base (sb_index sb)) page PAGE_SIZE)"
  using assms by (simp add: stage_buffer_store_def stage_buffer_full_def stage_buffer_count_add_def Let_def)

lemma start_steps:
  assumes "at_step s t = W_Done r" "io_xa_ok io"
    and "w_go n env io page off (W_Start, th_driver s, th_last s) = Inr (p, d, l)"
  shows "threads_step\<^sup>*\<^sup>* s (s\<lparr>th_driver := d, th_at := (th_at s)(t := (page, off, p)), th_last := l\<rparr>)"
proof -
  let ?s = "s\<lparr>th_at := (th_at s)(t := (page, off, W_Start))\<rparr>"
  have "threads_step s ?s" using assms(1) by (rule th_new)
  moreover have "threads_step\<^sup>*\<^sup>* ?s (s\<lparr>th_driver := d, th_at := (th_at s)(t := (page, off, p)), th_last := l\<rparr>)"
    using w_go_steps [of n env io page off W_Start ?s p d l t] assms(2,3)
    by (simp del: fun_upd_apply add: fun_upd_same)
  ultimately show ?thesis by (rule converse_rtranclp_into_rtranclp)
qed

lemma reach_steps:
  assumes "threads_reach (\<lambda>_. True) base s" "threads_step\<^sup>*\<^sup>* s s'"
  shows "threads_reach (\<lambda>_. True) base s'"
  using assms(2,1) by (induction rule: rtranclp_induct) (auto intro: th_then)

text \<open>A writer among others that are all through stages promptly.\<close>

lemma alone_prompt:
  assumes "\<forall>u. u \<noteq> t \<longrightarrow> (\<exists>r. at_step s u = W_Done r)"
  shows "prompt s"
proof -
  have "u = t" if "clearing (at_step s u) \<or> pending (at_step s u)" for u
    using spec [OF assms, of u] that by auto
  then show ?thesis unfolding prompt_def by (metis clearing.simps pending.elims(2))
qed

lemma w_go_alone:
  "w_go n env io page offset (p, th_driver s, th_last s) = Inr (p', d', l') \<Longrightarrow> io_xa_ok io \<Longrightarrow>
   th_at s t = (page, offset, p) \<Longrightarrow> \<forall>u. u \<noteq> t \<longrightarrow> (\<exists>r. at_step s u = W_Done r) \<Longrightarrow> threads_reach prompt base s \<Longrightarrow>
   threads_reach prompt base (s\<lparr>th_driver := d', th_at := (th_at s)(t := (page, offset, p')), th_last := l'\<rparr>)"
proof (induction n arbitrary: s p)
  case 0
  then have "s\<lparr>th_driver := d', th_at := (th_at s)(t := (page, offset, p')), th_last := l'\<rparr> = s"
    by (auto simp: fun_upd_idem)
  with 0(5) show ?case by (simp only:)
next
  case (Suc n)
  obtain p1 d1 where st: "w_step env io page offset p (th_driver s) = Inr (p1, d1)"
    and rest: "w_go n env io page offset (p1, d1, noted (page_at (kmem (th_driver s)) page) offset p (th_last s)) = Inr (p', d', l')"
    using Suc.prems(1) by (auto simp: rbind_Inr_iff)
  let ?s = "s\<lparr>th_driver := d1, th_at := (th_at s)(t := (page, offset, p1)),
      th_last := noted (page_at (kmem (th_driver s)) page) offset p (th_last s)\<rparr>"
  have o: "\<forall>u. u \<noteq> t \<longrightarrow> (\<exists>r. at_step ?s u = W_Done r)" using Suc.prems(4) by simp
  have "threads_reach prompt base ?s"
    using th_then [OF Suc.prems(5) th_write [OF Suc.prems(3,2) st] alone_prompt [OF o]] .
  then show ?case
    using Suc.IH [of p1 ?s] rest Suc.prems(2) o by (simp del: fun_upd_apply add: fun_upd_same)
qed

lemma start_alone:
  assumes "threads_reach prompt base s" "\<forall>u. \<exists>r. at_step s u = W_Done r" "io_xa_ok io"
    and "w_go n env io page off (W_Start, th_driver s, th_last s) = Inr (p, d, l)"
  shows "threads_reach prompt base (s\<lparr>th_driver := d, th_at := (th_at s)(t := (page, off, p)), th_last := l\<rparr>)"
proof -
  let ?s = "s\<lparr>th_at := (th_at s)(t := (page, off, W_Start))\<rparr>"
  have o: "\<forall>u. u \<noteq> t \<longrightarrow> (\<exists>r. at_step ?s u = W_Done r)" using assms(2) by simp
  obtain r where "at_step s t = W_Done r" using assms(2) by blast
  from th_then [OF assms(1) th_new [OF this] alone_prompt [OF o]] have "threads_reach prompt base ?s" .
  then show ?thesis
    using w_go_alone [of n env io page off W_Start ?s p d l t] assms(3,4) o
    by (simp del: fun_upd_apply add: fun_upd_same)
qed

lemma ex_threads_parts: "th_driver (ex_threads k) = ex_driver k" "th_last (ex_threads k) = Map.empty"
  by (simp_all add: ex_threads_def)

section \<open>What holds in every interleaving, and in the prompt ones\<close>

text \<open>
  C11: What no interleaving of writers and loads breaks, whatever servers and adapter answer: at
  most one writer is between taking the lock and giving it back, and the lock is taken exactly
  then; the batch counter never passes 1024; and the staging buffer's index, count and entries stay
  inside it, so every load copies one of its 1024 slots or asks a server.
\<close>

theorem writers_stay_safe:
  assumes "threads_reach (\<lambda>_. True) base s"
  shows "(\<forall>t u. crit (at_step s t) \<and> crit (at_step s u) \<longrightarrow> t = u)
    \<and> drv_spin (th_driver s) = of_bool (\<exists>t. crit (at_step s t))
    \<and> uint (atomic_read (drv_batch (th_driver s))) \<le> CONFIG_BATCH
    \<and> sb_index (stage_buffer (th_driver s)) \<in> {0..<CONFIG_BATCH} \<and> sb_count (stage_buffer (th_driver s)) \<in> {0..CONFIG_BATCH}
    \<and> (\<forall>n. xa_load (sb_check_list (stage_buffer (th_driver s))) n \<in> insert NULL (slot base ` {0..<CONFIG_BATCH}))"
proof -
  have ok: "threads_ok base s" using threads_reach_ok [OF assms] .
  have e: "xa_load (sb_check_list (stage_buffer (th_driver s))) n \<in> insert NULL (slot base ` {0..<CONFIG_BATCH})" for n
    using ok xa_load_in [of "sb_check_list (stage_buffer (th_driver s))" n] by (fastforce simp: threads_ok_def stage_within_def)
  show ?thesis
    using ok e unfolding threads_ok_def lock_ok_def stage_within_def by auto
qed

theorem writers_stay_safe_witness:
  "\<exists>s. threads_reach (\<lambda>_. True) ex_base s \<and> at_step s 0 = W_Locked 0x10000 \<and> drv_spin (th_driver s) = 1
    \<and> (\<forall>t. t \<noteq> 0 \<longrightarrow> \<not> crit (at_step s t))"
proof -
  have "uint (3 :: u32) \<le> CONFIG_BATCH" by (simp add: CONFIG_BATCH_def)
  from ex_threads_rest [OF this] have r: "threads_reach (\<lambda>_. True) ex_base (ex_threads 3)" .
  obtain d where d: "w_go 2 undefined ex_io 0x5000 5 (W_Start, th_driver (ex_threads 3), th_last (ex_threads 3))
      = Inr (W_Locked 0x10000, d, Map.empty)"
    by (simp add: eval_nat_numeral ex_threads_def deref_def ex_targets ex_io_def get_req_for_page_def)
      (simp add: ex_driver_def)
  let ?s = "(ex_threads 3)\<lparr>th_driver := d, th_at := (th_at (ex_threads 3))(0 := (0x5000, 5, W_Locked 0x10000)), th_last := Map.empty\<rparr>"
  have "threads_step\<^sup>*\<^sup>* (ex_threads 3) ?s"
    by (rule start_steps [OF _ _ d]) (simp_all add: ex_threads_def at_step_def ex_io_def)
  define s where "s = ?s"
  have r: "threads_reach (\<lambda>_. True) ex_base s" "at_step s 0 = W_Locked 0x10000"
    using reach_steps [OF r \<open>threads_step\<^sup>*\<^sup>* (ex_threads 3) ?s\<close>] by (simp_all add: s_def)
  note w = writers_stay_safe [OF r(1)]
  have c: "crit (at_step s 0)" using r(2) by simp
  have "drv_spin (th_driver s) = of_bool (\<exists>t. crit (at_step s t))" using w by blast
  moreover have "(\<exists>t. crit (at_step s t)) = True" using c by blast
  ultimately have "drv_spin (th_driver s) = 1" by (simp only: of_bool_eq)
  moreover have "\<forall>t. t \<noteq> 0 \<longrightarrow> \<not> crit (at_step s t)" using w c by blast
  ultimately show ?thesis using r by blast
qed

text \<open>
  C13: Where no page is staged late, staging is exact: while a page waits to be staged there is a slot free for it, and
  at every moment the pages staged are those staged since the buffer was last emptied, each number
  with its last one, which is what a load of that number copies out.
\<close>

theorem prompt_staging_is_exact:
  assumes "threads_reach prompt base s"
  shows "(\<forall>t. at_step s t = W_Stage \<longrightarrow> \<not> stage_buffer_full (stage_buffer (th_driver s)))
    \<and> (\<forall>n p page. th_last s n = Some p \<longrightarrow>
        page_at (snd (stage_buffer_load page n (stage_buffer (th_driver s)) (kmem (th_driver s)))) page = p)
    \<and> (\<forall>n page m. th_last s n = None \<longrightarrow> stage_buffer_load page n (stage_buffer (th_driver s)) m = (NULL, m))"
proof -
  note ok = threads_reach_prompt [OF assms]
  have st: "staged (stage_buffer (th_driver s)) (kmem (th_driver s)) = th_last s" using ok by (simp add: prompt_ok_def)
  have "\<not> stage_buffer_full (stage_buffer (th_driver s))" if t: "at_step s t = W_Stage" for t
  proof -
    have "t \<in> waiting s" using t by (simp add: waiting_def)
    then have "0 < card (waiting s)" using ok card_gt_0_iff by (auto simp: prompt_ok_def)
    moreover have "\<not> clearing (at_step s u)" for u using ok t unfolding prompt_def by (metis pending.simps(2))
    ultimately show ?thesis using ok by (auto simp: prompt_ok_def threads_ok_def stage_buffer_full_def)
  qed
  moreover have "page_at (snd (stage_buffer_load page n (stage_buffer (th_driver s)) (kmem (th_driver s)))) page = p"
    if "th_last s n = Some p" for n p page
    using that stage_buffer_load_staged [of page n "stage_buffer (th_driver s)" "kmem (th_driver s)"] by (simp add: st)
  moreover have "stage_buffer_load page n (stage_buffer (th_driver s)) m = (NULL, m)" if "th_last s n = None" for n page m
    using that unfolding st [symmetric] by (auto simp: staged_def stage_buffer_load_def Let_def split: if_splits)
  ultimately show ?thesis by blast
qed

theorem prompt_staging_is_exact_witness:
  "\<exists>s. threads_reach prompt ex_base s \<and> th_at s 0 = (0x5000, 5, W_Done 0)
    \<and> page_at (snd (stage_buffer_load 0x6000 5 (stage_buffer (th_driver s)) (kmem (th_driver s)))) 0x6000 = ex_page"
proof -
  have k: "uint (3 :: u32) \<le> CONFIG_BATCH" "uint (3 :: u32) < CONFIG_BATCH" by (simp_all add: CONFIG_BATCH_def)
  from ex_threads_rest [OF k(1)] have r: "threads_reach prompt ex_base (ex_threads 3)" .
  have d0: "main_ctrl (ex_driver 3) = Ctrl 0" "drv_spin (ex_driver 3) = 0" "block_open (unat (get_num_memblock 5)) (ex_driver 3)"
    "uint (atomic_read (drv_batch (ex_driver 3))) < CONFIG_BATCH"
    by (simp_all add: k(2)) (simp add: ex_driver_def)
  obtain d1 where d1: "w_go 6 (ex_call commit_opcode) ex_io 0x5000 5 (W_Start, ex_driver 3, Map.empty) = Inr (W_Stage, d1, Map.empty)"
      "stage_buffer d1 = ex_stage" "kmem d1 = kmem (ex_driver 3)"
    using go_count [OF d0 ex_io_good, of "ex_call commit_opcode" "0x5000" Map.empty] by auto
  have "sb_buffer (stage_buffer d1) = ex_base" "ex_base \<noteq> NULL" "sb_count (stage_buffer d1) < CONFIG_BATCH"
    by (simp_all add: d1(2) ex_stage_def ex_base_def CONFIG_BATCH_def)
  from go_stage [OF ex_io_good store_slot [OF this]]
  obtain d2 where d2: "w_go 2 (ex_call commit_opcode) ex_io 0x5000 5 (W_Stage, d1, Map.empty)
      = Inr (W_Done 0, d2, Map.empty(5 \<mapsto> page_at (kmem d1) 0x5000))" by blast
  have go: "w_go (6 + 2) (ex_call commit_opcode) ex_io 0x5000 5 (W_Start, ex_driver 3, Map.empty)
      = Inr (W_Done 0, d2, [5 \<mapsto> ex_page])"
    by (simp only: w_go_add) (simp add: d1(1,3) d2 ex_page_stored)
  then have go': "w_go 8 (ex_call commit_opcode) ex_io 0x5000 5 (W_Start, th_driver (ex_threads 3), th_last (ex_threads 3))
      = Inr (W_Done 0, d2, [5 \<mapsto> ex_page])" by (simp add: ex_threads_parts)
  let ?s = "(ex_threads 3)\<lparr>th_driver := d2, th_at := (th_at (ex_threads 3))(0 := (0x5000, 5, W_Done 0)), th_last := [5 \<mapsto> ex_page]\<rparr>"
  have s: "threads_reach prompt ex_base ?s"
    by (rule start_alone [OF r _ _ go']) (simp_all add: ex_threads_def at_step_def ex_io_def)
  from prompt_staging_is_exact [OF s] have
    "page_at (snd (stage_buffer_load 0x6000 5 (stage_buffer (th_driver ?s)) (kmem (th_driver ?s)))) 0x6000 = ex_page"
    by simp
  then show ?thesis using s by (intro exI [of _ ?s]) simp
qed

section \<open>Filling a batch\<close>

text \<open>\<open>k\<close> pages into the new batch: \<open>i\<close> is the slot of the late page, \<open>a\<close> its number.\<close>

definition filled :: "addr \<Rightarrow> int \<Rightarrow> u32 \<Rightarrow> addr \<Rightarrow> page \<Rightarrow> driver \<Rightarrow> nat \<Rightarrow> driver \<Rightarrow> bool" where
  "filled base i a page pg d0 k d \<longleftrightarrow> alike d0 d \<and> drv_spin d = 0 \<and> uint (atomic_read (drv_batch d)) = int k
     \<and> sb_buffer (stage_buffer d) = base \<and> sb_count (stage_buffer d) = int k
     \<and> sb_index (stage_buffer d) = (i + 1 + int k) mod CONFIG_BATCH
     \<and> xa_load (sb_check_list (stage_buffer d)) a = slot base i \<and> page_at (kmem d) page = pg"

lemma slot_index: "0 \<le> j mod CONFIG_BATCH" "j mod CONFIG_BATCH < CONFIG_BATCH"
  by (simp_all add: CONFIG_BATCH_def)

lemma fill_one:
  assumes "filled base i a page pg d0 k d" "k < 1024" "main_ctrl d0 = Ctrl mn" "io_good io dma" "base \<noteq> NULL"
    and "block_open (unat (get_num_memblock off)) d0" "off \<noteq> a"
    and "\<forall>j. 0 \<le> j \<longrightarrow> j < CONFIG_BATCH \<longrightarrow> apart page (slot base j)"
  shows "\<exists>d' l'. w_go 8 env io p off (W_Start, d, l) = Inr (W_Done 0, d', l') \<and> l' a = l a
    \<and> filled base i a page pg d0 (k + 1) d'
    \<and> page_at (kmem d') (slot base ((i + 1 + int k) mod CONFIG_BATCH)) = page_at (kmem d) p"
proof -
  let ?sb = "stage_buffer d"
  have d: "alike d0 d" "drv_spin d = 0" "uint (atomic_read (drv_batch d)) = int k" "sb_buffer ?sb = base"
    "sb_count ?sb = int k" "sb_index ?sb = (i + 1 + int k) mod CONFIG_BATCH"
    "xa_load (sb_check_list ?sb) a = slot base i" "page_at (kmem d) page = pg"
    using assms(1) by (simp_all add: filled_def)
  have "main_ctrl d = Ctrl mn" using d(1) assms(3) by (simp add: alike_def)
  moreover have "block_open (unat (get_num_memblock off)) d" using alike_open [OF d(1)] assms(6) by simp
  moreover have "uint (atomic_read (drv_batch d)) < CONFIG_BATCH" using assms(2) d(3) by (simp add: CONFIG_BATCH_def)
  ultimately obtain d1 where d1: "w_go 6 env io p off (W_Start, d, l) = Inr (W_Stage, d1, l)" "alike d d1"
      "drv_spin d1 = 0" "uint (atomic_read (drv_batch d1)) = int k + 1" "stage_buffer d1 = ?sb" "kmem d1 = kmem d"
    using go_count [OF _ d(2) _ _ assms(4)] d(3) by metis
  let ?sb' = "?sb\<lparr>sb_index := (sb_index ?sb + 1) mod CONFIG_BATCH,
       sb_check_list := xa_store True (sb_check_list ?sb) off (slot base (sb_index ?sb)), sb_count := sb_count ?sb + 1\<rparr>"
  have "stage_buffer_store True p off (stage_buffer d1) (kmem d1)
      = Inr (?sb', memcpy (kmem d) (slot base (sb_index ?sb)) p PAGE_SIZE)"
    using store_slot [OF d(4) assms(5)] d(5) assms(2) by (simp add: d1(5,6) CONFIG_BATCH_def)
  from go_stage [OF assms(4) this]
  obtain d2 where d2: "w_go 2 env io p off (W_Stage, d1, l) = Inr (W_Done 0, d2, l(off \<mapsto> page_at (kmem d1) p))"
      "alike d1 d2" "drv_spin d2 = drv_spin d1" "drv_batch d2 = drv_batch d1" "stage_buffer d2 = ?sb'"
      "kmem d2 = memcpy (kmem d) (slot base (sb_index ?sb)) p PAGE_SIZE" by blast
  have "w_go (6 + 2) env io p off (W_Start, d, l) = Inr (W_Done 0, d2, l(off \<mapsto> page_at (kmem d1) p))"
    by (simp only: w_go_add d1(1) d2(1) rbind_simps)
  moreover have "page_at (kmem d2) page = pg"
    using d2(6) d(6,8) assms(8) slot_index by (simp add: page_at_memcpy_apart apart_sym)
  moreover have "((i + 1 + int k) mod CONFIG_BATCH + 1) mod CONFIG_BATCH = (i + 1 + int (k + 1)) mod CONFIG_BATCH"
    by (simp add: mod_add_left_eq add.assoc)
  moreover have "alike d0 d2" using d(1) d1(2) d2(2) alike_trans by blast
  ultimately show ?thesis
    using d d1(3,4) d2(3-6) assms(7) by (auto simp: filled_def)
qed

section \<open>The race\<close>

lemma fill_many:
  fixes q :: "nat \<Rightarrow> addr \<times> u32" and env :: call_env
  assumes "filled base i a page pg d0 k (th_driver s)" "k + n \<le> 1024" "main_ctrl d0 = Ctrl mn" "io_good io dma" "base \<noteq> NULL"
    and "\<forall>j < 1024. block_open (unat (get_num_memblock (snd (q j)))) d0 \<and> snd (q j) \<noteq> a"
    and "\<forall>j. 0 \<le> j \<longrightarrow> j < CONFIG_BATCH \<longrightarrow> apart page (slot base j)"
    and "at_step s 1 = W_Done 0"
  shows "\<exists>s'. threads_step\<^sup>*\<^sup>* s s' \<and> filled base i a page pg d0 (k + n) (th_driver s') \<and> at_step s' 1 = W_Done 0
    \<and> th_at s' 0 = th_at s 0 \<and> th_last s' a = th_last s a"
  using assms(2)
proof (induction n)
  case 0
  then show ?case using assms(1,8) by auto
next
  case (Suc n)
  then obtain s1 where s1: "threads_step\<^sup>*\<^sup>* s s1" "filled base i a page pg d0 (k + n) (th_driver s1)"
      "at_step s1 1 = W_Done 0" "th_at s1 0 = th_at s 0" "th_last s1 a = th_last s a" by auto
  have "k + n < 1024" using Suc.prems by simp
  from fill_one [OF s1(2) this assms(3-5) _ _ assms(7), of "snd (q (k + n))" env "fst (q (k + n))" "th_last s1"]
  obtain d' l' where w: "w_go 8 env io (fst (q (k + n))) (snd (q (k + n))) (W_Start, th_driver s1, th_last s1)
        = Inr (W_Done 0, d', l')" "l' a = th_last s1 a" "filled base i a page pg d0 (k + n + 1) d'"
    using assms(6) \<open>k + n < 1024\<close> by blast
  have "io_xa_ok io" using assms(4) by (simp add: io_good_def)
  note st = start_steps [OF s1(3) this w(1)]
  show ?case
    using rtranclp_trans [OF s1(1) st] w(2,3) s1(4,5) by (intro exI conjI) (assumption, simp_all)
qed

text \<open>Writer 0 counts its page; writer 1 finds the batch full, commits and clears.\<close>

lemma race_clears:
  assumes "driver_ok base (th_driver s)" "drv_spin (th_driver s) = 0" "main_ctrl (th_driver s) = Ctrl mn"
    and "uint (atomic_read (drv_batch (th_driver s))) = CONFIG_BATCH - 1"
    and "all_free (th_driver s)" "answers env" "io_good io dma"
    and "block_open (unat (get_num_memblock a)) (th_driver s)" "block_open (unat (get_num_memblock b)) (th_driver s)"
    and "at_step s 0 = W_Done r0" "at_step s 1 = W_Done r1"
  shows "\<exists>s'. threads_step\<^sup>*\<^sup>* s s' \<and> th_at s' 0 = (pa, a, W_Stage) \<and> th_at s' 1 = (pb, b, W_Reset dma 0)
    \<and> alike (th_driver s) (th_driver s') \<and> drv_spin (th_driver s') = 1 \<and> atomic_read (drv_batch (th_driver s')) = 0
    \<and> stage_buffer (th_driver s') = (stage_buffer (th_driver s))\<lparr>sb_check_list := []\<rparr>
    \<and> kmem (th_driver s') = kmem (th_driver s)"
proof -
  let ?d = "th_driver s"
  have xa: "io_xa_ok io" "io_dma io = Some dma" using assms(7) by (simp_all add: io_good_def)
  have sb: "clear_stage_buffer_addr (stage_buffer ?d) = (stage_buffer ?d)\<lparr>sb_check_list := []\<rparr>"
    using assms(1) clear_stage_buffer_addr_ok(1) [of base] by (simp add: driver_ok_def)
  have "uint (atomic_read (drv_batch ?d)) < CONFIG_BATCH" using assms(4) by simp
  from go_count [OF assms(3,2,8) this assms(7), of env pa "th_last s"]
  obtain d1 where d1: "w_go 6 env io pa a (W_Start, ?d, th_last s) = Inr (W_Stage, d1, th_last s)" "alike ?d d1"
      "drv_spin d1 = 0" "uint (atomic_read (drv_batch d1)) = CONFIG_BATCH" "stage_buffer d1 = stage_buffer ?d"
      "kmem d1 = kmem ?d" "drv_binders d1 = drv_binders ?d"
    using assms(4) by auto
  define s1 where "s1 = s\<lparr>th_driver := d1, th_at := (th_at s)(0 := (pa, a, W_Stage)), th_last := th_last s\<rparr>"
  have 1: "threads_step\<^sup>*\<^sup>* s s1" unfolding s1_def using start_steps [OF assms(10) xa(1) d1(1)] .
  have "main_ctrl d1 = Ctrl mn" "all_free d1" "block_open (unat (get_num_memblock b)) d1"
    using assms(3,5,9) d1(2,7) alike_open [OF d1(2)] by (simp_all add: alike_def all_free_def)
  with go_commit [OF _ d1(3) _ d1(4) xa(2) _ assms(6)]
  obtain d2 where d2: "w_go 4 env io pb b (W_Start, d1, th_last s) = Inr (W_Clear dma 0, d2, th_last s)"
      "alike d1 d2" "drv_spin d2 = 1" "atomic_read (drv_batch d2) = 0" "stage_buffer d2 = stage_buffer ?d" "kmem d2 = kmem ?d"
    using d1(5,6) by metis
  have go: "w_go (4 + 1) env io pb b (W_Start, th_driver s1, th_last s1) = Inr (W_Reset dma 0, clear_stage d2, Map.empty)"
    by (simp only: w_go_add) (simp add: s1_def d2(1))
  let ?s2 = "s1\<lparr>th_driver := clear_stage d2, th_at := (th_at s1)(1 := (pb, b, W_Reset dma 0)), th_last := Map.empty\<rparr>"
  have "at_step s1 1 = W_Done r1" using assms(11) by (simp add: s1_def at_step_def)
  from start_steps [OF this xa(1) go] have 2: "threads_step\<^sup>*\<^sup>* s1 ?s2" .
  have "alike ?d (clear_stage d2)"
    using alike_trans [OF d1(2) d2(2)] by (simp add: alike_def same_infos_def clear_stage_def)
  then show ?thesis
    using rtranclp_trans [OF 1 2] d2(3-6) sb by (intro exI [of _ ?s2]) (simp add: s1_def)
qed

text \<open>Then writer 0 stages, writer 1 resets the count and stages its own page, the first of the new batch.\<close>

lemma race_stages:
  assumes "th_at s 0 = (pa, a, W_Stage)" "th_at s 1 = (pb, b, W_Reset dma' 0)" "alike d0 (th_driver s)"
    and "drv_spin (th_driver s) = 1" "atomic_read (drv_batch (th_driver s)) = 0" "io_good io dma"
    and "sb_buffer (stage_buffer (th_driver s)) = base" "base \<noteq> NULL" "sb_count (stage_buffer (th_driver s)) < CONFIG_BATCH"
    and "i = sb_index (stage_buffer (th_driver s))" "0 \<le> i" "i < CONFIG_BATCH" "slot base i \<noteq> NULL" "a \<noteq> b"
    and "\<forall>j. 0 \<le> j \<longrightarrow> j < CONFIG_BATCH \<longrightarrow> apart page (slot base j)"
  shows "\<exists>s'. threads_step\<^sup>*\<^sup>* s s' \<and> th_at s' 0 = (pa, a, W_Done 0) \<and> at_step s' 1 = W_Done 0
    \<and> filled base i a page (page_at (kmem (th_driver s)) page) d0 1 (th_driver s')
    \<and> th_last s' a = Some (page_at (kmem (th_driver s)) pa)"
proof -
  let ?d = "th_driver s"
  let ?sb = "stage_buffer ?d"
  have xa: "io_xa_ok io" using assms(6) by (simp add: io_good_def)
  note st1 = store_slot [OF assms(7-9), of pa a "kmem ?d"]
  obtain d1 where d1: "w_go 2 env io pa a (W_Stage, ?d, th_last s) = Inr (W_Done 0, d1, (th_last s)(a \<mapsto> page_at (kmem ?d) pa))"
      "alike ?d d1" "drv_spin d1 = 1" "atomic_read (drv_batch d1) = 0"
      "stage_buffer d1 = ?sb\<lparr>sb_index := (i + 1) mod CONFIG_BATCH,
         sb_check_list := xa_store True (sb_check_list ?sb) a (slot base i), sb_count := sb_count ?sb + 1\<rparr>"
      "kmem d1 = memcpy (kmem ?d) (slot base i) pa PAGE_SIZE"
    using go_stage [OF assms(6) st1, of env "th_last s"] assms(4,5,10) by auto
  let ?s1 = "s\<lparr>th_driver := d1, th_at := (th_at s)(0 := (pa, a, W_Done 0)), th_last := (th_last s)(a \<mapsto> page_at (kmem ?d) pa)\<rparr>"
  have 1: "threads_step\<^sup>*\<^sup>* s ?s1" using w_go_steps [OF d1(1) xa assms(1)] .
  obtain d2 where d2: "w_go 3 env io pb b (W_Reset dma' 0, d1, th_last ?s1) = Inr (W_Stage, d2, th_last ?s1)" "alike d1 d2"
      "drv_spin d2 = 0" "atomic_read (drv_batch d2) = 1" "stage_buffer d2 = (stage_buffer d1)\<lparr>sb_count := 0\<rparr>" "kmem d2 = kmem d1"
    using go_reset [OF assms(6) d1(3,4)] by blast
  have b2: "sb_buffer (stage_buffer d2) = base" "sb_count (stage_buffer d2) < CONFIG_BATCH"
    using assms(7) by (simp_all add: d2(5) d1(5) CONFIG_BATCH_def)
  obtain d3 l3 where d3: "w_go 2 env io pb b (W_Stage, d2, th_last ?s1) = Inr (W_Done 0, d3, l3)"
      "l3 = (th_last ?s1)(b \<mapsto> page_at (kmem d2) pb)" "alike d2 d3" "drv_spin d3 = 0" "atomic_read (drv_batch d3) = 1"
      "stage_buffer d3 = (stage_buffer d2)\<lparr>sb_index := ((i + 1) mod CONFIG_BATCH + 1) mod CONFIG_BATCH,
         sb_check_list := xa_store True (sb_check_list (stage_buffer d2)) b (slot base ((i + 1) mod CONFIG_BATCH)), sb_count := 1\<rparr>"
      "kmem d3 = memcpy (kmem d1) (slot base ((i + 1) mod CONFIG_BATCH)) pb PAGE_SIZE"
    using go_stage [OF assms(6) store_slot [OF b2(1) assms(8) b2(2)], of env pb b "th_last ?s1"] d2(3-6) d1(5) by auto
  have "w_go (3 + 2) env io pb b (W_Reset dma' 0, th_driver ?s1, th_last ?s1) = Inr (W_Done 0, d3, l3)"
    by (simp only: w_go_add) (use d2(1) d3(1) in simp)
  then have 2: "threads_step\<^sup>*\<^sup>* ?s1 (?s1\<lparr>th_driver := d3, th_at := (th_at ?s1)(1 := (pb, b, W_Done 0)), th_last := l3\<rparr>)"
    using xa assms(2) by (intro w_go_steps) simp_all
  have "page_at (kmem d3) page = page_at (kmem ?d) page"
    using assms(11,12,15) slot_index by (simp add: d3(7) d1(6) page_at_memcpy_apart apart_sym)
  moreover have "alike d0 d3" using assms(3) d1(2) d2(2) d3(3) alike_trans by blast
  moreover have "((i + 1) mod CONFIG_BATCH + 1) mod CONFIG_BATCH = (i + 1 + int 1) mod CONFIG_BATCH"
    by (simp add: mod_add_left_eq)
  ultimately have "filled base i a page (page_at (kmem ?d) page) d0 1 d3"
    using assms(7,14) d3(4,5) by (simp add: filled_def d3(6) d2(5) d1(5))
  then show ?thesis
    using rtranclp_trans [OF 1 2] assms(14) d3(2) by (intro exI conjI) (assumption, simp_all add: at_step_def)
qed

text \<open>
  C12: A page staged late is lost to another. A driver at rest, its block open, its servers answering, with
  one page missing to a full batch: writer 0 counts page \<open>pa\<close> under number \<open>a\<close>; writer 1 finds the batch full,
  commits and clears; writer 0 stages its page and is through; writer 1 resets the count and
  fills the next batch with 1024 pages \<open>q 0\<close>, ..., \<open>q 1023\<close>, none of them under \<open>a\<close>. Every store returned 0 and
  \<open>pa\<close> is what was staged last under \<open>a\<close>, but a load of \<open>a\<close> returns 0 with the page \<open>q 1023\<close>.
\<close>

theorem late_stage_loads_other_page:
  fixes q :: "nat \<Rightarrow> addr \<times> u32"
  assumes "driver_ok base (th_driver s)" "drv_spin (th_driver s) = 0" "main_ctrl (th_driver s) = Ctrl mn"
    and "uint (atomic_read (drv_batch (th_driver s))) = CONFIG_BATCH - 1"
    and "all_free (th_driver s)" "answers env" "io_good io dma"
    and "block_open (unat (get_num_memblock a)) (th_driver s)"
    and "\<forall>j < 1024. block_open (unat (get_num_memblock (snd (q j)))) (th_driver s) \<and> snd (q j) \<noteq> a"
    and "frame (fst (q 1023)) (stage_buffer (th_driver s))" "at_step s 0 = W_Done r0" "at_step s 1 = W_Done r1"
    and "get_sub_rdma_ctrl (th_driver s) = Ctrl sn"
  shows "\<exists>s'. threads_step\<^sup>*\<^sup>* s s' \<and> th_at s' 0 = (pa, a, W_Done 0) \<and> at_step s' 1 = W_Done 0
    \<and> th_last s' a = Some (page_at (kmem (th_driver s)) pa)
    \<and> (\<exists>d'. maruswap_rdma_read io' dst a (th_driver s') = Inr (0, d')
        \<and> page_at (kmem d') dst = page_at (kmem (th_driver s)) (fst (q 1023)))"
proof -
  let ?d = "th_driver s" and ?pg = "page_at (kmem (th_driver s)) (fst (q 1023))"
  define i where "i = sb_index (stage_buffer ?d)"
  have sb: "sb_buffer (stage_buffer ?d) = base" "base \<noteq> NULL" "0 \<le> i" "i < CONFIG_BATCH" "sb_count (stage_buffer ?d) < CONFIG_BATCH"
    "slot base i \<noteq> NULL"
    using assms(1,4) stage_slot_nonnull by (auto simp: driver_ok_def stage_ok_def stage_base_def i_def)
  have fr: "\<forall>j. 0 \<le> j \<longrightarrow> j < CONFIG_BATCH \<longrightarrow> apart (fst (q 1023)) (slot base j)"
    using assms(10) sb(1) by (simp add: frame_def)
  have q: "block_open (unat (get_num_memblock (snd (q 0)))) ?d" "a \<noteq> snd (q 0)" using assms(9) [rule_format, of 0] by auto
  obtain s1 where s1: "threads_step\<^sup>*\<^sup>* s s1" "th_at s1 0 = (pa, a, W_Stage)" "th_at s1 1 = (fst (q 0), snd (q 0), W_Reset dma 0)"
      "alike ?d (th_driver s1)" "drv_spin (th_driver s1) = 1" "atomic_read (drv_batch (th_driver s1)) = 0"
      "stage_buffer (th_driver s1) = (stage_buffer ?d)\<lparr>sb_check_list := []\<rparr>" "kmem (th_driver s1) = kmem ?d"
    using race_clears [OF assms(1-8) q(1) assms(11,12)] by blast
  obtain s2 where s2: "threads_step\<^sup>*\<^sup>* s1 s2" "th_at s2 0 = (pa, a, W_Done 0)" "at_step s2 1 = W_Done 0"
      "filled base i a (fst (q 1023)) ?pg ?d 1 (th_driver s2)" "th_last s2 a = Some (page_at (kmem ?d) pa)"
    using race_stages [OF s1(2-6) assms(7) _ sb(2) _ _ sb(3,4,6) q(2) fr] sb(1,5) by (auto simp: s1(7,8) i_def)
  obtain s3 where s3: "threads_step\<^sup>*\<^sup>* s2 s3" "filled base i a (fst (q 1023)) ?pg ?d 1023 (th_driver s3)"
      "at_step s3 1 = W_Done 0" "th_at s3 0 = (pa, a, W_Done 0)" "th_last s3 a = Some (page_at (kmem ?d) pa)"
    using fill_many [OF s2(4), of 1022, OF _ assms(3,7) sb(2) assms(9) fr s2(3)] s2(2,5) by auto
  from fill_one [OF s3(2) _ assms(3,7) sb(2) _ _ fr, of "snd (q 1023)" env "fst (q 1023)" "th_last s3"]
  obtain d l where d: "w_go 8 env io (fst (q 1023)) (snd (q 1023)) (W_Start, th_driver s3, th_last s3) = Inr (W_Done 0, d, l)"
      "l a = th_last s3 a" "filled base i a (fst (q 1023)) ?pg ?d 1024 d"
      "page_at (kmem d) (slot base i) = ?pg"
    using assms(9) sb(3,4) s3(2) by (auto simp: filled_def CONFIG_BATCH_def)
  have "io_xa_ok io" using assms(7) by (simp add: io_good_def)
  note 4 = start_steps [OF s3(3) this d(1)]
  have "staged (stage_buffer d) (kmem d) a = Some ?pg" "main_ctrl d = Ctrl mn" "get_sub_rdma_ctrl d = Ctrl sn"
    using d(3,4) sb(6) assms(3,13)
    by (simp_all add: staged_def filled_def alike_def get_sub_rdma_ctrl_def get_main_rdma_ctrl_def Let_def split: if_splits)
  then have "\<exists>d'. maruswap_rdma_read io' dst a d = Inr (0, d') \<and> page_at (kmem d') dst = ?pg"
    using read_staged by blast
  then show ?thesis
    using rtranclp_trans [OF rtranclp_trans [OF s1(1) s2(1)] rtranclp_trans [OF s3(1) 4]] s3(4,5) d(2)
    by (intro exI [of _ "s3\<lparr>th_driver := d, th_at := (th_at s3)(1 := (fst (q 1023), snd (q 1023), W_Done 0)), th_last := l\<rparr>"])
      (simp add: at_step_def)
qed

text \<open>A page of zeros behind the staging buffer's memory.\<close>

lemma ex_far_frame: "\<forall>j. 0 \<le> j \<longrightarrow> j < CONFIG_BATCH \<longrightarrow> apart 0x2000000 (slot ex_base j)"
  by (simp add: ex_slots_apart)

lemma ex_far_page: "page_at (kmem (ex_driver k)) 0x2000000 = (\<lambda>_. 0)"
proof -
  have "\<not> 0x2000000 + ucast i < (0x1000000 :: u64)" for i :: "12 word"
  proof -
    have "unat (ucast i :: u64) < 0x1000" using ucast_page_less [of i] by (simp add: word_less_nat_alt)
    then show ?thesis by (simp add: word_less_nat_alt unat_word_ariths)
  qed
  then show ?thesis by (simp add: page_at_def ex_driver_def fun_eq_iff)
qed

text \<open>Writer 0 stores a page of sevens under 5; a load of 5 yields the page of zeros that writer 1 stored under 6.\<close>

theorem late_stage_loads_other_page_witness:
  "\<exists>s'. threads_step\<^sup>*\<^sup>* (ex_threads 1023) s' \<and> th_at s' 0 = (0x5000, 5, W_Done 0)
    \<and> th_last s' 5 = Some (\<lambda>_. 7)
    \<and> (\<exists>d'. maruswap_rdma_read ex_io 0x6000 5 (th_driver s') = Inr (0, d') \<and> page_at (kmem d') 0x6000 = (\<lambda>_. 0))"
proof -
  have s: "th_driver (ex_threads 1023) = ex_driver 1023" "at_step (ex_threads 1023) t = W_Done 0" for t
    by (simp_all add: ex_threads_def at_step_def)
  have d: "driver_ok ex_base (ex_driver 1023)" by (rule ex_driver_ok) (simp add: CONFIG_BATCH_def)
  have b: "get_num_memblock 6 = 0" by (simp add: get_num_memblock_def)
  have f: "frame 0x2000000 (stage_buffer (ex_driver 1023))"
    using ex_far_frame by (simp add: frame_def ex_stage_def)
  have r: "drv_spin (ex_driver 1023) = 0" "uint (atomic_read (drv_batch (ex_driver 1023))) = CONFIG_BATCH - 1"
    by (simp_all add: CONFIG_BATCH_def) (simp add: ex_driver_def)
  from late_stage_loads_other_page [of ex_base "ex_threads 1023" 0 "ex_call commit_opcode" ex_io "0x10000" 5
      "\<lambda>_. (0x2000000, 6)" 0 0 1 "0x5000" ex_io "0x6000", unfolded s, OF d r(1) _ r(2) ex_all_free ex_answers ex_io_good]
  show ?thesis using f b ex_far_page ex_page_stored ex_targets by (simp add: ex_page_def) blast
qed

end
