(* ===== verification/Fleet.thy ===== *)
theory Fleet
  imports Driver_Races Network
begin

text \<open>
  Many writers and the servers at once: \<open>Driver_Threads\<close>' writers, whose steps interleave, with
  packets that arrive at each server in their own time, commits that the servers handle, and loads.
  Where no page is staged late and no commit finds a packet on its way, a load still returns the
  page whose store returned last, as long as the kernel does what it does with a page it swaps:
  it neither stores a number twice at a time nor touches the page meanwhile.
\<close>

unbundle bit_operations_syntax

section \<open>Steps\<close>

text \<open>
  \<open>fl_last\<close> is the abstract state: the page of the last store under each number that returned 0. It says
  nothing of a number while it is being stored, nor after a store of it that failed.
\<close>

record fleet =
  fl_threads :: threads
  fl_server :: "nat \<Rightarrow> server"
  fl_flight :: "nat \<Rightarrow> (u32 \<times> page) list"
  fl_last :: "u32 \<rightharpoonup> page"

abbreviation fl_driver :: "fleet \<Rightarrow> driver" where "fl_driver s \<equiv> th_driver (fl_threads s)"

fun active :: "writer \<Rightarrow> bool" where "active (W_Done _) = False" | "active _ = True"

definition moved :: "threads \<Rightarrow> nat \<Rightarrow> addr \<Rightarrow> u32 \<Rightarrow> writer \<Rightarrow> writer \<Rightarrow> driver \<Rightarrow> threads" where
  "moved T t page off p p' d' = T\<lparr>th_driver := d', th_at := (th_at T)(t := (page, off, p')),
     th_last := noted (page_at (kmem (th_driver T)) page) off p (th_last T)\<rparr>"

fun returned :: "u32 \<Rightarrow> page \<Rightarrow> writer \<Rightarrow> (u32 \<rightharpoonup> page) \<Rightarrow> u32 \<rightharpoonup> page" where
  "returned off p (W_Done ret) l = (if ret = 0 then l(off \<mapsto> p) else l)"
| "returned off p _ l = l"

text \<open>No writer at work has this page frame.\<close>

definition unused :: "addr \<Rightarrow> fleet \<Rightarrow> bool" where
  "unused page s \<longleftrightarrow> (\<forall>t page' off p. th_at (fl_threads s) t = (page', off, p) \<longrightarrow> active p \<longrightarrow> apart page page')"

text \<open>
  A writer's step, with the packet it sends and the page it has stored; a commit, when nothing is on
  its way, which every server handles; a writer that takes up a page no other stores, in a block that
  is open; a packet's arrival; a load; and the kernel's use of pages that are not being stored.
\<close>

inductive fleet_step :: "(nat \<Rightarrow> nat \<Rightarrow> block_env) \<Rightarrow> addr \<Rightarrow> fleet \<Rightarrow> fleet \<Rightarrow> bool" for envs base where
  fl_write: "th_at (fl_threads s) t = (page, off, p) \<Longrightarrow> active p \<Longrightarrow> io_xa_ok io \<Longrightarrow>
     (\<forall>dma. p = W_Opened dma \<longrightarrow> sint (atomic_read (drv_batch (fl_driver s))) < CONFIG_BATCH) \<Longrightarrow>
     w_step env io page off p (fl_driver s) = Inr (p', d') \<Longrightarrow> pg = page_at (kmem (fl_driver s)) page \<Longrightarrow>
     fleet_step envs base s (s\<lparr>fl_threads := moved (fl_threads s) t page off p p' d',
       fl_flight := (if p' = W_Stage then send_page (ctrl_list (fl_driver s)) off pg (fl_flight s) else fl_flight s),
       fl_last := returned off pg p' (fl_last s)\<rparr>)"
| fl_commit: "th_at (fl_threads s) t = (page, off, W_Opened dma) \<Longrightarrow> io_xa_ok io \<Longrightarrow>
     CONFIG_BATCH \<le> sint (atomic_read (drv_batch (fl_driver s))) \<Longrightarrow> \<forall>n. fl_flight s n = [] \<Longrightarrow>
     ready_to_commit (fl_driver s) (fl_server s) \<Longrightarrow>
     w_step env io page off (W_Opened dma) (fl_driver s) = Inr (W_Clear dma 0, d') \<Longrightarrow>
     commit_servers envs (commit_request rid d') (ctrl_list (fl_driver s)) (fl_server s) = Some srv' \<Longrightarrow>
     fleet_step envs base s (s\<lparr>fl_threads := moved (fl_threads s) t page off (W_Opened dma) (W_Clear dma 0) d',
       fl_server := srv'\<rparr>)"
| fl_new: "at_step (fl_threads s) t = W_Done ret \<Longrightarrow> off_stage base page \<Longrightarrow>
     block_open (unat (get_num_memblock off)) (fl_driver s) \<Longrightarrow>
     \<forall>u page' q. th_at (fl_threads s) u = (page', off, q) \<longrightarrow> \<not> active q \<Longrightarrow>
     fleet_step envs base s
       (s\<lparr>fl_threads := (fl_threads s)\<lparr>th_at := (th_at (fl_threads s))(t := (page, off, W_Start))\<rparr>,
          fl_last := (fl_last s)(off := None)\<rparr>)"
| fl_deliver: "fl_flight s n = (off, p) # rest \<Longrightarrow> serve_page (envs n) off p (fl_server s n) = Some v \<Longrightarrow>
     fleet_step envs base s (s\<lparr>fl_server := (fl_server s)(n := v), fl_flight := (fl_flight s)(n := rest)\<rparr>)"
| fl_load: "system_load io pageid page (fl_driver s, fl_server s) = Some (p, d') \<Longrightarrow> off_stage base page \<Longrightarrow> unused page s \<Longrightarrow>
     fleet_step envs base s
       (s\<lparr>fl_threads := (fl_threads s)\<lparr>th_driver := d'\<lparr>kmem := put_page (kmem d') page p\<rparr>\<rparr>\<rparr>)"
| fl_kernel: "off_stage base page \<Longrightarrow> unused page s \<Longrightarrow>
     fleet_step envs base s (s\<lparr>fl_threads := (fl_threads s)
       \<lparr>th_driver := (fl_driver s)\<lparr>kmem := put_page (kmem (fl_driver s)) page p\<rparr>\<rparr>\<rparr>)"

definition fleet_start ::
  "(nat \<Rightarrow> nat \<Rightarrow> block_env) \<Rightarrow> (nat \<Rightarrow> addr set) \<Rightarrow> (nat \<Rightarrow> addr \<Rightarrow> addr) \<Rightarrow> addr \<Rightarrow> fleet \<Rightarrow> bool" where
  "fleet_start envs W bufs base s \<longleftrightarrow>
     servers_ok envs W bufs (fl_driver s, fl_server s) \<and> driver_ok base (fl_driver s) \<and> drv_spin (fl_driver s) = 0
     \<and> (\<exists>n. main_ctrl (fl_driver s) = Ctrl n) \<and> (\<forall>t. \<not> active (at_step (fl_threads s) t))
     \<and> staged (stage_buffer (fl_driver s)) (kmem (fl_driver s)) = Map.empty \<and> th_last (fl_threads s) = Map.empty
     \<and> (\<forall>n. fl_flight s n = []) \<and> fl_last s = Map.empty"

text \<open>Runs in which no page is staged late.\<close>

inductive fleet_reach ::
  "(nat \<Rightarrow> nat \<Rightarrow> block_env) \<Rightarrow> (nat \<Rightarrow> addr set) \<Rightarrow> (nat \<Rightarrow> addr \<Rightarrow> addr) \<Rightarrow> addr \<Rightarrow> fleet \<Rightarrow> bool" for envs W bufs base where
  fl_start: "fleet_start envs W bufs base s \<Longrightarrow> fleet_reach envs W bufs base s"
| fl_next: "fleet_reach envs W bufs base s \<Longrightarrow> fleet_step envs base s s' \<Longrightarrow> prompt (fl_threads s') \<Longrightarrow>
     fleet_reach envs W bufs base s'"

section \<open>What a writer's step leaves alone\<close>

lemma check_open: "block_open nr d \<Longrightarrow> check_rdma_info nr d = Inr False"
  by (simp add: check_rdma_info_def block_open_def check_infos_open)

lemma w_step_alike:
  assumes "w_step env io page off p d = Inr (p', d')" "block_open (unat (get_num_memblock off)) d"
    and "\<And>dma. p = W_Opened dma \<Longrightarrow> sint (atomic_read (drv_batch d)) < CONFIG_BATCH"
  shows "alike d d'"
  using assms(1,3) check_open [OF assms(2)]
  by (cases p) (auto simp: w_step_iffs alike_def same_infos_def post_flow_def clear_stage_def stage_buffer_count_reset_def
      drv_lock_def drv_unlock_def split: if_splits)

lemma w_step_frame:
  assumes "w_step env io page off p d = Inr (p', d')" "io_xa_ok io" "stage_within base (stage_buffer d)" "off_stage base a"
  shows "page_at (kmem d') a = page_at (kmem d) a"
proof (cases "p = W_Stage")
  case True
  have s: "stage_buffer_store True page off (stage_buffer d) (kmem d) = Inr (stage_buffer d', kmem d')"
    using w_step_stage(1) [OF assms(1) True] assms(2) by simp
  have "apart (slot base (sb_index (stage_buffer d))) a"
    using assms(3,4) by (simp add: stage_within_def off_stage_def apart_sym)
  moreover have "kmem d' = kmem d \<or> kmem d' = memcpy (kmem d) (slot base (sb_index (stage_buffer d))) page PAGE_SIZE"
    using s assms(3) by (auto simp: stage_buffer_store_def stage_within_def Let_def split: if_splits)
  ultimately show ?thesis by (auto simp: page_at_memcpy_apart)
next
  case False
  then show ?thesis using w_step_stage(2) [OF assms(1)] by simp
qed

text \<open>How a writer comes to send, to wait and to return.\<close>

lemma w_step_comes:
  assumes "w_step env io page off p d = Inr (p', d')" "active p"
  shows "p' = W_Stage \<Longrightarrow> \<exists>dma. p = W_Send dma" "p' = W_Wait \<Longrightarrow> p = W_Stage" "p' = W_Done 0 \<Longrightarrow> p = W_Wait"
    "p = W_Stage \<Longrightarrow> p' = W_Wait"
    "clearing p' \<Longrightarrow> (\<exists>dma ret. p = W_Clear dma ret) \<or> (\<exists>dma. p = W_Opened dma \<and> CONFIG_BATCH \<le> sint (atomic_read (drv_batch d)))"
  using assms by (cases p; auto simp: w_step_iffs post_flow_def split: if_splits)+

lemma noted_other: "p \<noteq> W_Stage \<Longrightarrow> noted pg off p l k = l k \<or> (\<exists>dma ret. p = W_Clear dma ret) \<and> noted pg off p l k = None"
  by (cases p) auto

section \<open>The invariant\<close>

definition arriving :: "fleet \<Rightarrow> nat \<Rightarrow> u32 \<rightharpoonup> page" where
  "arriving s n = far (fl_server s n) ++ map_of (rev (fl_flight s n))"

text \<open>
  A writer at work: its number has no last page, its page stays as it is, and once sent it is what every
  server has or gets under its number, and what is staged, if anything.
\<close>

definition writer_ok :: "addr \<Rightarrow> fleet \<Rightarrow> addr \<Rightarrow> u32 \<Rightarrow> writer \<Rightarrow> bool" where
  "writer_ok base s page off p \<longleftrightarrow>
     fl_last s off = None \<and> off_stage base page \<and> block_open (unat (get_num_memblock off)) (fl_driver s)
     \<and> (p = W_Stage \<or> p = W_Wait \<longrightarrow>
          (\<forall>n \<in> set (ctrl_list (fl_driver s)). arriving s n off = Some (page_at (kmem (fl_driver s)) page)))
     \<and> (p = W_Wait \<longrightarrow> (\<forall>q. th_last (fl_threads s) off = Some q \<longrightarrow> q = page_at (kmem (fl_driver s)) page))"

definition writers_ok :: "addr \<Rightarrow> fleet \<Rightarrow> bool" where
  "writers_ok base s \<longleftrightarrow>
     (\<forall>t page off p. th_at (fl_threads s) t = (page, off, p) \<longrightarrow> active p \<longrightarrow> writer_ok base s page off p)
     \<and> (\<forall>t u page page' off p q. th_at (fl_threads s) t = (page, off, p) \<longrightarrow> th_at (fl_threads s) u = (page', off, q) \<longrightarrow>
          active p \<longrightarrow> active q \<longrightarrow> t = u)"

text \<open>What is on its way is staged or about to be, and nothing is while the staging buffer is emptied.\<close>

definition flights_ok :: "fleet \<Rightarrow> bool" where
  "flights_ok s \<longleftrightarrow>
     (\<forall>n \<in> set (ctrl_list (fl_driver s)). \<forall>off \<in> fst ` set (fl_flight s n).
        off \<in> dom (th_last (fl_threads s)) \<or> (\<exists>t page. th_at (fl_threads s) t = (page, off, W_Stage)))
     \<and> ((\<exists>t. clearing (at_step (fl_threads s) t)) \<longrightarrow> (\<forall>n. fl_flight s n = []))"

definition pages_ok :: "fleet \<Rightarrow> bool" where
  "pages_ok s \<longleftrightarrow>
     (\<forall>off \<in> dom (fl_last s). block_open (unat (get_num_memblock off)) (fl_driver s))
     \<and> (\<forall>n \<in> set (ctrl_list (fl_driver s)). fl_last s \<subseteq>\<^sub>m arriving s n)
     \<and> (\<forall>off p q. th_last (fl_threads s) off = Some p \<longrightarrow> fl_last s off = Some q \<longrightarrow> p = q)"

definition fleet_ok ::
  "(nat \<Rightarrow> nat \<Rightarrow> block_env) \<Rightarrow> (nat \<Rightarrow> addr set) \<Rightarrow> (nat \<Rightarrow> addr \<Rightarrow> addr) \<Rightarrow> addr \<Rightarrow> fleet \<Rightarrow> bool" where
  "fleet_ok envs W bufs base s \<longleftrightarrow>
     prompt_ok base (fl_threads s) \<and> servers_ok envs W bufs (fl_driver s, fl_server s)
     \<and> (\<exists>n. main_ctrl (fl_driver s) = Ctrl n) \<and> writers_ok base s \<and> flights_ok s \<and> pages_ok s"

section \<open>A writer's step keeps it\<close>

lemma moved_simps [simp]:
  "th_driver (moved T t page off p p' d') = d'" "th_at (moved T t page off p p' d') = (th_at T)(t := (page, off, p'))"
  "th_last (moved T t page off p p' d') = noted (page_at (kmem (th_driver T)) page) off p (th_last T)"
  "at_step (moved T t page off p p' d') u = (if u = t then p' else at_step T u)"
  by (simp_all add: moved_def at_step_def)

lemma moved_step:
  assumes "th_at T t = (page, off, p)" "io_xa_ok io" "w_step env io page off p (th_driver T) = Inr (p', d')"
  shows "threads_step T (moved T t page off p p' d')"
  unfolding moved_def using assms by (rule th_write)

lemma prompt_ok_within: "prompt_ok base T \<Longrightarrow> stage_within base (stage_buffer (th_driver T))"
  by (simp add: prompt_ok_def threads_ok_def)

lemma returned_cases: "returned off pg p' l = (if p' = W_Done 0 then l(off \<mapsto> pg) else l)"
  by (cases p') auto

text \<open>The pages a writer's step adds to those under way.\<close>

lemma arriving_write:
  assumes "n \<in> set (ctrl_list (fl_driver s))"
  shows "arriving (s\<lparr>fl_threads := T, fl_flight := (if b then send_page (ctrl_list (fl_driver s)) off pg (fl_flight s)
      else fl_flight s), fl_last := l\<rparr>) n = (if b then (arriving s n)(off \<mapsto> pg) else arriving s n)"
  using assms by (simp add: arriving_def send_page_def)

definition after_write :: "fleet \<Rightarrow> nat \<Rightarrow> addr \<Rightarrow> u32 \<Rightarrow> writer \<Rightarrow> writer \<Rightarrow> driver \<Rightarrow> fleet" where
  "after_write s t page off p p' d' =
     (let pg = page_at (kmem (fl_driver s)) page in
      s\<lparr>fl_threads := moved (fl_threads s) t page off p p' d',
        fl_flight := (if p' = W_Stage then send_page (ctrl_list (fl_driver s)) off pg (fl_flight s) else fl_flight s),
        fl_last := returned off pg p' (fl_last s)\<rparr>)"

lemma after_write_simps [simp]:
  "fl_threads (after_write s t page off p p' d') = moved (fl_threads s) t page off p p' d'"
  "fl_server (after_write s t page off p p' d') = fl_server s"
  "fl_last (after_write s t page off p p' d') =
     (if p' = W_Done 0 then (fl_last s)(off \<mapsto> page_at (kmem (fl_driver s)) page) else fl_last s)"
  "n \<in> set (ctrl_list (fl_driver s)) \<Longrightarrow> arriving (after_write s t page off p p' d') n =
     (if p' = W_Stage then (arriving s n)(off \<mapsto> page_at (kmem (fl_driver s)) page) else arriving s n)"
  "n \<in> set (ctrl_list (fl_driver s)) \<Longrightarrow> fl_flight (after_write s t page off p p' d') n =
     (if p' = W_Stage then fl_flight s n @ [(off, page_at (kmem (fl_driver s)) page)] else fl_flight s n)"
  by (simp_all add: after_write_def Let_def returned_cases arriving_write) (simp add: send_page_def)

lemma write_keeps_writers:
  assumes ok: "writers_ok base s" and at: "th_at (fl_threads s) t = (page, off, p)" "active p"
    and st: "w_step env io page off p (fl_driver s) = Inr (p', d')" and al: "alike (fl_driver s) d'"
    and fr: "\<And>a. off_stage base a \<Longrightarrow> page_at (kmem d') a = page_at (kmem (fl_driver s)) a"
  shows "writers_ok base (after_write s t page off p p' d')" (is "writers_ok base ?s")
proof -
  have w: "writer_ok base s page off p" using ok at unfolding writers_ok_def by blast
  have other: "writer_ok base ?s pa k q" if q: "th_at (fl_threads s) u = (pa, k, q)" "active q" "u \<noteq> t" for u pa k q
  proof -
    have k: "k \<noteq> off" using ok at q unfolding writers_ok_def by blast
    have "writer_ok base s pa k q" using ok q unfolding writers_ok_def by blast
    moreover have "noted (page_at (kmem (fl_driver s)) page) off p (th_last (fl_threads s)) k \<in> {None, th_last (fl_threads s) k}"
      using k by (cases p) auto
    ultimately show ?thesis using k al fr alike_open [OF al] unfolding writer_ok_def by (auto simp: alike_def)
  qed
  have own: "writer_ok base ?s page off p'" if "active p'"
  proof -
    have "p' \<noteq> W_Done 0" using that by auto
    then show ?thesis
      using w fr al alike_open [OF al] w_step_comes(1,2) [OF st at(2)] unfolding writer_ok_def by (auto simp: alike_def)
  qed
  show ?thesis
    unfolding writers_ok_def
  proof (intro conjI allI impI)
    fix u pa k q
    assume u: "th_at (fl_threads ?s) u = (pa, k, q)" "active q"
    then show "writer_ok base ?s pa k q" using other own by (cases "u = t") auto
    fix v pb r
    assume "th_at (fl_threads ?s) v = (pb, k, r)" "active r"
    then show "u = v" using u ok at unfolding writers_ok_def by (auto split: if_splits)
  qed
qed

lemma write_keeps_flights:
  assumes ok: "flights_ok s" "prompt (fl_threads s)" and at: "th_at (fl_threads s) t = (page, off, p)" "active p"
    and st: "w_step env io page off p (fl_driver s) = Inr (p', d')" and al: "alike (fl_driver s) d'"
    and nc: "\<forall>dma. p = W_Opened dma \<longrightarrow> sint (atomic_read (drv_batch (fl_driver s))) < CONFIG_BATCH"
  shows "flights_ok (after_write s t page off p p' d')" (is "flights_ok ?s")
proof -
  have at': "at_step (fl_threads s) t = p" using at(1) by (simp add: at_step_def)
  note comes = w_step_comes [OF st at(2)]
  have cl: "clearing p' \<Longrightarrow> clearing p" using comes(5) nc by fastforce
  have quiet: "\<forall>n. fl_flight s n = []" if "clearing (at_step (fl_threads s) u)" for u using ok(1) that by (auto simp: flights_ok_def)
  have "k \<in> dom (th_last (fl_threads ?s)) \<or> (\<exists>t page. th_at (fl_threads ?s) t = (page, k, W_Stage))"
    if n: "n \<in> set (ctrl_list (fl_driver s))" and k: "k \<in> fst ` set (fl_flight ?s n)" for n k
  proof (cases "k \<in> fst ` set (fl_flight s n)")
    case True
    then have "\<not> clearing p" using quiet [of t] at' by auto
    then have l: "noted pg off p l k = l k \<or> p = W_Stage \<and> k = off" for pg l by (cases p) auto
    consider "k \<in> dom (th_last (fl_threads s))" | u pa where "th_at (fl_threads s) u = (pa, k, W_Stage)"
      using ok(1) n True unfolding flights_ok_def by blast
    then show ?thesis
    proof cases
      case 1
      then have "k \<in> dom (th_last (fl_threads ?s))"
        using l [of "page_at (kmem (fl_driver s)) page" "th_last (fl_threads s)"] by (auto simp: dom_def)
      then show ?thesis by blast
    next
      case 2
      show ?thesis
      proof (cases "u = t")
        case True
        then show ?thesis using 2 at(1) by (simp add: dom_def)
      next
        case False
        then have "th_at (fl_threads ?s) u = (pa, k, W_Stage)" using 2 by simp
        then show ?thesis by blast
      qed
    qed
  next
    case False
    then have "p' = W_Stage" "k = off" using k n by (auto split: if_splits)
    then have "th_at (fl_threads ?s) t = (page, k, W_Stage)" by simp
    then show ?thesis by blast
  qed
  moreover have "\<forall>n. fl_flight ?s n = []" if "clearing (at_step (fl_threads ?s) u)" for u
  proof -
    have c: "clearing (at_step (fl_threads s) (if u = t then t else u))" using that cl at' by (auto split: if_splits)
    then have "\<not> pending p" using ok(2) at' unfolding prompt_def by metis
    then have "p' \<noteq> W_Stage" using comes(1) by auto
    then show ?thesis using quiet [OF c] by (simp add: after_write_def Let_def)
  qed
  moreover have "ctrl_list (fl_driver ?s) = ctrl_list (fl_driver s)" using al by (simp add: alike_def)
  ultimately show ?thesis unfolding flights_ok_def by metis
qed

lemma write_keeps_pages:
  assumes ok: "pages_ok s" "writer_ok base s page off p" and at: "active p"
    and st: "w_step env io page off p (fl_driver s) = Inr (p', d')" and al: "alike (fl_driver s) d'"
  shows "pages_ok (after_write s t page off p p' d')" (is "pages_ok ?s")
proof -
  let ?pg = "page_at (kmem (fl_driver s)) page"
  note comes = w_step_comes [OF st at]
  have "block_open (unat (get_num_memblock k)) d'" if "k \<in> dom (fl_last ?s)" for k
  proof -
    have "block_open (unat (get_num_memblock k)) (fl_driver s)"
      using that ok by (cases "k = off") (auto simp: pages_ok_def writer_ok_def split: if_splits)
    then show ?thesis using alike_open [OF al] by simp
  qed
  moreover have "fl_last ?s \<subseteq>\<^sub>m arriving ?s n" if n: "n \<in> set (ctrl_list (fl_driver s))" for n
  proof -
    have "fl_last s \<subseteq>\<^sub>m arriving s n" "fl_last s off = None" using ok n by (auto simp: pages_ok_def writer_ok_def)
    moreover have "p' = W_Done 0 \<Longrightarrow> arriving s n off = Some ?pg" using comes(3) ok(2) n by (auto simp: writer_ok_def)
    ultimately show ?thesis using n by (auto simp: map_le_def)
  qed
  moreover have "a = b" if "th_last (fl_threads ?s) k = Some a" "fl_last ?s k = Some b" for k a b
  proof -
    have l: "th_last (fl_threads s) k = Some a \<or> p = W_Stage \<and> k = off" using that(1) by (cases p) (auto split: if_splits)
    show ?thesis
    proof (cases "k = off")
      case True
      then have d: "p' = W_Done 0" "b = ?pg" using that(2) ok(2) by (auto simp: writer_ok_def split: if_splits)
      then have "p = W_Wait" using comes(3) by simp
      then show ?thesis using l True d ok(2) by (auto simp: writer_ok_def)
    next
      case False
      then have "fl_last s k = Some b" using that(2) by (auto split: if_splits)
      then show ?thesis using l False ok(1) by (auto simp: pages_ok_def)
    qed
  qed
  ultimately show ?thesis using al unfolding pages_ok_def by (auto simp: alike_def)
qed

lemma fleet_write_ok:
  assumes ok: "fleet_ok envs W bufs base s" "prompt (fl_threads s)" and at: "th_at (fl_threads s) t = (page, off, p)" "active p"
    and st: "w_step env io page off p (fl_driver s) = Inr (p', d')" and xa: "io_xa_ok io"
    and nc: "\<forall>dma. p = W_Opened dma \<longrightarrow> sint (atomic_read (drv_batch (fl_driver s))) < CONFIG_BATCH"
  shows "fleet_ok envs W bufs base (after_write s t page off p p' d')"
proof -
  have parts: "prompt_ok base (fl_threads s)" "servers_ok envs W bufs (fl_driver s, fl_server s)"
      "\<exists>n. main_ctrl (fl_driver s) = Ctrl n" "writers_ok base s" "flights_ok s" "pages_ok s"
    using ok(1) by (auto simp: fleet_ok_def)
  have w: "writer_ok base s page off p" using parts(4) at unfolding writers_ok_def by blast
  then have al: "alike (fl_driver s) d'" using nc by (intro w_step_alike [OF st]) (auto simp: writer_ok_def)
  have "prompt_ok base (moved (fl_threads s) t page off p p' d')"
    using threads_step_prompt [OF moved_step [OF at(1) xa st] parts(1) ok(2)] .
  moreover have "servers_ok envs W bufs (d', fl_server s)"
    using servers_ok_cong [OF parts(2)] servers_okD [OF parts(2)] al by (simp add: alike_def)
  moreover have "writers_ok base (after_write s t page off p p' d')"
    using w_step_frame [OF st xa prompt_ok_within [OF parts(1)]] by (intro write_keeps_writers [OF parts(4) at st al])
  ultimately show ?thesis
    using write_keeps_flights [OF parts(5) ok(2) at st al nc] write_keeps_pages [OF parts(6) w at(2) st al] parts(3) al
    by (auto simp: fleet_ok_def alike_def)
qed

section \<open>A commit keeps it\<close>

lemma commit_begin_sends:
  assumes "commit_begin env d = Inr (0, d')" "distinct (ctrl_list d)" "n \<in> set (ctrl_list d)" "alive (ctrls d n)"
  shows "sent_one commit_opcode d d' n"
proof -
  obtain d1 where d1: "commit_each (\<lambda>n. commit_call env n commit_opcode) (ctrl_list d) 0 d = Inr (0, d1)"
      "d' = d1\<lparr>drv_batch := atomic_set (drv_batch d1) 0\<rparr>"
    using assms(1) by (auto simp: commit_begin_def rbind_Inr_iff deref_Inr_iff ib_rpc_commit_unlocked_def [abs_def])
  then show ?thesis using commit_each_sends [OF d1(1) assms(2)] assms(3,4) by (auto simp: sent_one_def)
qed

lemma commit_begin_alike:
  assumes "commit_begin env d = Inr (ret, d')"
  shows "alike d d'"
proof -
  obtain d1 where d1: "commit_each (ib_rpc_commit_unlocked env) (ctrl_list d) 0 d = Inr (ret, d1)"
      "d' = d1\<lparr>drv_batch := atomic_set (drv_batch d1) 0\<rparr>"
    using assms by (auto simp: commit_begin_def rbind_Inr_iff deref_Inr_iff)
  then show ?thesis using commit_each_frame [OF commit_unlocked_frame(1) d1(1)] commit_each_infos [OF d1(1)]
    by (simp add: alike_def same_core_def same_infos_def)
qed

lemma commit_keeps_servers:
  assumes "servers_ok envs W bufs (d, srv)" "commit_begin env d = Inr (0, d')" "ready_to_commit d srv"
    and "commit_servers envs (commit_request rid d') (ctrl_list d) srv = Some srv'"
  shows "servers_ok envs W bufs (d', srv') \<and> (\<forall>n \<in> set (ctrl_list d). far (srv' n) = far (srv n))"
proof -
  have dist: "distinct (ctrl_list d)" using assms(1) by (simp add: servers_ok_def)
  have "serving (envs n) (W n) (bufs n) (srv n)
      \<and> (commit_list (srv n) = [] \<or> enough_pages (imm_data (commit_request rid d' n)) (srv n))" if n: "n \<in> set (ctrl_list d)" for n
    using servers_okD [OF assms(1) n] assms(3) n commit_request_enough commit_begin_sends [OF assms(2) dist n]
    unfolding ready_to_commit_def by blast
  then have "\<forall>n \<in> set (ctrl_list d). far (srv' n) = far (srv n) \<and> serving (envs n) (W n) (bufs n) (srv' n)"
    using commit_servers_far [of "ctrl_list d" envs W bufs srv "commit_request rid d'"] dist assms(4) by auto
  then show ?thesis
    using servers_ok_cong [OF assms(1)] commit_begin_alike [OF assms(2)] by (simp add: alike_def)
qed

lemma fleet_commit_ok:
  assumes ok: "fleet_ok envs W bufs base s" "prompt (fl_threads s)"
    and at: "th_at (fl_threads s) t = (page, off, W_Opened dma)" and xa: "io_xa_ok io"
    and full: "CONFIG_BATCH \<le> sint (atomic_read (drv_batch (fl_driver s)))" and quiet: "\<forall>n. fl_flight s n = []"
    and ready: "ready_to_commit (fl_driver s) (fl_server s)"
    and st: "w_step env io page off (W_Opened dma) (fl_driver s) = Inr (W_Clear dma 0, d')"
    and sv: "commit_servers envs (commit_request rid d') (ctrl_list (fl_driver s)) (fl_server s) = Some srv'"
  shows "fleet_ok envs W bufs base (s\<lparr>fl_threads := moved (fl_threads s) t page off (W_Opened dma) (W_Clear dma 0) d',
    fl_server := srv'\<rparr>)" (is "fleet_ok _ _ _ _ ?s")
proof -
  have parts: "prompt_ok base (fl_threads s)" "servers_ok envs W bufs (fl_driver s, fl_server s)"
      "\<exists>n. main_ctrl (fl_driver s) = Ctrl n" "writers_ok base s" "pages_ok s"
    using ok(1) by (auto simp: fleet_ok_def)
  have cb: "commit_begin env (fl_driver s) = Inr (0, d')" using st full by (auto simp: rbind_Inr_iff)
  have al: "alike (fl_driver s) d'" by (rule commit_begin_alike [OF cb])
  have mem: "kmem d' = kmem (fl_driver s)" using commit_begin_keeps [OF cb] by simp
  note srv = commit_keeps_servers [OF parts(2) cb ready sv]
  have arr: "arriving ?s n = arriving s n" if "n \<in> set (ctrl_list (fl_driver s))" for n using srv that by (simp add: arriving_def)
  have wok: "writer_ok base ?s pa k q = writer_ok base s pa k q" for pa k q
    using al arr mem alike_open [OF al] by (simp add: writer_ok_def alike_def)
  have own: "writer_ok base s page off (W_Opened dma)" using parts(4) at unfolding writers_ok_def by fastforce
  have "writer_ok base s page off (W_Clear dma 0)" using own by (simp add: writer_ok_def)
  then have "writers_ok base ?s"
    using parts(4) at unfolding writers_ok_def wok by (auto split: if_splits)
  moreover have "prompt_ok base (fl_threads ?s)"
    using threads_step_prompt [OF moved_step [OF at xa st] parts(1) ok(2)] by simp
  moreover have "pages_ok ?s" using parts(5) al arr alike_open [OF al] by (simp add: pages_ok_def alike_def)
  ultimately show ?thesis using srv parts(3) al quiet by (auto simp: fleet_ok_def flights_ok_def alike_def)
qed

section \<open>The other steps\<close>

lemma fleet_new_ok:
  assumes ok: "fleet_ok envs W bufs base s" and at: "at_step (fl_threads s) t = W_Done ret" "off_stage base page"
    and op: "block_open (unat (get_num_memblock off)) (fl_driver s)"
    and free: "\<forall>u page' q. th_at (fl_threads s) u = (page', off, q) \<longrightarrow> \<not> active q" and pr: "prompt (fl_threads s)"
  shows "fleet_ok envs W bufs base
    (s\<lparr>fl_threads := (fl_threads s)\<lparr>th_at := (th_at (fl_threads s))(t := (page, off, W_Start))\<rparr>,
       fl_last := (fl_last s)(off := None)\<rparr>)" (is "fleet_ok _ _ _ _ ?s")
proof -
  have parts: "prompt_ok base (fl_threads s)" "writers_ok base s" "flights_ok s" "pages_ok s"
    using ok by (auto simp: fleet_ok_def)
  have arr: "arriving ?s n = arriving s n" for n by (simp add: arriving_def)
  obtain pa k where old: "th_at (fl_threads s) t = (pa, k, W_Done ret)" using at(1) by (cases "th_at (fl_threads s) t") (auto simp: at_step_def)
  have "prompt_ok base (fl_threads ?s)" using threads_step_prompt [OF th_new [OF at(1)] parts(1) pr] by simp
  moreover have "writers_ok base ?s"
  proof -
    have "writer_ok base ?s pb j q" if "th_at (fl_threads s) u = (pb, j, q)" "active q" for u pb j q
    proof -
      have "writer_ok base s pb j q" using parts(2) that unfolding writers_ok_def by blast
      then show ?thesis unfolding writer_ok_def by (simp add: arr)
    qed
    moreover have "writer_ok base ?s page off W_Start" using at(2) op by (simp add: writer_ok_def)
    moreover have "\<forall>u v pb pc j q r. th_at (fl_threads s) u = (pb, j, q) \<longrightarrow> th_at (fl_threads s) v = (pc, j, r) \<longrightarrow>
        active q \<longrightarrow> active r \<longrightarrow> u = v" using parts(2) unfolding writers_ok_def by blast
    ultimately show ?thesis using free unfolding writers_ok_def by (auto split: if_splits)
  qed
  moreover have "flights_ok ?s"
    unfolding flights_ok_def
  proof (intro conjI ballI impI)
    fix n k
    assume "n \<in> set (ctrl_list (fl_driver ?s))" "k \<in> fst ` set (fl_flight ?s n)"
    then consider "k \<in> dom (th_last (fl_threads s))" | u pb where "th_at (fl_threads s) u = (pb, k, W_Stage)"
      using parts(3) unfolding flights_ok_def by fastforce
    then show "k \<in> dom (th_last (fl_threads ?s)) \<or> (\<exists>t page. th_at (fl_threads ?s) t = (page, k, W_Stage))"
    proof cases
      case 2
      then have "th_at (fl_threads ?s) u = (pb, k, W_Stage)" using old by auto
      then show ?thesis by blast
    qed simp
  next
    assume "\<exists>u. clearing (at_step (fl_threads ?s) u)"
    then have "\<exists>u. clearing (at_step (fl_threads s) u)" by (auto split: if_splits)
    then show "\<forall>n. fl_flight ?s n = []" using parts(3) by (simp add: flights_ok_def)
  qed
  moreover have "pages_ok ?s" using parts(4) arr by (auto simp: pages_ok_def map_le_def)
  ultimately show ?thesis using ok by (simp add: fleet_ok_def)
qed

lemma fleet_deliver_ok:
  assumes ok: "fleet_ok envs W bufs base s"
    and fl: "fl_flight s n = (off, p) # rest" and sv: "serve_page (envs n) off p (fl_server s n) = Some v"
  shows "fleet_ok envs W bufs base (s\<lparr>fl_server := (fl_server s)(n := v), fl_flight := (fl_flight s)(n := rest)\<rparr>)"
    (is "fleet_ok _ _ _ _ ?s")
proof -
  have parts: "servers_ok envs W bufs (fl_driver s, fl_server s)" "writers_ok base s" "flights_ok s" "pages_ok s"
    using ok by (auto simp: fleet_ok_def)
  have grow: "arriving s k \<subseteq>\<^sub>m arriving ?s k" if k: "k \<in> set (ctrl_list (fl_driver s))" for k
  proof (cases "k = n")
    case True
    have g: "(far (fl_server s n))(off \<mapsto> p) \<subseteq>\<^sub>m far v"
      using far_memory.write_grows [OF servers_okD [OF parts(1) k] ] sv True by simp
    have "arriving s n = (far (fl_server s n))(off \<mapsto> p) ++ map_of (rev rest)" by (simp add: arriving_def fl)
    then show ?thesis
      using g True by (auto simp: arriving_def map_le_def map_add_def dom_def split: option.splits)
  next
    case False
    then show ?thesis by (simp add: arriving_def)
  qed
  have "serving (envs k) (W k) (bufs k) (((fl_server s)(n := v)) k)" if "k \<in> set (ctrl_list (fl_driver s))" for k
    using servers_okD [OF parts(1) that] far_memory.write_inv [OF _ sv, of "W n" "bufs n"] by (cases "k = n") simp_all
  then have "servers_ok envs W bufs (fl_driver s, (fl_server s)(n := v))"
    using servers_ok_cong [OF parts(1)] by (simp add: same_infos_def)
  moreover have "writer_ok base ?s pa k q" if "writer_ok base s pa k q" for pa k q
    using that grow unfolding writer_ok_def by (auto simp: map_le_def dom_def)
  then have "writers_ok base ?s" using parts(2) unfolding writers_ok_def by simp
  moreover have "flights_ok ?s" using parts(3) fl by (fastforce simp: flights_ok_def)
  moreover have "pages_ok ?s" using parts(4) grow map_le_trans unfolding pages_ok_def by fastforce
  ultimately show ?thesis using ok by (simp add: fleet_ok_def)
qed

text \<open>The kernel, or a load, writes into a page that is neither staged nor being stored.\<close>

lemma prompt_ok_mem:
  assumes "prompt_ok base T" "stage_buffer d' = stage_buffer (th_driver T)" "drv_spin d' = drv_spin (th_driver T)"
    "drv_batch d' = drv_batch (th_driver T)"
    and "staged (stage_buffer d') (kmem d') = staged (stage_buffer (th_driver T)) (kmem (th_driver T))"
  shows "prompt_ok base (T\<lparr>th_driver := d'\<rparr>)"
  using assms by (simp add: prompt_ok_def threads_ok_def waiting_def at_step_def)

lemma fleet_mem_ok:
  assumes ok: "fleet_ok envs W bufs base s" and page: "off_stage base page" "unused page s"
    and d': "stage_buffer d' = stage_buffer (fl_driver s)" "drv_spin d' = drv_spin (fl_driver s)"
      "drv_batch d' = drv_batch (fl_driver s)" "alike (fl_driver s) d'"
    and mem: "\<And>a. apart page a \<Longrightarrow> page_at (kmem d') a = page_at (kmem (fl_driver s)) a"
  shows "fleet_ok envs W bufs base (s\<lparr>fl_threads := (fl_threads s)\<lparr>th_driver := d'\<rparr>\<rparr>)" (is "fleet_ok _ _ _ _ ?s")
proof -
  have parts: "prompt_ok base (fl_threads s)" "servers_ok envs W bufs (fl_driver s, fl_server s)"
      "writers_ok base s" "flights_ok s" "pages_ok s"
    using ok by (auto simp: fleet_ok_def)
  have "stage_ok base (stage_buffer (fl_driver s))" using parts(1) by (simp add: prompt_ok_def)
  then have "staged (stage_buffer d') (kmem d') = staged (stage_buffer (fl_driver s)) (kmem (fl_driver s))"
    unfolding d'(1) by (rule staged_cong) (use page(1) mem in \<open>auto simp: off_stage_def\<close>)
  then have "prompt_ok base (fl_threads ?s)" using prompt_ok_mem [OF parts(1) d'(1-3)] by simp
  moreover have "servers_ok envs W bufs (d', fl_server s)"
    using servers_ok_cong [OF parts(2)] servers_okD [OF parts(2)] d'(4) by (simp add: alike_def)
  moreover have arr: "arriving ?s n = arriving s n" for n by (simp add: arriving_def)
  moreover have "writer_ok base ?s pa k q" if "th_at (fl_threads s) u = (pa, k, q)" "active q" for u pa k q
  proof -
    have "writer_ok base s pa k q" using parts(3) that unfolding writers_ok_def by blast
    moreover have "page_at (kmem d') pa = page_at (kmem (fl_driver s)) pa" using page(2) that mem unfolding unused_def by blast
    ultimately show ?thesis using d'(4) alike_open [OF d'(4)] by (simp add: writer_ok_def alike_def arr)
  qed
  then have "writers_ok base ?s" using parts(3) unfolding writers_ok_def by simp
  moreover have "flights_ok ?s" using parts(4) d'(4) by (simp add: flights_ok_def alike_def at_step_def)
  moreover have "pages_ok ?s" using parts(5) d'(4) alike_open [OF d'(4)] arr by (simp add: pages_ok_def alike_def)
  ultimately show ?thesis using ok d'(4) by (simp add: fleet_ok_def alike_def)
qed

section \<open>Runs\<close>

lemma system_load_reads:
  assumes "system_load io pageid page (d, srv) = Some (p, d')"
  shows "\<exists>ret. maruswap_rdma_read io page (ucast pageid) d = Inr (ret, d')"
  using assms by (auto simp: system_load_def maruswap_load_def rbind_Inr_iff split: sum.splits if_splits ctrl_ptr.splits)

lemma fleet_load_ok:
  assumes ok: "fleet_ok envs W bufs base s" and page: "off_stage base page" "unused page s"
    and ld: "system_load io pageid page (fl_driver s, fl_server s) = Some (p, d')"
  shows "fleet_ok envs W bufs base (s\<lparr>fl_threads := (fl_threads s)\<lparr>th_driver := d'\<lparr>kmem := put_page (kmem d') page p\<rparr>\<rparr>\<rparr>)"
proof -
  obtain ret where "maruswap_rdma_read io page (ucast pageid) (fl_driver s) = Inr (ret, d')"
    using system_load_reads [OF ld] by blast
  note k = read_keeps [OF this]
  have "page_at (put_page (kmem d') page p) a = page_at (kmem (fl_driver s)) a" if "apart page a" for a
    using k that by (auto simp: page_at_put_page_apart page_at_memcpy_apart)
  then show ?thesis
    using k by (intro fleet_mem_ok [OF ok page]) (simp_all add: alike_def same_infos_def)
qed

lemma fleet_kernel_ok:
  assumes ok: "fleet_ok envs W bufs base s" and page: "off_stage base page" "unused page s"
  shows "fleet_ok envs W bufs base
    (s\<lparr>fl_threads := (fl_threads s)\<lparr>th_driver := (fl_driver s)\<lparr>kmem := put_page (kmem (fl_driver s)) page p\<rparr>\<rparr>\<rparr>)"
  by (rule fleet_mem_ok [OF ok page]) (simp_all add: alike_def same_infos_def page_at_put_page_apart)

lemma fleet_step_ok:
  assumes "fleet_step envs base s s'" "fleet_ok envs W bufs base s" "prompt (fl_threads s)"
  shows "fleet_ok envs W bufs base s'"
  using assms(1)
proof cases
  case (fl_write t page off p io env p' d' pg)
  from fleet_write_ok [OF assms(2,3) this(2,3,6,4,5)] show ?thesis unfolding fl_write(1,7) after_write_def Let_def .
next
  case (fl_commit t page off dma io env d' rid srv')
  from fleet_commit_ok [OF assms(2,3) this(2-8)] show ?thesis by (simp only: fl_commit(1))
next
  case (fl_new t ret page off)
  from fleet_new_ok [OF assms(2) this(2-5) assms(3)] show ?thesis by (simp only: fl_new(1))
next
  case (fl_deliver n off p rest v)
  from fleet_deliver_ok [OF assms(2) this(2,3)] show ?thesis by (simp only: fl_deliver(1))
next
  case (fl_load io pageid page p d')
  from fleet_load_ok [OF assms(2) this(3,4,2)] show ?thesis by (simp only: fl_load(1))
next
  case (fl_kernel page p)
  from fleet_kernel_ok [OF assms(2) this(2,3)] show ?thesis by (simp only: fl_kernel(1))
qed

lemma clearing_active: "clearing p \<Longrightarrow> active p"
  by (cases p) simp_all

lemma idle_prompt: "\<forall>t. \<not> active (at_step T t) \<Longrightarrow> prompt T"
  unfolding prompt_def using clearing_active by blast

lemma fleet_start_ok:
  assumes "fleet_start envs W bufs base s"
  shows "fleet_ok envs W bufs base s \<and> prompt (fl_threads s)"
proof -
  have idle: "\<forall>t. \<not> active (at_step (fl_threads s) t)" using assms by (simp add: fleet_start_def)
  have n: "\<not> crit p" "\<not> pending p" "\<not> clearing p" "batch_at p b" "p \<noteq> W_Reset dma ret" if "\<not> active p" for p b dma ret
    using that by (cases p; simp)+
  have w: "waiting (fl_threads s) = {}" using idle n(2) by (simp add: waiting_def)
  have "prompt_ok base (fl_threads s)"
    using assms idle n w by (auto simp: fleet_start_def prompt_ok_def threads_ok_def lock_ok_def driver_ok_def stage_ok_within)
  moreover have "writers_ok base s"
    using idle unfolding writers_ok_def at_step_def by (metis snd_conv)
  ultimately show ?thesis
    using assms n(3) idle_prompt [OF idle] by (auto simp: fleet_start_def fleet_ok_def flights_ok_def pages_ok_def)
qed

lemma fleet_reach_ok: "fleet_reach envs W bufs base s \<Longrightarrow> fleet_ok envs W bufs base s \<and> prompt (fl_threads s)"
  by (induction rule: fleet_reach.induct) (auto intro: fleet_start_ok [THEN conjunct1] fleet_start_ok [THEN conjunct2] fleet_step_ok)

section \<open>Loads\<close>

lemma fleet_staged_or_far:
  assumes ok: "fleet_ok envs W bufs base s" and last: "fl_last s off = Some p" and n: "n \<in> set (ctrl_list (fl_driver s))"
  shows "staged (stage_buffer (fl_driver s)) (kmem (fl_driver s)) off = Some p
    \<or> (staged (stage_buffer (fl_driver s)) (kmem (fl_driver s)) off = None \<and> far (fl_server s n) off = Some p)"
proof -
  have st: "staged (stage_buffer (fl_driver s)) (kmem (fl_driver s)) = th_last (fl_threads s)"
    and pages: "pages_ok s" "writers_ok base s" "flights_ok s" using ok by (auto simp: fleet_ok_def prompt_ok_def)
  show ?thesis
  proof (cases "th_last (fl_threads s) off")
    case None
    have "\<not> (\<exists>t page. th_at (fl_threads s) t = (page, off, W_Stage))"
      using pages(2) last unfolding writers_ok_def writer_ok_def by fastforce
    then have "off \<notin> fst ` set (fl_flight s n)" using pages(3) n None unfolding flights_ok_def by blast
    then have "map_of (rev (fl_flight s n)) off = None" by (simp add: map_of_eq_None_iff)
    moreover have "arriving s n off = Some p" using pages(1) n last unfolding pages_ok_def by (metis domI map_le_def)
    ultimately show ?thesis using None st by (simp add: arriving_def map_add_def)
  next
    case (Some q)
    then show ?thesis using pages(1) last st unfolding pages_ok_def by auto
  qed
qed

text \<open>
  C2: Stores by any number of processors at once, their steps interleaved, packets that reach each server in their own
  time, commits and loads among them: as long as no page is staged late, no commit finds a
  packet on its way and the kernel keeps off a page that is being stored, a load of a number returns
  the page of the last store under it that returned 0, from the staging buffer or from whichever server it asks.
\<close>

theorem concurrent_loads_return_last:
  assumes "fleet_reach envs W bufs base s" "fl_last s (ucast pageid) = Some p"
    and "read_target io (fl_driver s) = Ctrl n" "n \<in> set (ctrl_list (fl_driver s))" "io_good io dma"
  shows "\<exists>d'. system_load io pageid page (fl_driver s, fl_server s) = Some (p, d')"
proof -
  have ok: "fleet_ok envs W bufs base s" using fleet_reach_ok [OF assms(1)] by blast
  then have s: "servers_ok envs W bufs (fl_driver s, fl_server s)" "\<exists>n. main_ctrl (fl_driver s) = Ctrl n" "pages_ok s"
    by (auto simp: fleet_ok_def)
  have "block_open (unat (get_num_memblock (ucast pageid))) (fl_driver s)" using s(3) assms(2) unfolding pages_ok_def by blast
  then show ?thesis
    using fleet_staged_or_far [OF ok assms(2,4)] load_staged [of "fl_driver s" pageid p io n page "fl_server s"]
      load_remote [OF s(1) _ assms(3,4) _ _ assms(5)] s(2) assms(3) by blast
qed

text \<open>A writer that nobody interferes with, with room in the batch.\<close>

fun early :: "writer \<Rightarrow> bool" where
  "early W_Start = True" | "early (W_Mapped _) = True" | "early (W_Locked _) = True" | "early (W_Opened _) = True" | "early _ = False"

lemma w_step_early:
  assumes "w_step env io page off p d = Inr (p', d')" "active p" "early p'"
  shows "early p \<and> \<not> clearing p' \<and> (\<nexists>dma. p = W_Ready dma)"
  using assms by (cases p) (auto simp: w_step_iffs split: if_splits)

lemma done_steps: "w_step env io page off (W_Done r) d = Inr (W_Done r, d)" "noted pg off (W_Done r) l = l"
  by simp_all

lemma fleet_go:
  "w_go n env io page off (p, fl_driver s, th_last (fl_threads s)) = Inr (p', d', l') \<Longrightarrow> io_xa_ok io \<Longrightarrow>
   th_at (fl_threads s) t = (page, off, p) \<Longrightarrow> \<forall>u. u \<noteq> t \<longrightarrow> (\<exists>r. at_step (fl_threads s) u = W_Done r) \<Longrightarrow>
   (early p \<Longrightarrow> uint (atomic_read (drv_batch (fl_driver s))) < CONFIG_BATCH) \<Longrightarrow> \<not> clearing p \<Longrightarrow>
   (p = W_Done 0 \<longrightarrow> fl_last s off = Some pg) \<Longrightarrow> (active p \<longrightarrow> page_at (kmem (fl_driver s)) page = pg) \<Longrightarrow>
   fleet_reach envs W bufs base s \<Longrightarrow>
   \<exists>fl la. fleet_reach envs W bufs base (s\<lparr>fl_threads := (fl_threads s)\<lparr>th_driver := d',
       th_at := (th_at (fl_threads s))(t := (page, off, p')), th_last := l'\<rparr>, fl_flight := fl, fl_last := la\<rparr>)
     \<and> (p' = W_Done 0 \<longrightarrow> la off = Some pg)"
proof (induction n arbitrary: s p)
  case 0
  have "s\<lparr>fl_threads := (fl_threads s)\<lparr>th_driver := d', th_at := (th_at (fl_threads s))(t := (page, off, p')), th_last := l'\<rparr>,
      fl_flight := fl_flight s, fl_last := fl_last s\<rparr> = s"
    using 0(1,3) by (auto simp: fun_upd_idem)
  then show ?case using 0 by (metis w_go.simps(1) Pair_inject sum.inject(2))
next
  case (Suc n)
  obtain p1 d1 where st: "w_step env io page off p (fl_driver s) = Inr (p1, d1)"
    and rest: "w_go n env io page off (p1, d1, noted (page_at (kmem (fl_driver s)) page) off p (th_last (fl_threads s))) = Inr (p', d', l')"
    using Suc.prems(1) by (auto simp: rbind_Inr_iff)
  show ?case
  proof (cases "active p")
    case False
    then obtain r where "p = W_Done r" by (cases p) auto
    then show ?thesis using Suc.IH [of p s] Suc.prems rest st by simp
  next
    case True
    let ?s = "after_write s t page off p p1 d1"
    have ok: "fleet_ok envs W bufs base s" using fleet_reach_ok [OF Suc.prems(9)] by blast
    have thr: "threads_ok base (fl_threads s)" "writers_ok base s" using ok by (auto simp: fleet_ok_def prompt_ok_def)
    have b: "batch_at p (atomic_read (drv_batch (fl_driver s)))" using thr(1) Suc.prems(3) unfolding threads_ok_def at_step_def by (metis snd_conv)
    have pg: "page_at (kmem (fl_driver s)) page = pg" using Suc.prems(8) True by simp
    have w: "writer_ok base s page off p" using thr(2) Suc.prems(3) True unfolding writers_ok_def by blast
    have room: "\<forall>dma. p = W_Opened dma \<longrightarrow> sint (atomic_read (drv_batch (fl_driver s))) < CONFIG_BATCH"
      using Suc.prems(5) batch_sint [of "atomic_read (drv_batch (fl_driver s))"] by auto
    have nc: "\<not> clearing p1" using w_step_comes(5) [OF st True] room Suc.prems(6) by fastforce
    have o: "\<forall>u. u \<noteq> t \<longrightarrow> (\<exists>r. at_step (fl_threads ?s) u = W_Done r)" using Suc.prems(4) by simp
    have "fleet_step envs base s ?s"
      unfolding after_write_def Let_def by (rule fl_write [OF Suc.prems(3) True Suc.prems(2) room st refl])
    from fl_next [OF Suc.prems(9) this alone_prompt [OF o]] have reach: "fleet_reach envs W bufs base ?s" .
    have e: "uint (atomic_read (drv_batch d1)) < CONFIG_BATCH" if "early p1"
      using w_step_early [OF st True that] w_step_count [OF st b] Suc.prems(5) by simp
    have "page_at (kmem d1) page = pg"
      using w_step_frame [OF st Suc.prems(2), of base page] thr(1) w pg by (simp add: threads_ok_def writer_ok_def)
    then show ?thesis
      using Suc.IH [of p1 ?s] rest Suc.prems(2) o e nc reach pg
      by (simp add: after_write_def Let_def moved_def returned_cases fun_upd_same del: fun_upd_apply)
  qed
qed

theorem concurrent_loads_return_last_witness:
  "\<exists>s d'. fleet_reach (\<lambda>_. ex_env) (\<lambda>_. ex_works) (\<lambda>_. ex_bufs) ex_base s
    \<and> th_at (fl_threads s) 0 = (0x5000, 5, W_Done 0)
    \<and> system_load ex_io 5 0x6000 (fl_driver s, fl_server s) = Some (ex_page, d')"
proof -
  let ?reach = "fleet_reach (\<lambda>_. ex_env) (\<lambda>_. ex_works) (\<lambda>_. ex_bufs) ex_base"
  define T where "T = (ex_threads 3)\<lparr>th_at := (th_at (ex_threads 3))(0 := (0x5000, 5, W_Start))\<rparr>"
  let ?s0 = "\<lparr>fl_threads = ex_threads 3, fl_server = ex_servers 0, fl_flight = \<lambda>_. [], fl_last = Map.empty\<rparr>"
  let ?s1 = "\<lparr>fl_threads = T, fl_server = ex_servers 0, fl_flight = \<lambda>_. [], fl_last = Map.empty\<rparr>"
  have k: "uint (3 :: u32) < CONFIG_BATCH" by (simp add: CONFIG_BATCH_def)
  have st: "staged ex_stage m = Map.empty" for m by (simp add: staged_def ex_stage_def xa_load_def fun_eq_iff)
  have d0: "main_ctrl (ex_driver 3) = Ctrl 0" "drv_spin (ex_driver 3) = 0" "block_open (unat (get_num_memblock 5)) (ex_driver 3)"
    "uint (atomic_read (drv_batch (ex_driver 3))) < CONFIG_BATCH"
    by (simp_all add: k) (simp add: ex_driver_def)
  have T: "th_driver T = ex_driver 3" "th_last T = Map.empty" "th_at T 0 = (0x5000, 5, W_Start)" "u \<noteq> 0 \<Longrightarrow> at_step T u = W_Done 0" for u
    by (simp_all add: T_def ex_threads_def at_step_def)
  have r0: "?reach ?s0"
    using ex_driver_ok [of 3] k ex_servers_ok st d0
    by (intro fl_start) (simp add: fleet_start_def ex_threads_def at_step_def)
  have "fleet_step (\<lambda>_. ex_env) ex_base ?s0 (?s0\<lparr>fl_threads := (fl_threads ?s0)\<lparr>th_at := (th_at (fl_threads ?s0))(0 := (0x5000, 5, W_Start))\<rparr>,
      fl_last := (fl_last ?s0)(5 := None)\<rparr>)"
    using d0 by (intro fl_new [where ret = 0]) (simp_all add: ex_threads_def at_step_def off_stage_def ex_slots_apart)
  then have "fleet_step (\<lambda>_. ex_env) ex_base ?s0 ?s1" by (simp add: T_def)
  moreover have "prompt T" using T(4) by (intro alone_prompt [of 0]) blast
  ultimately have r1: "?reach ?s1" using fl_next [OF r0] by simp
  obtain d1 where d1: "w_go 6 (ex_call commit_opcode) ex_io 0x5000 5 (W_Start, ex_driver 3, Map.empty) = Inr (W_Stage, d1, Map.empty)"
      "alike (ex_driver 3) d1" "stage_buffer d1 = ex_stage" "kmem d1 = kmem (ex_driver 3)"
    using go_count [OF d0 ex_io_good, of "ex_call commit_opcode" "0x5000" Map.empty] by auto
  have "sb_buffer (stage_buffer d1) = ex_base" "ex_base \<noteq> NULL" "sb_count (stage_buffer d1) < CONFIG_BATCH"
    by (simp_all add: d1(3) ex_stage_def ex_base_def CONFIG_BATCH_def)
  from go_stage [OF ex_io_good store_slot [OF this]]
  obtain d2 where d2: "w_go 2 (ex_call commit_opcode) ex_io 0x5000 5 (W_Stage, d1, Map.empty)
      = Inr (W_Done 0, d2, Map.empty(5 \<mapsto> page_at (kmem d1) 0x5000))" "alike d1 d2" by blast
  have "w_go (6 + 2) (ex_call commit_opcode) ex_io 0x5000 5 (W_Start, ex_driver 3, Map.empty)
      = Inr (W_Done 0, d2, [5 \<mapsto> ex_page])"
    by (simp only: w_go_add) (simp add: d1(1,4) d2 ex_page_stored)
  then have go: "w_go 8 (ex_call commit_opcode) ex_io 0x5000 5 (W_Start, fl_driver ?s1, th_last (fl_threads ?s1))
      = Inr (W_Done 0, d2, [5 \<mapsto> ex_page])" by (simp add: T)
  obtain fl la where r2: "?reach (?s1\<lparr>fl_threads := T\<lparr>th_driver := d2, th_at := (th_at T)(0 := (0x5000, 5, W_Done 0)), th_last := [5 \<mapsto> ex_page]\<rparr>,
      fl_flight := fl, fl_last := la\<rparr>)" (is "fleet_reach _ _ _ _ ?s2") and la: "la 5 = Some ex_page"
    using fleet_go [OF go, of 0 ex_page "\<lambda>_. ex_env" "\<lambda>_. ex_works" "\<lambda>_. ex_bufs" ex_base] r1 d0 T ex_page_stored ex_io_good
    by (auto simp: io_good_def)
  have al: "alike (ex_driver 3) d2" using alike_trans [OF d1(2) d2(2)] .
  then have t: "read_target ex_io d2 = Ctrl 1" "1 \<in> set (ctrl_list d2)"
    using ex_targets read_target_cong [of d2 "ex_driver 3"] by (simp_all add: alike_def)
  have "\<exists>d'. system_load ex_io 5 0x6000 (fl_driver ?s2, fl_server ?s2) = Some (ex_page, d')"
    by (rule concurrent_loads_return_last [OF r2 _ _ _ ex_io_good, of _ _ 1]) (use t la in simp_all)
  then obtain d' where "system_load ex_io 5 0x6000 (fl_driver ?s2, fl_server ?s2) = Some (ex_page, d')" ..
  then show ?thesis by (intro exI [of _ ?s2] exI [of _ d'] conjI) (rule r2, simp_all)
qed

end
