(* ===== verification/Server_Threads.thy ===== *)
theory Server_Threads
  imports Instance
begin

text \<open>
  The two threads of a server at once (\<open>lib/handler.c\<close>). The multicast thread puts a page's receive on
  the commit list before it takes the lock under which it copies the page; the RDMA thread works
  through the commit list under that lock as soon as 512 pages are counted, half of the driver's
  batch. Here both handlers are sequences of steps, packets arrive at any time, and the steps interleave. The
  \<open>page\<close> beside a completion is what the packet carried, and \<open>sv_past\<close> lists the pages the multicast thread
  is done with, the latest first; the code has neither.
\<close>

unbundle bit_operations_syntax

section \<open>The handlers in steps\<close>

definition flow_list :: "wc \<Rightarrow> server \<Rightarrow> server" where
  "flow_list w s =
     (let s1 = upd_work (wr_id w) (\<lambda>r. r\<lparr>rw_wc := w\<rparr>) s
      in s1\<lparr>commit_list := wr_id w # commit_list s1\<rparr>)"

definition flow_copy :: "(nat \<Rightarrow> block_env) \<Rightarrow> wc \<Rightarrow> server \<Rightarrow> server result" where
  "flow_copy env w s =
     (let s3 = spin_lock s
      in if \<not> rw_convey (works s3 (wr_id w))
         then rbind (ib_convey_page env w s3) (\<lambda>(_, s4). Inr (spin_unlock s4))
         else Inr (spin_unlock s3))"

text \<open>What a commit does between taking the lock and giving it back.\<close>

definition commit_section :: "(nat \<Rightarrow> block_env) \<Rightarrow> server \<Rightarrow> server result" where
  "commit_section env s =
     rbind (convey_pending env (commit_list s) (spin_lock s)) (\<lambda>s2.
       let s3 = fold release_work (commit_list s2) s2
       in Inr (spin_unlock (s3\<lparr>batch := atomic_set (batch s3) 0\<rparr>)))"

lemma flow_steps: "process_multicast_flow env w s = flow_copy env w (flow_list w s)"
  by (simp add: process_multicast_flow_def flow_copy_def flow_list_def Let_def)

lemma commit_steps:
  "process_rpc_commit env arrivals w s =
     (if commit_list s = [] then Inr (arrivals, send_reply (imm_data w) Ack s)
      else rbind (wait_pages env (imm_data w) arrivals s) (\<lambda>(rest, s1).
           rbind (commit_section env s1) (\<lambda>s2. Inr (rest, send_reply (imm_data w) Ack s2))))"
proof (cases "wait_pages env (imm_data w) arrivals s")
  case (Inr x)
  then show ?thesis
    by (cases "convey_pending env (commit_list (snd x)) (spin_lock (snd x))")
      (auto simp: process_rpc_commit_def commit_section_def case_prod_unfold Let_def)
qed (simp add: process_rpc_commit_def)

section \<open>Both threads and the network\<close>

datatype flow_at = F_Idle | F_Got wc page | F_Listed wc page
datatype rdma_at = R_Idle | R_Waiting wc | R_Reply wc

record sthreads =
  sv_server :: server
  sv_cq :: "(wc \<times> page) list"
  sv_flow :: flow_at
  sv_rdma :: rdma_at
  sv_past :: "(u32 \<times> page) list"

text \<open>
  A packet arrives; the multicast thread polls its completion, lists its receive, copies its page;
  the RDMA thread starts on a commit, goes through the list once enough pages are counted, and
  answers. With \<open>quiet\<close> it does so only while no receive is listed that the other thread is about to copy.
\<close>

inductive sv_step :: "bool \<Rightarrow> (nat \<Rightarrow> block_env) \<Rightarrow> sthreads \<Rightarrow> sthreads \<Rightarrow> bool" for quiet env where
  sv_arrives: "deliver (flow_header off) p (sv_server s) = Some (w, v) \<Longrightarrow> off < 2 ^ 28 \<Longrightarrow>
     sv_step quiet env s (s\<lparr>sv_server := v, sv_cq := sv_cq s @ [(w, p)]\<rparr>)"
| sv_polls: "sv_flow s = F_Idle \<Longrightarrow> sv_cq s = (w, p) # rest \<Longrightarrow> sv_step quiet env s (s\<lparr>sv_cq := rest, sv_flow := F_Got w p\<rparr>)"
| sv_lists: "sv_flow s = F_Got w p \<Longrightarrow> sv_step quiet env s (s\<lparr>sv_server := flow_list w (sv_server s), sv_flow := F_Listed w p\<rparr>)"
| sv_copies: "sv_flow s = F_Listed w p \<Longrightarrow> flow_copy env w (sv_server s) = Inr v \<Longrightarrow>
     sv_step quiet env s (s\<lparr>sv_server := v, sv_flow := F_Idle, sv_past := (imm_data w AND 0xfffffff, p) # sv_past s\<rparr>)"
| sv_empty: "sv_rdma s = R_Idle \<Longrightarrow> commit_list (sv_server s) = [] \<Longrightarrow>
     sv_step quiet env s (s\<lparr>sv_server := send_reply (imm_data (w :: wc)) Ack (sv_server s)\<rparr>)"
| sv_request: "sv_rdma s = R_Idle \<Longrightarrow> commit_list (sv_server s) \<noteq> [] \<Longrightarrow> sv_step quiet env s (s\<lparr>sv_rdma := R_Waiting w\<rparr>)"
| sv_commits: "sv_rdma s = R_Waiting w \<Longrightarrow> enough_pages (imm_data w) (sv_server s) \<Longrightarrow>
     quiet \<longrightarrow> (\<forall>v p. sv_flow s \<noteq> F_Listed v p) \<Longrightarrow> commit_section env (sv_server s) = Inr v \<Longrightarrow>
     sv_step quiet env s (s\<lparr>sv_server := v, sv_rdma := R_Reply w\<rparr>)"
| sv_answers: "sv_rdma s = R_Reply w \<Longrightarrow>
     sv_step quiet env s (s\<lparr>sv_server := send_reply (imm_data w) Ack (sv_server s), sv_rdma := R_Idle\<rparr>)"

inductive sv_reach ::
  "bool \<Rightarrow> (nat \<Rightarrow> block_env) \<Rightarrow> addr set \<Rightarrow> (addr \<Rightarrow> addr) \<Rightarrow> sthreads \<Rightarrow> bool" for quiet env W bufs where
  sv_start: "serving env W bufs v \<Longrightarrow>
     sv_reach quiet env W bufs \<lparr>sv_server = v, sv_cq = [], sv_flow = F_Idle, sv_rdma = R_Idle, sv_past = []\<rparr>"
| sv_then: "sv_reach quiet env W bufs s \<Longrightarrow> sv_step quiet env s s' \<Longrightarrow> sv_reach quiet env W bufs s'"

section \<open>Quiet runs\<close>

text \<open>Completions on their way to being listed.\<close>

definition coming :: "sthreads \<Rightarrow> (wc \<times> page) list" where
  "coming s = (case sv_flow s of F_Got w p \<Rightarrow> [(w, p)] | _ \<Rightarrow> []) @ sv_cq s"

definition coming_ids :: "sthreads \<Rightarrow> addr list" where
  "coming_ids s = map (\<lambda>(w, p). wr_id w) (coming s)"

text \<open>A packet as it arrived: in its receive's buffer, the receive not marked as copied.\<close>

definition untouched :: "(addr \<Rightarrow> addr) \<Rightarrow> server \<Rightarrow> wc \<Rightarrow> page \<Rightarrow> bool" where
  "untouched bufs v w p \<longleftrightarrow> \<not> rw_convey (works v (wr_id w)) \<and> rw_buffer (works v (wr_id w)) = bufs (wr_id w)
     \<and> page_at (smem v) (bufs (wr_id w) + UD_EXTRA) = p \<and> (\<exists>off < 2 ^ 28. imm_data w = flow_header off)"

definition sv_ok :: "(nat \<Rightarrow> block_env) \<Rightarrow> addr set \<Rightarrow> (addr \<Rightarrow> addr) \<Rightarrow> sthreads \<Rightarrow> bool" where
  "sv_ok env W bufs s \<longleftrightarrow> layout env W bufs \<and> server_ok env (W - set (coming_ids s)) bufs (sv_server s)
     \<and> distinct (coming_ids s) \<and> set (coming_ids s) \<subseteq> W
     \<and> (\<forall>(w, p) \<in> set (coming s). untouched bufs (sv_server s) w p)
     \<and> (\<forall>w p. sv_flow s = F_Listed w p \<longrightarrow> wr_id w \<in> set (commit_list (sv_server s)) \<and> untouched bufs (sv_server s) w p)"

lemma layout_mono: "layout env W bufs \<Longrightarrow> V \<subseteq> W \<Longrightarrow> layout env V bufs"
  unfolding layout_def by blast

text \<open>Copying into a block leaves every receive buffer alone.\<close>

lemma ib_convey_page_windows:
  assumes "ib_convey_page env w v = Inr (ok, v')" "server_ok env V bufs v" "layout env W bufs" "rw \<in> W"
  shows "page_at (smem v') (bufs rw + UD_EXTRA) = page_at (smem v) (bufs rw + UD_EXTRA)"
  using assms(1,2)
proof (cases rule: ib_convey_page_cases [case_names failed copied])
  case (copied opc nr offset s1 mb)
  have "server_ok env V bufs s1" using copied(3,6) assms(2) add_memblock_server_ok by blast
  then have "buffer mb = mmap_ret (env (unat nr))" using copied(3,5) unfolding server_ok_def by blast
  then have "apart (bufs rw + UD_EXTRA) (page_addr mb offset)"
    using layout_buffer [OF assms(3,4) _ copied(4,3)] by blast
  moreover have "smem s1 = smem v" using copied(6) add_memblock_frame by auto
  ultimately show ?thesis using copied(7) by (simp add: page_at_memcpy_apart apart_sym)
qed simp

lemma convey_pending_ok:
  "convey_pending env rws v = Inr v' \<Longrightarrow> server_ok env V bufs v \<Longrightarrow> layout env W bufs \<Longrightarrow> set rws \<subseteq> set (commit_list v) \<Longrightarrow>
   server_ok env V bufs v' \<and> commit_list v' = commit_list v \<and> multicast_rq v' = multicast_rq v
   \<and> (\<forall>rw \<in> W. page_at (smem v') (bufs rw + UD_EXTRA) = page_at (smem v) (bufs rw + UD_EXTRA))
   \<and> (\<forall>rw. rw \<notin> set (commit_list v) \<longrightarrow> works v' rw = works v rw)"
proof (induction rws arbitrary: v)
  case Nil
  then show ?case by simp
next
  case (Cons rw rws)
  show ?case
  proof (cases "rw_convey (works v rw)")
    case True
    then show ?thesis using Cons by simp
  next
    case False
    then obtain ok v1 where c: "ib_convey_page env (rw_wc (works v rw)) v = Inr (ok, v1)"
      "if ok then convey_pending env rws v1 = Inr v' else v' = spin_unlock v1"
      using Cons.prems(1) by (auto simp: rbind_Inr_iff split: if_splits)
    have id: "wr_id (rw_wc (works v rw)) = rw" using Cons.prems(2,4) by (simp add: server_ok_def)
    note o = ib_convey_page_ok [OF c(1) Cons.prems(2)] and w = ib_convey_page_windows [OF c(1) Cons.prems(2,3)]
    show ?thesis
    proof (cases ok)
      case True
      have "set rws \<subseteq> set (commit_list v1)" using o id Cons.prems(4) by simp
      from Cons.IH [OF _ _ Cons.prems(3) this] show ?thesis
        using True c(2) o w id Cons.prems(4) by (auto split: if_splits)
    next
      case False
      then show ?thesis using c(2) o w id Cons.prems(4) by (auto simp: lock_defs server_ok_def blocks_ok_def)
    qed
  qed
qed

lemma server_ok_lock: "server_ok env V bufs (spin_lock v) = server_ok env V bufs v"
  by (simp add: server_ok_def blocks_ok_def lock_defs)

lemma commit_section_ok:
  assumes "commit_section env v = Inr v'" "server_ok env V bufs v" "layout env W bufs"
  shows "server_ok env V bufs v' \<and> commit_list v' = [] \<and> (\<forall>rw. rw \<notin> set (commit_list v) \<longrightarrow> works v' rw = works v rw)
    \<and> (\<forall>rw \<in> W. page_at (smem v') (bufs rw + UD_EXTRA) = page_at (smem v) (bufs rw + UD_EXTRA))"
proof -
  obtain v2 where c: "convey_pending env (commit_list v) (spin_lock v) = Inr v2"
      "v' = spin_unlock ((fold release_work (commit_list v2) v2)\<lparr>batch := atomic_set (batch (fold release_work (commit_list v2) v2)) 0\<rparr>)"
    using assms(1) by (auto simp: commit_section_def rbind_Inr_iff Let_def)
  have "server_ok env V bufs (spin_lock v)" using assms(2) by (simp add: server_ok_lock)
  from convey_pending_ok [OF c(1) this assms(3)]
  have k: "server_ok env V bufs v2" "commit_list v2 = commit_list v"
    "\<forall>rw \<in> W. page_at (smem v2) (bufs rw + UD_EXTRA) = page_at (smem v) (bufs rw + UD_EXTRA)"
    "\<forall>rw. rw \<notin> set (commit_list v) \<longrightarrow> works v2 rw = works v rw"
    by (auto simp: lock_defs)
  have r: "fold release_work (commit_list v2) v2 = v2\<lparr>commit_list := [], multicast_rq := multicast_rq v2 @ commit_list v2,
      works := \<lambda>rw. if rw \<in> set (commit_list v2) then (works v2 rw)\<lparr>rw_convey := False\<rparr> else works v2 rw\<rparr>"
    using k(1) by (intro fold_release_work) (auto simp: server_ok_def)
  have "server_ok env V bufs v'"
    using k(1) unfolding c(2) r by (auto simp: server_ok_def blocks_ok_def lock_defs)
  then show ?thesis using k(2-4) unfolding c(2) r by (auto simp: lock_defs)
qed

lemma deliver_parts:
  assumes "deliver imm p v = Some (w, v')"
  shows "multicast_rq v = wr_id w # multicast_rq v'" "imm_data w = imm" "works v' = works v" "commit_list v' = commit_list v"
    "smem v' = put_page (smem v) (rw_buffer (works v (wr_id w)) + UD_EXTRA) p"
    "memblocks v' = memblocks v" "memblock_list v' = memblock_list v"
  using assms by (auto simp: deliver_def split: list.splits)

lemma deliver_server_ok:
  assumes "deliver imm p v = Some (w, v')" "server_ok env V bufs v"
  shows "wr_id w \<in> V" "server_ok env (V - {wr_id w}) bufs v'" "\<not> rw_convey (works v' (wr_id w))"
    "rw_buffer (works v' (wr_id w)) = bufs (wr_id w)"
proof -
  note d = deliver_parts [OF assms(1)]
  show "wr_id w \<in> V" "\<not> rw_convey (works v' (wr_id w))" "rw_buffer (works v' (wr_id w)) = bufs (wr_id w)"
    using assms(2) d(1,3) by (auto simp: server_ok_def)
  show "server_ok env (V - {wr_id w}) bufs v'"
    using assms(2) d unfolding server_ok_def blocks_ok_def by auto
qed

lemma flow_list_ok:
  assumes "server_ok env V bufs v" "wr_id w \<notin> V" "rw_buffer (works v (wr_id w)) = bufs (wr_id w)"
  shows "server_ok env (insert (wr_id w) V) bufs (flow_list w v)"
  using assms unfolding server_ok_def blocks_ok_def flow_list_def by (auto simp: upd_work_def Let_def)

lemma flow_list_simps [simp]:
  "smem (flow_list w v) = smem v" "commit_list (flow_list w v) = wr_id w # commit_list v"
  "works (flow_list w v) = (works v)(wr_id w := (works v (wr_id w))\<lparr>rw_wc := w\<rparr>)" "multicast_rq (flow_list w v) = multicast_rq v"
  by (simp_all add: flow_list_def upd_work_def Let_def)

lemma flow_copy_ok:
  assumes "flow_copy env w v = Inr v'" "server_ok env V bufs v" "layout env W bufs" "wr_id w \<in> set (commit_list v)"
  shows "server_ok env V bufs v' \<and> commit_list v' = commit_list v \<and> multicast_rq v' = multicast_rq v
    \<and> (\<forall>rw. rw \<noteq> wr_id w \<longrightarrow> works v' rw = works v rw)
    \<and> (\<forall>rw \<in> W. page_at (smem v') (bufs rw + UD_EXTRA) = page_at (smem v) (bufs rw + UD_EXTRA))"
proof (cases "rw_convey (works v (wr_id w))")
  case True
  then show ?thesis using assms(1,2) by (auto simp: flow_copy_def lock_defs server_ok_def blocks_ok_def)
next
  case False
  then obtain ok v1 where c: "ib_convey_page env w (spin_lock v) = Inr (ok, v1)" "v' = spin_unlock v1"
    using assms(1) by (auto simp: flow_copy_def lock_defs rbind_Inr_iff)
  have l: "server_ok env V bufs (spin_lock v)" using assms(2) by (simp add: server_ok_lock)
  have "wr_id w \<in> set (commit_list (spin_lock v))" using assms(4) by (simp add: lock_defs)
  note o = ib_convey_page_ok [OF c(1) l this]
  have "page_at (smem v1) (bufs rw + UD_EXTRA) = page_at (smem v) (bufs rw + UD_EXTRA)" if "rw \<in> W" for rw
    using ib_convey_page_windows [OF c(1) l assms(3) that] by (simp add: lock_defs)
  then show ?thesis using o unfolding c(2) by (auto simp: lock_defs server_ok_def blocks_ok_def split: if_splits)
qed

section \<open>The invariant of quiet runs\<close>

lemma coming_simps [simp]:
  "coming (s\<lparr>sv_server := v\<rparr>) = coming s" "coming (s\<lparr>sv_rdma := r\<rparr>) = coming s"
  "coming (s\<lparr>sv_cq := q, sv_flow := F_Got w p\<rparr>) = (w, p) # q" "coming (s\<lparr>sv_server := v, sv_cq := sv_cq s @ q\<rparr>) = coming s @ q"
  by (simp_all add: coming_def split: flow_at.splits)

lemma deliver_untouched:
  assumes "deliver imm q v = Some (w', v')" "untouched bufs v w p" "layout env W bufs"
    and "rw_buffer (works v (wr_id w')) = bufs (wr_id w')" "wr_id w \<in> W" "wr_id w' \<in> W" "wr_id w \<noteq> wr_id w'"
  shows "untouched bufs v' w p"
proof -
  have "apart (bufs (wr_id w') + UD_EXTRA) (bufs (wr_id w) + UD_EXTRA)" using assms(3,5-7) unfolding layout_def by metis
  then show ?thesis using assms(2,4) deliver_parts [OF assms(1)] by (simp add: untouched_def page_at_put_page_apart)
qed

lemma untouched_keep:
  "untouched bufs v w p \<Longrightarrow> works v' (wr_id w) = works v (wr_id w) \<Longrightarrow>
   page_at (smem v') (bufs (wr_id w) + UD_EXTRA) = page_at (smem v) (bufs (wr_id w) + UD_EXTRA) \<Longrightarrow> untouched bufs v' w p"
  by (simp add: untouched_def)

lemma sv_arrives_ok:
  assumes "sv_ok env W bufs s" "deliver (flow_header off) q (sv_server s) = Some (w', v')" "off < 2 ^ 28"
  shows "sv_ok env W bufs (s\<lparr>sv_server := v', sv_cq := sv_cq s @ [(w', q)]\<rparr>)"
proof -
  have l: "layout env W bufs" and ok: "server_ok env (W - set (coming_ids s)) bufs (sv_server s)"
    and c: "distinct (coming_ids s)" "set (coming_ids s) \<subseteq> W" using assms(1) by (auto simp: sv_ok_def)
  note d = deliver_parts [OF assms(2)] and o = deliver_server_ok [OF assms(2) ok]
  have ids: "coming_ids (s\<lparr>sv_server := v', sv_cq := sv_cq s @ [(w', q)]\<rparr>) = coming_ids s @ [wr_id w']" by (simp add: coming_ids_def)
  have old: "untouched bufs v' w p" if "untouched bufs (sv_server s) w p" "wr_id w \<in> W" "wr_id w \<noteq> wr_id w'" for w p
    using deliver_untouched [OF assms(2) that(1) l _ that(2) _ that(3)] o(1,4) d(3) by simp
  have "untouched bufs v' w' q" using o(3,4) d(2,3,5) assms(3) by (auto simp: untouched_def)
  moreover have "untouched bufs v' w p" if "(w, p) \<in> set (coming s)" for w p
  proof -
    have "wr_id w \<in> set (coming_ids s)" using that by (force simp: coming_ids_def)
    then have "wr_id w \<in> W" "wr_id w \<noteq> wr_id w'" using o(1) c(2) by auto
    moreover have "untouched bufs (sv_server s) w p" using that assms(1) by (auto simp: sv_ok_def)
    ultimately show ?thesis using old by blast
  qed
  moreover have "wr_id w \<in> set (commit_list v') \<and> untouched bufs v' w p" if "sv_flow s = F_Listed w p" for w p
  proof -
    have k: "wr_id w \<in> set (commit_list (sv_server s))" "untouched bufs (sv_server s) w p" using that assms(1) by (auto simp: sv_ok_def)
    then have "wr_id w \<in> W" "wr_id w \<noteq> wr_id w'" using ok d(1) by (auto simp: server_ok_def)
    then show ?thesis using old k d(4) by auto
  qed
  moreover have "W - set (coming_ids s) - {wr_id w'} = W - insert (wr_id w') (set (coming_ids s))" by blast
  ultimately show ?thesis using l o(1,2) c unfolding sv_ok_def ids by auto
qed

lemma sv_lists_ok:
  assumes "sv_ok env W bufs s" "sv_flow s = F_Got w p"
  shows "sv_ok env W bufs (s\<lparr>sv_server := flow_list w (sv_server s), sv_flow := F_Listed w p\<rparr>)"
proof -
  let ?s = "s\<lparr>sv_server := flow_list w (sv_server s), sv_flow := F_Listed w p\<rparr>"
  have c: "coming s = (w, p) # coming ?s" "coming_ids s = wr_id w # coming_ids ?s" "coming ?s = sv_cq s"
    using assms(2) by (simp_all add: coming_def coming_ids_def)
  then have ok: "server_ok env (W - set (coming_ids s)) bufs (sv_server s)" and u: "untouched bufs (sv_server s) w p"
    and w: "wr_id w \<in> W" "wr_id w \<notin> set (coming_ids ?s)" "wr_id w \<in> set (coming_ids s)" using assms(1) by (auto simp: sv_ok_def)
  have "server_ok env (insert (wr_id w) (W - set (coming_ids s))) bufs (flow_list w (sv_server s))"
    using flow_list_ok [OF ok] w u by (auto simp: untouched_def)
  moreover have "insert (wr_id w) (W - set (coming_ids s)) = W - set (coming_ids ?s)" using w c(2) by auto
  moreover have "untouched bufs (flow_list w (sv_server s)) w' p'" if "(w', p') \<in> set (coming s)" for w' p'
    using assms(1) that by (auto simp: sv_ok_def untouched_def)
  ultimately show ?thesis using assms(1) c u unfolding sv_ok_def by (auto simp: untouched_def)
qed

lemma sv_copies_ok:
  assumes "sv_ok env W bufs s" "sv_flow s = F_Listed w p" "flow_copy env w (sv_server s) = Inr v"
  shows "sv_ok env W bufs (s\<lparr>sv_server := v, sv_flow := F_Idle, sv_past := h\<rparr>)"
proof -
  let ?s = "s\<lparr>sv_server := v, sv_flow := F_Idle, sv_past := h\<rparr>"
  have c: "coming ?s = coming s" "coming_ids ?s = coming_ids s" using assms(2) by (simp_all add: coming_def coming_ids_def)
  have l: "layout env W bufs" and ok: "server_ok env (W - set (coming_ids s)) bufs (sv_server s)"
    and w: "wr_id w \<in> set (commit_list (sv_server s))" using assms(1,2) by (auto simp: sv_ok_def)
  note f = flow_copy_ok [OF assms(3) ok l w]
  have n: "wr_id w \<notin> set (coming_ids s)" using ok w by (auto simp: server_ok_def)
  have "untouched bufs v w' p'" if "(w', p') \<in> set (coming s)" for w' p'
  proof -
    have m: "wr_id w' \<in> set (coming_ids s)" using that by (force simp: coming_ids_def)
    then have "wr_id w' \<noteq> wr_id w" "wr_id w' \<in> W" using n assms(1) by (auto simp: sv_ok_def)
    then show ?thesis using untouched_keep [of bufs "sv_server s" w' p' v] f assms(1) that by (auto simp: sv_ok_def)
  qed
  then show ?thesis using f assms(1) unfolding sv_ok_def c by auto
qed

lemma sv_commits_ok:
  assumes "sv_ok env W bufs s" "\<forall>w p. sv_flow s \<noteq> F_Listed w p" "commit_section env (sv_server s) = Inr v"
  shows "sv_ok env W bufs (s\<lparr>sv_server := v, sv_rdma := r\<rparr>)"
proof -
  let ?s = "s\<lparr>sv_server := v, sv_rdma := r\<rparr>"
  have c: "coming ?s = coming s" "coming_ids ?s = coming_ids s" by (simp_all add: coming_def coming_ids_def)
  have l: "layout env W bufs" and ok: "server_ok env (W - set (coming_ids s)) bufs (sv_server s)" using assms(1) by (auto simp: sv_ok_def)
  note f = commit_section_ok [OF assms(3) ok l]
  have "untouched bufs v w p" if "(w, p) \<in> set (coming s)" for w p
  proof -
    have "wr_id w \<in> set (coming_ids s)" using that by (force simp: coming_ids_def)
    then have "wr_id w \<in> W" "wr_id w \<notin> set (commit_list (sv_server s))" using assms(1) ok by (auto simp: sv_ok_def server_ok_def)
    then show ?thesis using untouched_keep [of bufs "sv_server s" w p v] f assms(1) that by (auto simp: sv_ok_def)
  qed
  then show ?thesis using f assms(1,2) unfolding sv_ok_def c by auto
qed

lemma sv_step_ok: "sv_step True env s s' \<Longrightarrow> sv_ok env W bufs s \<Longrightarrow> sv_ok env W bufs s'"
proof (induction rule: sv_step.induct)
  case (sv_polls s w p rest)
  then have "coming (s\<lparr>sv_cq := rest, sv_flow := F_Got w p\<rparr>) = coming s" by (simp add: coming_def)
  then show ?case using sv_polls by (simp add: sv_ok_def coming_ids_def)
qed (auto simp: sv_arrives_ok sv_lists_ok sv_copies_ok sv_commits_ok, auto simp: sv_ok_def coming_ids_def untouched_def server_ok_def blocks_ok_def send_reply_def coming_def)

lemma sv_reach_ok: "sv_reach True env W bufs s \<Longrightarrow> sv_ok env W bufs s"
proof (induction rule: sv_reach.induct)
  case (sv_start v)
  then show ?case by (simp add: sv_ok_def coming_ids_def coming_def serving_def)
qed (rule sv_step_ok)

section \<open>Far memory in quiet runs\<close>

lemma low_28: "off < 2 ^ 28 \<Longrightarrow> off AND 0xfffffff = (off :: u32)"
  by (rule bit_eqI) (use small_word_bits [of off 28] in \<open>auto simp: mask_words bit_simps\<close>)

lemma send_reply_simps [simp]:
  "far (send_reply imm r v) = far v" "commit_list (send_reply imm r v) = commit_list v" "works (send_reply imm r v) = works v"
  by (auto intro!: far_cong simp: send_reply_def)

text \<open>A copy under the lock, whatever is on the lists.\<close>

lemma flow_copy_far:
  assumes "flow_copy env w v = Inr v'" "server_ok env V bufs v" "layout env V bufs" "\<not> rw_convey (works v (wr_id w))"
    and "imm_data w = flow_header off" "off < 2 ^ 28" "\<forall>n < MAX_MEMBLOCK. grants env n"
  shows "far v' off = Some (page_at (smem v) (rw_buffer (works v (wr_id w)) + UD_EXTRA))"
    "k \<noteq> off \<Longrightarrow> far v k = Some q \<Longrightarrow> far v' k = Some q"
    "commit_list v' = commit_list v" "multicast_rq v' = multicast_rq v"
    "works v' = (works v)(wr_id w := (works v (wr_id w))\<lparr>rw_convey := True\<rparr>)" "batch v' = atomic_inc (batch v)"
proof -
  obtain ok v1 where c: "ib_convey_page env w (spin_lock v) = Inr (ok, v1)" "v' = spin_unlock v1"
    using assms(1,4) by (auto simp: flow_copy_def lock_defs rbind_Inr_iff)
  have l: "server_ok env V bufs (spin_lock v)" using assms(2) by (simp add: server_ok_lock)
  have "unat (get_num_memblock off) < MAX_MEMBLOCK"
    using c(1) l assms(5) by (auto simp: ib_convey_page_def flow_header_fields server_ok_def blocks_ok_def Let_def split: if_splits)
  then have ok using ib_convey_page_some [OF l assms(5)] assms(7) c(1) by auto
  then have c1: "ib_convey_page env w (spin_lock v) = Inr (True, v1)" using c(1) by simp
  have f: "far (spin_lock v) = far v" by (rule far_cong) (simp_all add: lock_defs)
  note fr = ib_convey_page_far [OF c1 l assms(3,5,6)]
  show "far v' off = Some (page_at (smem v) (rw_buffer (works v (wr_id w)) + UD_EXTRA))"
    using fr(1) by (simp add: c(2) lock_defs(1) far_spin_unlock)
  show "far v' k = Some q" if "k \<noteq> off" "far v k = Some q" using fr(2) that f by (simp add: c(2))
  show "commit_list v' = commit_list v" "multicast_rq v' = multicast_rq v"
    "works v' = (works v)(wr_id w := (works v (wr_id w))\<lparr>rw_convey := True\<rparr>)" "batch v' = atomic_inc (batch v)"
    using c1 l unfolding c(2) by (auto elim!: ib_convey_page_cases simp: lock_defs dest: add_memblock_frame)
qed

lemma flow_copy_some:
  assumes "server_ok env V bufs v" "imm_data w = flow_header off" "unat (get_num_memblock off) < MAX_MEMBLOCK"
    and "\<forall>n < MAX_MEMBLOCK. grants env n"
  shows "\<exists>v'. flow_copy env w v = Inr v'"
proof -
  have "server_ok env V bufs (spin_lock v)" using assms(1) by (simp add: server_ok_lock)
  from ib_convey_page_some [OF this assms(2,3)] assms(3,4)
  obtain v' where "ib_convey_page env w (spin_lock v) = Inr (True, v')" by blast
  then show ?thesis by (simp add: flow_copy_def Let_def)
qed

text \<open>
  What the multicast thread is done with is in far memory, and what is listed is copied, up to the
  receive it is about to copy.
\<close>

definition sv_stored :: "sthreads \<Rightarrow> bool" where
  "sv_stored s \<longleftrightarrow> (\<forall>off p. map_of (sv_past s) off = Some p \<longrightarrow> far (sv_server s) off = Some p)
     \<and> (\<forall>rw \<in> set (commit_list (sv_server s)). rw_convey (works (sv_server s) rw) \<or> (\<exists>w p. sv_flow s = F_Listed w p \<and> rw = wr_id w))"

lemma copied_section:
  assumes "all_copied v" "distinct (commit_list v)" "\<forall>rw \<in> set (commit_list v). wr_id (rw_wc (works v rw)) = rw"
  shows "\<exists>v'. commit_section env v = Inr v' \<and> far v' = far v \<and> commit_list v' = []
    \<and> multicast_rq v' = multicast_rq v @ commit_list v \<and> atomic_read (batch v') = 0
    \<and> works v' = (\<lambda>rw. if rw \<in> set (commit_list v) then (works v rw)\<lparr>rw_convey := False\<rparr> else works v rw)"
proof -
  have "convey_pending env (commit_list v) (spin_lock v) = Inr (spin_lock v)"
    using assms(1) by (intro convey_pending_all_copied) (simp add: all_copied_def lock_defs)
  moreover have "fold release_work (commit_list v) (spin_lock v) = (spin_lock v)\<lparr>commit_list := [],
      multicast_rq := multicast_rq (spin_lock v) @ commit_list v, works := \<lambda>rw. if rw \<in> set (commit_list v)
        then (works (spin_lock v) rw)\<lparr>rw_convey := False\<rparr> else works (spin_lock v) rw\<rparr>"
    using assms(2,3) by (intro fold_release_work) (auto simp: lock_defs)
  ultimately show ?thesis by (auto simp: commit_section_def lock_defs atomic_defs Let_def intro!: far_cong)
qed

lemma sv_step_stored:
  assumes "sv_step True env s s'" "sv_ok env W bufs s" "sv_stored s" "\<forall>n < MAX_MEMBLOCK. grants env n"
  shows "sv_stored s'"
  using assms
proof (induction rule: sv_step.induct)
  case (sv_arrives off q s w v)
  have l: "layout env (W - set (coming_ids s)) bufs" "server_ok env (W - set (coming_ids s)) bufs (sv_server s)"
    using sv_arrives.prems(1) by (auto simp: sv_ok_def intro: layout_mono)
  have "far v = far (listed w v)" by (rule far_cong) simp_all
  then have "far v = far (sv_server s)" using delivered_far [OF sv_arrives.hyps(1) l(2,1)] by simp
  then show ?case using sv_arrives.prems(2) deliver_parts [OF sv_arrives.hyps(1)] by (simp add: sv_stored_def)
next
  case (sv_lists s w p)
  have "far (flow_list w (sv_server s)) = far (sv_server s)" by (rule far_cong) (simp_all add: flow_list_def upd_work_def Let_def)
  then show ?case using sv_lists.prems(2) sv_lists.hyps by (auto simp: sv_stored_def)
next
  case (sv_copies s w p v)
  have l: "layout env (W - set (coming_ids s)) bufs" "server_ok env (W - set (coming_ids s)) bufs (sv_server s)"
    and u: "untouched bufs (sv_server s) w p" using sv_copies.prems(1) sv_copies.hyps(1) by (auto simp: sv_ok_def intro: layout_mono)
  obtain off where off: "off < 2 ^ 28" "imm_data w = flow_header off" using u by (auto simp: untouched_def)
  have n: "imm_data w AND 0xfffffff = off" using off low_28 by (simp add: flow_header_fields)
  have "\<not> rw_convey (works (sv_server s) (wr_id w))" using u by (simp add: untouched_def)
  note f = flow_copy_far [OF sv_copies.hyps(2) l(2,1) this off(2,1) sv_copies.prems(3)]
  have "far v off = Some p" using f(1) u by (simp add: untouched_def)
  then show ?case using f(2-5) sv_copies.prems(2) sv_copies.hyps(1) unfolding sv_stored_def by (auto simp: n)
next
  case (sv_commits s w v)
  have "all_copied (sv_server s)" using sv_commits.prems(2) sv_commits.hyps(3) by (auto simp: sv_stored_def all_copied_def)
  moreover have "server_ok env (W - set (coming_ids s)) bufs (sv_server s)" using sv_commits.prems(1) by (simp add: sv_ok_def)
  ultimately obtain v' where "commit_section env (sv_server s) = Inr v'" "far v' = far (sv_server s)" "commit_list v' = []"
    using copied_section [of "sv_server s" env] by (auto simp: server_ok_def)
  then show ?case using sv_commits.hyps(4) sv_commits.prems(2) by (simp add: sv_stored_def)
qed (auto simp: sv_stored_def)

lemma sv_reach_stored:
  assumes "sv_reach True env W bufs s" "\<forall>n < MAX_MEMBLOCK. grants env n"
  shows "sv_stored s"
  using assms(1)
proof (induction rule: sv_reach.induct)
  case (sv_then s s')
  then show ?case using sv_step_stored [OF sv_then.hyps(2) sv_reach_ok [OF sv_then.hyps(1)] _ assms(2)] by blast
qed (simp add: sv_stored_def serving_def all_copied_def)



section \<open>The race\<close>

text \<open>A section that meets a listed receive not yet copied does what the copy and then the section do.\<close>

lemma section_copies:
  assumes "flow_copy env w v = Inr u" "server_ok env V bufs v" "layout env V bufs" "\<not> rw_convey (works v (wr_id w))"
    and "imm_data w = flow_header off" "off < 2 ^ 28" "\<forall>n < MAX_MEMBLOCK. grants env n"
    and "commit_list v = wr_id w # rws" "rw_wc (works v (wr_id w)) = w" "\<forall>rw \<in> set rws. rw_convey (works v rw)"
  shows "commit_section env v = commit_section env u"
proof -
  note f = flow_copy_far [OF assms(1-7)]
  obtain ok v1 where c: "ib_convey_page env w (spin_lock v) = Inr (ok, v1)" "u = spin_unlock v1"
    using assms(1,4) by (auto simp: flow_copy_def lock_defs rbind_Inr_iff)
  have u: "spin_lock u = v1" "works v1 = works u" "commit_list v1 = commit_list u" unfolding c(2) by (simp_all add: lock_defs)
  have ok
  proof (rule ccontr)
    assume "\<not> ok"
    then have "v1 = spin_lock v" using c(1) assms(2) by (auto elim!: ib_convey_page_cases simp: server_ok_lock)
    moreover have "rw_convey (works v1 (wr_id w))" using f(5) u(2) by simp
    ultimately show False using assms(4) by (simp add: lock_defs)
  qed
  have "convey_pending env rws v1 = Inr v1" "convey_pending env (wr_id w # rws) v1 = Inr v1"
    using assms(10) f(5) u(2) by (auto intro!: convey_pending_all_copied)
  then show ?thesis
    using c(1) \<open>ok\<close> assms(4,8,9) f(3) unfolding commit_section_def u by (simp add: lock_defs u)
qed

text \<open>A second copy marks the receive, which may be posted again by now; but for the marks all is well.\<close>

lemma flow_copy_unmarked_ok:
  assumes "flow_copy env w v = Inr v'" "server_ok env V bufs v"
  shows "server_ok env V bufs (v'\<lparr>works := works v\<rparr>)"
proof (cases "rw_convey (works v (wr_id w))")
  case True
  then show ?thesis using assms by (auto simp: flow_copy_def lock_defs server_ok_def blocks_ok_def)
next
  case False
  then obtain ok v1 where c: "ib_convey_page env w (spin_lock v) = Inr (ok, v1)" "v' = spin_unlock v1"
    using assms(1) by (auto simp: flow_copy_def lock_defs rbind_Inr_iff)
  have l: "server_ok env V bufs (spin_lock v)" using assms(2) by (simp add: server_ok_lock)
  show ?thesis using c(1) l
  proof (cases rule: ib_convey_page_cases [case_names failed copied])
    case (copied opc nr offset s1 mb)
    have "server_ok env V bufs s1" using copied(3,6) l add_memblock_server_ok by blast
    moreover have "works s1 = works v" using copied(6) add_memblock_frame(4) by (auto simp: lock_defs)
    ultimately show ?thesis unfolding c(2) copied(7) by (auto simp: server_ok_def blocks_ok_def lock_defs)
  next
    case failed
    then show ?thesis using l unfolding c(2) by (auto simp: server_ok_def blocks_ok_def lock_defs)
  qed
qed

lemma deliver_marked_far:
  assumes "deliver imm q v = Some (w, v')" "server_ok env W bufs (v\<lparr>works := g\<rparr>)" "layout env W bufs"
    and "\<forall>rw. rw_buffer (g rw) = rw_buffer (works v rw)"
  shows "far v' = far v"
proof -
  have "deliver imm q (v\<lparr>works := g\<rparr>) = Some (w, v'\<lparr>works := g\<rparr>)"
    using assms(1,4) by (auto simp: deliver_def split: list.splits)
  from delivered_far [OF this assms(2,3)]
  have "far (listed w (v'\<lparr>works := g\<rparr>)) = far (v\<lparr>works := g\<rparr>)" .
  moreover have "far v' = far (listed w (v'\<lparr>works := g\<rparr>))" by (rule far_cong) simp_all
  moreover have "far (v\<lparr>works := g\<rparr>) = far v" by (rule far_cong) simp_all
  ultimately show ?thesis by simp
qed

text \<open>Listed, copied by the section, put back, copied again: the receive is posted and marked.\<close>

lemma late_states:
  assumes "w = \<lparr>wr_id = rw, imm_data = flow_header off, wc_ok = True\<rparr>" and "serving env W bufs v" "multicast_rq v = [rw]" "\<forall>n < MAX_MEMBLOCK. grants env n"
    and "off < 2 ^ 28" "unat (get_num_memblock off) < MAX_MEMBLOCK"
  shows "\<exists>v1 v3 v4. deliver (flow_header off) p v = Some (w, v1) \<and> commit_section env (flow_list w v1) = Inr v3
    \<and> batch (flow_list w v1) = batch v \<and> flow_copy env w v3 = Inr v4 \<and> server_ok env W bufs (v4\<lparr>works := works v3\<rparr>)
    \<and> commit_list v4 = [] \<and> multicast_rq v4 = rw # commit_list v \<and> batch v4 = atomic_inc (batch v3) \<and> atomic_read (batch v3) = 0
    \<and> works v4 = (works v3)(rw := (works v3 rw)\<lparr>rw_convey := True\<rparr>)
    \<and> (\<forall>k q. k \<noteq> off \<longrightarrow> far v k = Some q \<longrightarrow> far v4 k = Some q)"
proof -
  note w_def = assms(1) and assms = assms(2-)
  have l: "layout env W bufs" and ok: "server_ok env W bufs v" and ac: "all_copied v" using assms(1) by (auto simp: serving_def)
  obtain v1 where d: "deliver (flow_header off) p v = Some (w, v1)" using assms(2) by (simp add: deliver_def w_def)
  note dp = deliver_parts [OF d] and dk = deliver_server_ok [OF d ok]
  define v2 where "v2 = flow_list w v1"
  have w: "wr_id w = rw" "imm_data w = flow_header off" by (simp_all add: w_def)
  have rw: "rw \<in> W" "rw \<notin> set (commit_list v)" using ok assms(2) by (auto simp: server_ok_def)
  have k2: "server_ok env W bufs v2" using flow_list_ok [OF dk(2), of w] dk(4) rw(1) by (simp add: v2_def insert_absorb w)
  have p2: "commit_list v2 = rw # commit_list v" "multicast_rq v2 = []" "\<not> rw_convey (works v2 rw)" "rw_wc (works v2 rw) = w"
    "\<forall>x \<in> set (commit_list v). rw_convey (works v2 x)" "batch v2 = batch v" "far v2 = far v"
  proof -
    have "far v2 = far (listed w v1)" by (rule far_cong) (simp_all add: v2_def flow_list_def upd_work_def Let_def)
    then show "far v2 = far v" using delivered_far [OF d ok l] by simp
    show "batch v2 = batch v" using d assms(2) by (auto simp: deliver_def v2_def flow_list_def upd_work_def Let_def)
  qed (use dp dk(3) assms(2) ac rw in \<open>auto simp: v2_def all_copied_def w\<close>)
  obtain u where u: "flow_copy env w v2 = Inr u" using flow_copy_some [OF k2 _ assms(5,3), of w] w(2) by auto
  have n2: "\<not> rw_convey (works v2 (wr_id w))" and i: "imm_data w = flow_header off" using p2(3) by (simp_all add: w)
  note fu = flow_copy_far [OF u k2 l n2 i assms(4,3)]
  have ku: "server_ok env W bufs u" using flow_copy_ok [OF u k2 l] p2(1) by (simp add: w)
  have "all_copied u" using fu(3,5) p2(1,5) by (auto simp: all_copied_def w)
  then obtain v3 where v3: "commit_section env u = Inr v3" "far v3 = far u" "commit_list v3 = []"
      "multicast_rq v3 = multicast_rq u @ commit_list u" "atomic_read (batch v3) = 0" "\<not> rw_convey (works v3 rw)"
    using copied_section [of u env] ku fu(3) p2(1) by (fastforce simp: server_ok_def)
  have sec: "commit_section env v2 = Inr v3"
    using section_copies [OF u k2 l n2 i assms(4,3), of "commit_list v"] v3(1) p2(1,4,5) by (simp add: w)
  have k3: "server_ok env W bufs v3" using commit_section_ok [OF sec k2 l] by simp
  obtain v4 where v4: "flow_copy env w v3 = Inr v4" using flow_copy_some [OF k3 _ assms(5,3), of w] w(2) by auto
  have n3: "\<not> rw_convey (works v3 (wr_id w))" using v3(6) by (simp add: w)
  note f4 = flow_copy_far [OF v4 k3 l n3 i assms(4,3)]
  have k4: "server_ok env W bufs (v4\<lparr>works := works v3\<rparr>)" by (rule flow_copy_unmarked_ok [OF v4 k3])
  have "multicast_rq v4 = rw # commit_list v" using f4(4) v3(4) fu(3,4) p2(1,2) by simp
  moreover have "far v4 k = Some q" if "k \<noteq> off" "far v k = Some q" for k q using that f4(2) fu(2) v3(2) p2(7) by simp
  ultimately show ?thesis using d sec v4 k4 f4(3,5,6) v3(3,5) p2(6) by (auto simp: v2_def w)
qed

lemma late_copy_run:
  fixes c :: wc
  assumes "serving env W bufs v" "multicast_rq v = [rw]" "\<forall>n < MAX_MEMBLOCK. grants env n"
    and "off < 2 ^ 28" "unat (get_num_memblock off) < MAX_MEMBLOCK" "enough_pages (imm_data c) v"
  shows "\<exists>s u. sv_reach False env W bufs s \<and> sv_flow s = F_Idle \<and> sv_cq s = [] \<and> sv_rdma s = R_Idle \<and> sv_past s = [(off, p)]
    \<and> commit_list (sv_server s) = [] \<and> multicast_rq (sv_server s) = rw # commit_list v \<and> rw_convey (works (sv_server s) rw)
    \<and> atomic_read (batch (sv_server s)) = 1 \<and> server_ok env W bufs (sv_server s\<lparr>works := u\<rparr>)
    \<and> (\<forall>rw. rw_buffer (u rw) = rw_buffer (works (sv_server s) rw)) \<and> (\<forall>k q. k \<noteq> off \<longrightarrow> far v k = Some q \<longrightarrow> far (sv_server s) k = Some q)"
proof -
  let ?w = "\<lparr>wr_id = rw, imm_data = flow_header off, wc_ok = True\<rparr>"
  obtain v1 v3 v4 where d: "deliver (flow_header off) p v = Some (?w, v1)" and sec: "commit_section env (flow_list ?w v1) = Inr v3"
    and b: "batch (flow_list ?w v1) = batch v" and v4: "flow_copy env ?w v3 = Inr v4"
    and k4: "server_ok env W bufs (v4\<lparr>works := works v3\<rparr>)" "commit_list v4 = []" "multicast_rq v4 = rw # commit_list v"
      "batch v4 = atomic_inc (batch v3)" "atomic_read (batch v3) = 0" "works v4 = (works v3)(rw := (works v3 rw)\<lparr>rw_convey := True\<rparr>)"
      "\<forall>k q. k \<noteq> off \<longrightarrow> far v k = Some q \<longrightarrow> far v4 k = Some q"
    using late_states [OF refl assms(1-5), of p] by blast
  let ?s = "\<lambda>v q f r h. \<lparr>sv_server = v, sv_cq = q, sv_flow = f, sv_rdma = r, sv_past = h\<rparr> :: sthreads"
  have "sv_reach False env W bufs (?s v [] F_Idle R_Idle [])" by (rule sv_start [OF assms(1)])
  from sv_then [OF this sv_arrives [of off p _ ?w v1]] have "sv_reach False env W bufs (?s v1 [(?w, p)] F_Idle R_Idle [])"
    using d assms(4) by simp
  from sv_then [OF this sv_polls [of _ ?w p "[]"]] have "sv_reach False env W bufs (?s v1 [] (F_Got ?w p) R_Idle [])" by simp
  from sv_then [OF this sv_lists [of _ ?w p]] have "sv_reach False env W bufs (?s (flow_list ?w v1) [] (F_Listed ?w p) R_Idle [])" by simp
  from sv_then [OF this sv_request [of _ _ _ c]] have "sv_reach False env W bufs (?s (flow_list ?w v1) [] (F_Listed ?w p) (R_Waiting c) [])"
    by simp
  from sv_then [OF this sv_commits [of _ c _ _ v3]] have "sv_reach False env W bufs (?s v3 [] (F_Listed ?w p) (R_Reply c) [])"
    using sec assms(6) b by (simp add: enough_pages_def)
  from sv_then [OF this sv_copies [of _ ?w p _ v4]] have "sv_reach False env W bufs (?s v4 [] F_Idle (R_Reply c) [(off, p)])"
    using v4 low_28 [OF assms(4)] by (simp add: flow_header_fields)
  from sv_then [OF this sv_answers [of _ c]]
  have r: "sv_reach False env W bufs (?s (send_reply (imm_data c) Ack v4) [] F_Idle R_Idle [(off, p)])" by simp
  have k5: "server_ok env W bufs ((send_reply (imm_data c) Ack v4)\<lparr>works := works v3\<rparr>)"
    using k4(1) by (simp add: server_ok_def blocks_ok_def send_reply_def)
  then show ?thesis using r k4(2-)
    by (intro exI [of _ "?s (send_reply (imm_data c) Ack v4) [] F_Idle R_Idle [(off, p)]"] exI [of _ "works v3"])
      (simp add: atomic_defs, simp add: send_reply_def)
qed

text \<open>
  C16: Without that restraint a page is acknowledged and never stored. The multicast thread lists a
  receive, the RDMA thread copies its page, puts the receive back and answers, and only then the
  multicast thread gets to copy it, so it marks a receive that is posted again. The page that
  arrives there next is taken for copied: the next commit, for one page, is acknowledged, and far
  memory still has the old page under its number.
\<close>

theorem late_flow_loses_page:
  fixes c :: wc
  assumes "serving env W bufs v" "multicast_rq v = [rw]" "\<forall>n < MAX_MEMBLOCK. grants env n"
    and "off < 2 ^ 28" "unat (get_num_memblock off) < MAX_MEMBLOCK" "enough_pages (imm_data c) v"
    and "off' < 2 ^ 28" "off' \<noteq> off" "far v off' = Some old"
  shows "\<exists>s. sv_reach False env W bufs s \<and> map_of (sv_past s) off' = Some q \<and> far (sv_server s) off' = Some old
    \<and> commit_list (sv_server s) = [] \<and> last (replies (sv_server s)) = (rpc_imm (qcommit_opcode 1) 0, Ack)"
proof -
  obtain s g where r: "sv_reach False env W bufs s" and s: "sv_flow s = F_Idle" "sv_cq s = []" "sv_rdma s = R_Idle"
      "commit_list (sv_server s) = []" "multicast_rq (sv_server s) = rw # commit_list v" "rw_convey (works (sv_server s) rw)"
      "atomic_read (batch (sv_server s)) = 1" "server_ok env W bufs (sv_server s\<lparr>works := g\<rparr>)"
      "\<forall>rw. rw_buffer (g rw) = rw_buffer (works (sv_server s) rw)" "far (sv_server s) off' = Some old"
    using late_copy_run [OF assms(1-6), of undefined] assms(8,9) by blast
  let ?w = "\<lparr>wr_id = rw, imm_data = flow_header off', wc_ok = True\<rparr>"
  let ?c = "\<lparr>wr_id = 0, imm_data = rpc_imm (qcommit_opcode 1) 0, wc_ok = True\<rparr>"
  obtain v1 where d: "deliver (flow_header off') q (sv_server s) = Some (?w, v1)" using s(5) by (simp add: deliver_def)
  note dp = deliver_parts [OF d]
  have b1: "batch v1 = batch (sv_server s)" using d s(5) by (auto simp: deliver_def)
  have far1: "far v1 off' = Some old" using deliver_marked_far [OF d s(8) _ s(9)] assms(1) s(10) by (simp add: serving_def)
  define v2 where "v2 = spin_unlock (spin_lock (flow_list ?w v1))"
  have copy: "flow_copy env ?w (flow_list ?w v1) = Inr v2" using dp(3) s(6) by (simp add: flow_copy_def v2_def lock_defs)
  have k2: "commit_list v2 = [rw]" "all_copied v2" "wr_id (rw_wc (works v2 rw)) = rw" "batch v2 = batch (sv_server s)"
    using dp(3,4) s(4,6) b1 by (auto simp: v2_def lock_defs all_copied_def flow_list_def upd_work_def Let_def)
  have "far v2 = far v1" by (rule far_cong) (simp_all add: v2_def lock_defs flow_list_def upd_work_def Let_def)
  with far1 k2 copied_section [of v2 env] obtain v3 where
    v3: "commit_section env v2 = Inr v3" "far v3 off' = Some old" "commit_list v3 = []" by auto
  have e: "enough_pages (imm_data ?c) v2" using k2(4) s(7) by (simp add: enough_pages_def qcommit_fields)
  let ?s = "\<lambda>v q f r h. \<lparr>sv_server = v, sv_cq = q, sv_flow = f, sv_rdma = r, sv_past = h\<rparr> :: sthreads"
  let ?h = "(off', q) # sv_past s"
  have "s = ?s (sv_server s) [] F_Idle R_Idle (sv_past s)" using s(1-3) by (cases s) simp
  then have "sv_reach False env W bufs (?s (sv_server s) [] F_Idle R_Idle (sv_past s))" using r by simp
  from sv_then [OF this sv_arrives [of off' q _ ?w v1]] have "sv_reach False env W bufs (?s v1 [(?w, q)] F_Idle R_Idle (sv_past s))"
    using d assms(7) by simp
  from sv_then [OF this sv_polls [of _ ?w q "[]"]] have "sv_reach False env W bufs (?s v1 [] (F_Got ?w q) R_Idle (sv_past s))" by simp
  from sv_then [OF this sv_lists [of _ ?w q]]
  have "sv_reach False env W bufs (?s (flow_list ?w v1) [] (F_Listed ?w q) R_Idle (sv_past s))" by simp
  from sv_then [OF this sv_copies [of _ ?w q _ v2]] have "sv_reach False env W bufs (?s v2 [] F_Idle R_Idle ?h)"
    using copy low_28 [OF assms(7)] by (simp add: flow_header_fields)
  from sv_then [OF this sv_request [of _ _ _ ?c]] have "sv_reach False env W bufs (?s v2 [] F_Idle (R_Waiting ?c) ?h)"
    using k2(1) by simp
  from sv_then [OF this sv_commits [of _ ?c _ _ v3]] have "sv_reach False env W bufs (?s v3 [] F_Idle (R_Reply ?c) ?h)"
    using v3(1) e by simp
  from sv_then [OF this sv_answers [of _ ?c]]
  have "sv_reach False env W bufs (?s (send_reply (imm_data ?c) Ack v3) [] F_Idle R_Idle ?h)" by simp
  moreover have "last (replies (send_reply (imm_data ?c) Ack v3)) = (imm_data ?c, Ack)" by (simp add: send_reply_def)
  ultimately show ?thesis using v3(2,3) by (intro exI [of _ "?s (send_reply (imm_data ?c) Ack v3) [] F_Idle R_Idle ?h"]) simp
qed

theorem late_flow_loses_page_witness:
  "\<exists>v s. far v 5 = Some ex_page \<and> sv_reach False ex_env ex_works ex_bufs s \<and> map_of (sv_past s) 5 = Some (\<lambda>_. 9)
    \<and> far (sv_server s) 5 = Some ex_page"
proof -
  obtain v where v: "serve_page ex_env 5 ex_page (ex_server 511) = Some v" "atomic_read (batch v) = 511 + 1" "multicast_rq v = [2]"
    using ex_serve [where k = 511 and p = ex_page] by auto
  let ?c = "\<lparr>wr_id = 9, imm_data = rpc_imm commit_opcode 3, wc_ok = True\<rparr>"
  have s: "serving ex_env ex_works ex_bufs v" using far_memory.write_inv [OF ex_serving v(1)] .
  have f: "far v 5 = Some ex_page" using far_memory.write_same [OF ex_serving v(1)] .
  have g: "\<forall>n < MAX_MEMBLOCK. grants ex_env n" using ex_grants by blast
  have e: "enough_pages (imm_data ?c) v" using v(2) by (simp add: enough_pages_def commit_fields SERVER_BATCH_def)
  have b: "unat (get_num_memblock 6) < MAX_MEMBLOCK" by (simp add: get_num_memblock_def MAX_MEMBLOCK_def)
  from late_flow_loses_page [OF s v(3) g _ b e _ _ f, of "\<lambda>_. 9"] f show ?thesis by auto
qed

section \<open>Two locks for one table\<close>

text \<open>
  The RDMA thread adds a block under \<open>memblock_lock\<close>, the multicast thread under \<open>lock\<close>, so each can
  be between \<open>add_memblock\<close>'s look at the table and its store to it while the other runs.
\<close>

definition add_prepare :: "block_env \<Rightarrow> nat \<Rightarrow> memblock option" where
  "add_prepare e nr =
     (case alloc_memblock e nr of
        None \<Rightarrow> None
      | Some mb \<Rightarrow> let (ok, mb') = set_memblock e mb in if \<not> ok then None else Some mb')"

definition add_install :: "memblock \<Rightarrow> nat \<Rightarrow> 'z blocks_state_scheme \<Rightarrow> 'z blocks_state_scheme" where
  "add_install mb nr s =
     s\<lparr>memblock_list := memblock_list s @ [nr], memblocks := (memblocks s)[nr := Some mb]\<rparr>"

lemma add_memblock_steps:
  "nr < length (memblocks s) \<Longrightarrow> memblocks s ! nr = None \<Longrightarrow>
   add_memblock e nr s =
     (case add_prepare e nr of None \<Rightarrow> Inr (False, s) | Some mb \<Rightarrow> Inr (True, add_install mb nr s))"
  by (auto simp: add_memblock_def add_prepare_def add_install_def Let_def split: option.split prod.split)

lemma add_install_simps [simp]:
  "smem (add_install mb nr s) = smem s" "memblock_list (add_install mb nr s) = memblock_list s @ [nr]"
  "memblocks (add_install mb nr s) = (memblocks s)[nr := Some mb]"
  by (simp_all add: add_install_def)

text \<open>
  A page copied in that gap goes to a block that the table then forgets: the page is read back
  from the block installed last, where nothing was stored, and the list has the block twice.
\<close>

lemma racing_adds_lose_page:
  assumes "add_prepare e nr = Some mb" "server_ok env V bufs s" "layout env V bufs" "memblocks s ! nr = None"
    and "imm_data w = flow_header off" "off < 2 ^ 28" "nr = unat (get_num_memblock off)"
    and "ib_convey_page env w s = Inr (True, s1)"
    and "\<forall>o' < 2 ^ 18. apart (mmap_ret (env nr) + ucast (push_bit 12 (o' :: u32))) (page_addr mb (off AND 0x3ffff))"
  shows "far s1 off = Some (page_at (smem s) (rw_buffer (works s (wr_id w)) + UD_EXTRA))"
    and "far (add_install mb nr s1) off = Some (page_at (smem s) (page_addr mb (off AND 0x3ffff)))"
    and "memblock_list (add_install mb nr s1) = memblock_list s @ [nr, nr]"
proof -
  show "far s1 off = Some (page_at (smem s) (rw_buffer (works s (wr_id w)) + UD_EXTRA))"
    by (rule ib_convey_page_far [OF assms(8,2,3,5,6)])
  obtain opc nr' offset s2 mb2 where c: "interpret_header (imm_data w) = Some (opc, nr', offset)" "unat nr' < MAX_MEMBLOCK"
      "offset < 2 ^ 18" "memblocks s2 ! unat nr' = Some mb2"
      "s2 = s \<or> add_memblock (env (unat nr')) (unat nr') s = Inr (True, s2)" "s1 = convey_into mb2 offset w s2"
    using assms(8,2) by (rule ib_convey_page_cases) auto
  have n: "unat nr' = nr" "offset = off AND 0x3ffff" using c(1) assms(5,7) by (auto simp: header_simps)
  have add: "add_memblock (env nr) nr s = Inr (True, s2)" using c(4,5) n assms(4) by auto
  have len: "length (memblocks s) = MAX_MEMBLOCK" "nr < length (memblocks s)"
    using assms(2) c(2) n by (auto simp: server_ok_def blocks_ok_def)
  have s2: "smem s2 = smem s" "memblock_list s2 = memblock_list s @ [nr]" "length (memblocks s2) = MAX_MEMBLOCK"
      "buffer mb2 = mmap_ret (env nr)"
    using add c(4) n len assms(4) by (auto elim!: add_memblock_cases)
  have "apart (page_addr mb2 offset) (page_addr mb (off AND 0x3ffff))"
    using assms(9) c(3) s2(4) by (simp add: page_addr_def)
  then show "far (add_install mb nr s1) off = Some (page_at (smem s) (page_addr mb (off AND 0x3ffff)))"
    using assms(6,7) len s2(1,3) by (simp add: far_def far_page_def c(6) page_at_memcpy_apart)
  show "memblock_list (add_install mb nr s1) = memblock_list s @ [nr, nr]" using s2(2) by (simp add: c(6))
qed

end
