(* ===== verification/Spec2Isabelle.thy ===== *)
theory Spec2Isabelle
  imports Hlist List_Loops Network Driver_Variants Server_Types Self_Test_Sends Fleet Server_Threads
begin

text \<open>
  \<^bold>\<open>Maruswap\<close>: swapping to far memory. A kernel module (\<open>drive/\<close>) takes pages from frontswap,
  sends each by multicast to two servers, and reads them back by RDMA; the server program
  (\<open>lib/\<close>, \<open>server/main.c\<close>) copies each page into 1 GiB blocks it registered with its adapter.

  \<^bold>\<open>How a page travels.\<close> \<open>maruswap_store\<close> (\<open>drive/maruswap.c\<close>) calls \<open>maruswap_multicast_write\<close>
  (\<open>drive/sib.c\<close>). A block no server has opened yet is opened by a request to both; a batch of
  1024 pages is closed by a commit request to both; then the page goes out in one multicast
  packet whose immediate word names it, and a copy is staged in the driver until the commit,
  for loads that come before. On a server the multicast thread (\<open>lib/handler.c\<close>) copies
  each packet into its block and counts it; the RDMA thread answers open requests with the block's
  address and key, and a commit when enough pages are counted. Replies find their caller
  through a pool of 256 slots, whose number travels in the low byte of the word.

  \<^bold>\<open>Theories\<close>, and the code each one models:
    \<^item> \<open>Prelude\<close>: machine words, faults and the result type, byte memory and page copies.
    \<^item> \<open>List_Head\<close>, \<open>Hlist\<close>: \<open>include/list_head.h\<close>, lists and hash lists store by store; refined to HOL lists.
      \<open>List_Loops\<close>: its loop macros over entries.
    \<^item> \<open>Atomic\<close>: \<open>include/atomic.h\<close>. \<open>Wire\<close>: the immediate words of \<open>include/rpc.h\<close>, \<open>lib/rpc.c\<close>,
      \<open>lib/handler.c\<close>, \<open>drive/ib.h\<close>, \<open>drive/sib.c\<close>.
    \<^item> \<open>Binder\<close>: the reply slots of \<open>lib/rpc.c\<close> and \<open>drive/sib.c\<close>, and the pool under interleaved
      use. \<open>Verbs\<close>: the send functions of \<open>lib/ib.c\<close> with their waits, and queues shared by senders.
      \<open>Rpc\<close>: \<open>ib_rpc\<close>, \<open>ib_multicast_rpc\<close>, \<open>__ib_rpc\<close>.
    \<^item> \<open>Page_Store\<close>: the contract of a store of pages, as a locale; \<open>Stage_Buffer\<close> (the staging ring of
      \<open>drive/sib.c\<close>) and \<open>Far_Memory\<close> (the server) interpret it.
    \<^item> \<open>Memblock\<close>: \<open>lib/memblock.c\<close>. \<open>Server\<close>: \<open>lib/handler.c\<close>. \<open>Far_Memory\<close>: what its handlers
      amount to as a map from page numbers to pages. \<open>Server_Faults\<close>: its replies and error paths.
      \<open>Server_Types\<close>: what no request can break, as an invariant of any run. \<open>Server_Threads\<close>: the multicast
      and the RDMA thread at once, when their interleaving loses no page and when it does,
      and the block that both add under different locks.
    \<^item> \<open>Driver\<close>: the data path of \<open>drive/sib.c\<close> and \<open>drive/ib.h\<close>. \<open>Driver_Proofs\<close>: its lemmas.
      \<open>Driver_Threads\<close>: a write as its atomic steps, and many writers at once, with what no interleaving
      breaks; \<open>Driver_Races\<close>: what staging a page outside the lock costs, and when it does not.
      \<open>Driver_Setup\<close>, \<open>Setup_Proofs\<close>: connecting, loading and unloading the module.
      \<open>Driver_Variants\<close>: the designs of \<open>drive/ib.c\<close> and \<open>drive/cib.c\<close>, where they differ from \<open>sib.c\<close>.
    \<^item> \<open>Server_Setup\<close>, \<open>Server_Setup_Proofs\<close>: \<open>lib/ib.c\<close>, \<open>server/main.c\<close>, \<open>client/main.c\<close>.
    \<^item> \<open>System\<close>: \<open>drive/maruswap.c\<close>, and the driver composed with its servers. \<open>Network\<close>: a step
      relation in which packets arrive at each server in their own time, and its invariant.
      \<open>Fleet\<close>: the writers of \<open>Driver_Threads\<close>, step by step, with the servers and the packets at once.
      \<open>Instance\<close>: a concrete configuration for the witnesses.
    \<^item> \<open>Self_Test\<close>, \<open>Self_Test_Proofs\<close>: the client of \<open>client/main.c\<close> and \<open>test_rpc_open\<close> of \<open>lib/test.c\<close>, against
      the server's model; \<open>Self_Test_Sends\<close>: the tests that send single messages. \<open>Decimal\<close>: the
      library's \<open>snprintf\<close> and \<open>atoi\<close> it marks its pages with.

  \<^bold>\<open>How state corresponds.\<close> C structs are records with the fields the code uses, pointers are
  64-bit addresses or indices into a table, machine integers are words or, for \<open>int\<close> results,
  integers. An operation takes its state and returns the new one; one that can crash or hang
  returns \<open>fault + 'a\<close>. A list the code walks is a HOL list in \<open>Server\<close> and \<open>Driver\<close>; that its
  pointer operations implement it is what \<open>List_Head\<close> shows. Locks are counters.

  \<^bold>\<open>What is assumed\<close>, always as an argument: what the verbs library, the connection manager and the kernel
  return. Their polls are lists, so a busy-wait is recursion over the list; one still waiting
  at the end is the fault \<open>Spinning\<close>. So a theorem that a call returns says for which
  polls it does, and one that it hangs covers all. \<open>layout\<close> and \<open>stage_base\<close> state that
  separate allocations do not overlap; \<open>deliver\<close> that an accepted packet arrives in the first
  posted receive; \<open>answers\<close> that a server's reply comes back in the caller's slot.

  \<^bold>\<open>What the lemmas show.\<close> In this theory: a stored page is what is loaded, before its commit and after;
  a commit loses no page; a store gets through; the driver's state stays consistent whatever
  its environment does; and the ways in which the code falls short: the open request whose reply is
  lost, the failed commit that forgets its pages, the commit acknowledged for half of its batch, the
  handlers that acknowledge what they did not store. In the others: the page staged late
  whose slot another takes, and that without one concurrent stores are loaded as they were stored;
  the page copied late whose receive is posted again; that reply slots are exclusive and every
  call gets its own reply, that the staging buffer and far memory are page stores, that the
  pointer lists implement lists, that words decode to what was encoded, that setup and teardown create
  and destroy in order, and where they do not.

  \<^bold>\<open>Not modelled\<close>: what \<open>drive/ib.c\<close> and \<open>drive/cib.c\<close> have word for word as \<open>sib.c\<close> is modelled once,
  for \<open>sib.c\<close>; \<open>drive/rib.c\<close> is a copy of \<open>cib.c\<close>; the buffers \<open>test_rpc_open\<close> maps and
  registers, its clock readings, \<open>lib/toy.c\<close> (only includes), logging, and the macros of \<open>compiler.h\<close> and \<open>common.h\<close> are left out.
  In \<open>System\<close> and \<open>Network\<close> a call into the driver or to a server is one step; in \<open>Driver_Threads\<close> and
  \<open>Fleet\<close> a store is several, in \<open>Server_Threads\<close> a server's handling of a page.
  Packets are neither lost nor reordered within the system properties; the handlers' own
  properties do not depend on it.
\<close>

unbundle bit_operations_syntax

section \<open>What is stored is loaded\<close>



text \<open>
  C4: A store to a block that is open, with room in the batch and servers that have a receive and
  memory left, succeeds. The page is then staged by the driver and held by every server, the
  servers' invariants hold again, and a load of its number returns it at once, before any
  commit, whichever server the processor would ask.
\<close>

theorem store_then_load:
  assumes "servers_ok envs W bufs (d, srv)" "driver_ok base d" "main_ctrl d = Ctrl mn"
    and "block_open (unat (get_num_memblock (ucast pageid))) d"
    and "uint (atomic_read (drv_batch d)) < CONFIG_BATCH" "io_good io dma"
    and "can_take envs (ucast pageid) (ctrl_list d) srv" "read_target io' d = Ctrl n"
  shows "\<exists>d1 srv1 d2. system_store env envs io pageid page (d, srv) = Some (d1, srv1)
    \<and> servers_ok envs W bufs (d1, srv1) \<and> driver_ok base d1
    \<and> (\<forall>m \<in> set (ctrl_list d). far (srv1 m) (ucast pageid) = Some (page_at (kmem d) page))
    \<and> system_load io' pageid page' (d1, srv1) = Some (page_at (kmem d) page, d2)"
proof -
  obtain d1 srv1 where st: "system_store env envs io pageid page (d, srv) = Some (d1, srv1)"
    using store_some [OF assms(1-7)] by blast
  note k = store_keeps_main [OF st assms(2-6)]
  note e = store_everywhere [OF st assms(1-6)]
  have "read_target io' d1 = Ctrl n" using k assms(8) read_target_cong by metis
  then obtain d2 where "system_load io' pageid page' (d1, srv1) = Some (page_at (kmem d) page, d2)"
    using load_staged [of d1 pageid "page_at (kmem d) page" io' n] e(1) by auto
  moreover have "servers_ok envs W bufs (d1, srv1)"
    using assms(1) e(3) k by (simp add: servers_ok_def)
  ultimately show ?thesis using st e(2) k by blast
qed

theorem store_then_load_witness:
  "\<exists>d1 srv1 d2. system_store (ex_call commit_opcode) (\<lambda>_. ex_env) ex_io 5 0x5000 (ex_driver 3, ex_servers 0) = Some (d1, srv1)
   \<and> system_load ex_io 5 0x6000 (d1, srv1) = Some (ex_page, d2)"
proof -
  have "can_take (\<lambda>_. ex_env) (ucast (5 :: u64)) (ctrl_list (ex_driver 3)) (ex_servers 0)"
    using ex_grants [of 0] by (simp add: can_take_def ex_server_def MAX_MEMBLOCK_def)
  from store_then_load [OF ex_servers_ok _ _ _ _ ex_io_good this, of ex_base 0 ex_io 1
      "ex_call commit_opcode" "0x5000" "0x6000"]
  show ?thesis by (auto simp: ex_driver_ok ex_page_stored)
qed

text \<open>
  C5: Far memory is a page store: a server takes in as many pages as it has receive buffers for, in any
  order and with repeated numbers, and afterwards every page number gives the page that was
  sent last under it, while pages that were not sent again are what they were. The server's
  invariant holds throughout.
\<close>

theorem far_memory_keeps_last_page:
  assumes "serving env W bufs s" "length ws \<le> length (multicast_rq s)"
    and "\<forall>(off, p) \<in> set ws. off < 2 ^ 28 \<and> unat (get_num_memblock off) < MAX_MEMBLOCK
      \<and> grants env (unat (get_num_memblock off))"
  shows "\<exists>s'. write_all (serve_page env) ws s = Some s' \<and> serving env W bufs s'
    \<and> (\<forall>k p. map_of (rev ws) k = Some p \<longrightarrow> far s' k = Some p)
    \<and> (\<forall>k p. k \<notin> fst ` set ws \<longrightarrow> far s k = Some p \<longrightarrow> far s' k = Some p)"
proof -
  obtain s' where s': "write_all (serve_page env) ws s = Some s'"
    using write_all_some [OF assms] by blast
  show ?thesis
    using s' far_memory.write_all_inv [OF assms(1) s'] far_memory.last_write_read [OF assms(1) s']
      far_memory.unwritten_kept [OF assms(1) s'] by blast
qed

theorem far_memory_keeps_last_page_witness:
  "\<exists>s'. write_all (serve_page ex_env) [(5, ex_page), (5, \<lambda>_. 9)] (ex_server 0) = Some s'
    \<and> far s' 5 = Some (\<lambda>_. 9)"
proof -
  have g: "grants ex_env 0" using ex_grants by (simp add: MAX_MEMBLOCK_def)
  then have "\<forall>(off, p) \<in> set [(5, ex_page), (5, \<lambda>_. 9)]. off < 2 ^ 28
      \<and> unat (get_num_memblock off) < MAX_MEMBLOCK \<and> grants ex_env (unat (get_num_memblock off))"
    by (simp add: MAX_MEMBLOCK_def)
  from far_memory_keeps_last_page [OF ex_serving _ this, of 0] show ?thesis
    by (auto simp: ex_server_def)
qed

text \<open>
  C6: A commit loses no page: when the calls are answered and the servers have counted their batch,
  every server's far memory is the same before and after, the driver's staging buffer is
  empty, all reply slots are free, and driver and servers are in agreement again.
\<close>

theorem commit_loses_no_page:
  assumes "servers_ok envs W bufs (d, srv)" "driver_ok base d" "ready_to_commit d srv"
    and "main_ctrl d = Ctrl mn" "all_free d" "answers env"
  shows "\<exists>d' srv'. system_commit env envs rid (d, srv) = Some (d', srv')
    \<and> (\<forall>n \<in> set (ctrl_list d). far (srv' n) = far (srv n))
    \<and> staged (stage_buffer d') (kmem d') = Map.empty \<and> all_free d'
    \<and> servers_ok envs W bufs (d', srv') \<and> driver_ok base d'"
proof -
  obtain d' where "ib_rpc_commit_all env d = Inr (0, d')" "all_free d'"
    using commit_all_answers [OF assms(5,6,4)] by blast
  with commit_keeps_pages [OF assms(1,2) this(1) assms(3), of rid] show ?thesis by blast
qed

theorem commit_loses_no_page_witness:
  "\<exists>d' srv'. system_commit (ex_call commit_opcode) (\<lambda>_. ex_env) (\<lambda>_. 0) (ex_driver 3, ex_servers 512) = Some (d', srv')
    \<and> (\<forall>n \<in> {0, 1}. far (srv' n) = far (ex_server 512)) \<and> all_free d'"
proof -
  have "ready_to_commit (ex_driver 3) (ex_servers 512)"
    by (simp add: ready_to_commit_def ex_ctrl_def ex_server_def)
  from commit_loses_no_page [OF ex_servers_ok _ this _ ex_all_free ex_answers, of ex_base 0 "\<lambda>_. 0"]
  show ?thesis by (auto simp: ex_driver_ok)
qed

section \<open>The driver\<close>

text \<open>
  C7: Whatever stores, loads and commits the kernel makes, with whatever the adapters, the servers and
  the allocator answer, the staging buffer never holds more pages than the batch has counted,
  the batch never exceeds 1024, every staged entry points to a slot of the buffer of its own,
  and the driver's lock is free again after every call.
\<close>

theorem driver_always_consistent:
  assumes "driver_reach base d"
  shows "drv_spin d = 0
    \<and> sb_count (stage_buffer d) \<le> uint (atomic_read (drv_batch d))
    \<and> uint (atomic_read (drv_batch d)) \<le> 1024
    \<and> distinct (map fst (sb_check_list (stage_buffer d)))
    \<and> (\<forall>(off, p) \<in> set (sb_check_list (stage_buffer d)). \<exists>j. 0 \<le> j \<and> j < 1024 \<and> p = slot base j)
    \<and> (\<forall>off p off'. (off, p) \<in> set (sb_check_list (stage_buffer d)) \<and>
         (off', p) \<in> set (sb_check_list (stage_buffer d)) \<longrightarrow> off = off')"
proof -
  have ok: "driver_ok base d" "drv_spin d = 0" using driver_reach_ok [OF assms] by blast+
  then have st: "stage_ok base (stage_buffer d)" by (simp add: driver_ok_def)
  have "\<exists>j. 0 \<le> j \<and> j < 1024 \<and> p = slot base j" if e: "(off, p) \<in> set (sb_check_list (stage_buffer d))" for off p
  proof -
    obtain j where "recent (stage_buffer d) j" "p = slot base j" using stage_ok_entry [OF st e] by blast
    then show ?thesis using recent_range [of "stage_buffer d" j] by (auto simp: CONFIG_BATCH_def)
  qed
  moreover have "distinct (map fst (sb_check_list (stage_buffer d)))" using st by (simp add: stage_ok_def)
  ultimately show ?thesis
    using ok stage_ok_inject [OF st] by (auto simp: driver_ok_def CONFIG_BATCH_def)
qed

theorem driver_always_consistent_witness:
  "\<exists>d. driver_reach ex_base d \<and> atomic_read (drv_batch d) = 1 \<and> drv_spin d = 0
    \<and> sb_count (stage_buffer d) \<le> 1"
proof -
  let ?d = "ex_driver 0"
  have ok: "driver_ok ex_base ?d" by (rule ex_driver_ok) (simp add: CONFIG_BATCH_def)
  have "driver_reach ex_base ?d"
    by (rule driver_start [where sb = ex_stage])
      (simp_all add: ex_stage_base init_stage_buffer_def, simp_all add: ex_stage_def ex_base_def
        ex_driver_def ATOMIC_INIT_def)
  moreover obtain d' where w: "maruswap_multicast_write (ex_call commit_opcode) ex_io 0x5000 5 ?d = Inr (0, d')"
      "uint (atomic_read (drv_batch d')) = 1"
    using write_common [OF ok _ _ _ ex_io_good, of 0 5 "ex_call commit_opcode" "0x5000"]
    by (auto simp: CONFIG_BATCH_def)
  ultimately have r: "driver_reach ex_base d'" using driver_next step_write by blast
  have "atomic_read (drv_batch d') = 1" using w(2) by (metis uint_1 word_uint_eq_iff)
  with driver_always_consistent [OF r] r show ?thesis by auto
qed



text \<open>With the block open already, servers need only answer the commit.\<close>

theorem store_gets_through:
  assumes "driver_reach base d" "main_ctrl d = Ctrl mn"
    and "block_open (unat (get_num_memblock (ucast pageid))) d" "io_good io dma"
    and "all_free d" "answers env"
  shows "\<exists>d'. maruswap_store env io pageid page d = Inr (0, d')
    \<and> staged (stage_buffer d') (kmem d') (ucast pageid) = Some (page_at (kmem d) page)"
proof -
  have "driver_ok base d" using driver_reach_ok [OF assms(1)] by blast
  from write_always [OF this assms(2-6), of page] show ?thesis by (auto simp: maruswap_store_def)
qed

theorem store_gets_through_witness:
  "\<exists>d'. maruswap_store (ex_call commit_opcode) ex_io 5 0x5000 (ex_driver 0) = Inr (0, d')"
proof -
  from store_gets_through [OF ex_driver_start _ _ ex_io_good ex_all_free ex_answers, of 0 5 "0x5000"]
  show ?thesis by auto
qed



text \<open>
  C22: A commit that is answered sends one commit request, and nothing else, over the connection of every
  server that is alive, none over the others, and restarts the batch.
\<close>

theorem commit_reaches_every_server:
  assumes "driver_ok base d" "distinct (ctrl_list d)" "main_ctrl d = Ctrl mn" "all_free d" "answers env"
  shows "\<exists>d'. ib_rpc_commit_all env d = Inr (0, d')
    \<and> (\<forall>n \<in> set (ctrl_list d). alive (ctrls d n) \<longrightarrow>
         (\<exists>b < NR_BINDERS. map wr_imm (rc_sent (ctrls d' n)) =
            map wr_imm (rc_sent (ctrls d n)) @ [rpc_imm commit_opcode (of_nat b)]))
    \<and> (\<forall>n. n \<notin> set (ctrl_list d) \<or> \<not> alive (ctrls d n) \<longrightarrow> rc_sent (ctrls d' n) = rc_sent (ctrls d n))
    \<and> atomic_read (drv_batch d') = 0 \<and> sb_count (stage_buffer d') = 0 \<and> all_free d'"
proof -
  obtain d' where d': "ib_rpc_commit_all env d = Inr (0, d')" "all_free d'"
    using commit_all_answers [OF assms(4,5,3)] by blast
  note r = commit_all_result [OF d'(1) assms(1)]
  show ?thesis
    using d' r commit_all_sends [OF d'(1) assms(2)] commit_all_silent [OF d'(1) assms(2)]
    unfolding sent_one_def by blast
qed

theorem commit_reaches_every_server_witness:
  "\<exists>d'. ib_rpc_commit_all (ex_call commit_opcode) (ex_driver 3) = Inr (0, d')
    \<and> (\<exists>b. map wr_imm (rc_sent (ctrls d' 0)) = [rpc_imm commit_opcode (of_nat b)])"
proof -
  have "alive (ctrls (ex_driver 3) 0)" "rc_sent (ctrls (ex_driver 3) 0) = []" by (simp_all add: ex_ctrl_def)
  with commit_reaches_every_server [OF _ _ _ ex_all_free ex_answers, of ex_base 3 0]
  show ?thesis by (fastforce simp: ex_driver_ok)
qed



text \<open>
  C21: Opening a block brings driver and server into agreement: when a server has handled the request
  and its reply comes back in the caller's slot, the address the driver keeps for the block is
  where this server has it, and the server's invariant still holds.
\<close>

theorem open_brings_agreement:
  assumes "process_rpc_open benv w s = Inr s'" "server_ok benv W bufs s"
    and "imm_data w = rpc_imm (open_opcode off) (of_nat b)"
    and "replies s' = replies s @ [(imm_data w, Open_Info a key)]"
    and "length (drv_binders d) = NR_BINDERS" "length (rdma_info (ctrls d n)) = MAX_BLOCKS"
    and "rkey (rdma_info (ctrls d n) ! unat (get_num_memblock off)) = 0" "off < 2 ^ 28"
    and "get_binder (e_draws (env (calls d))) (drv_binders d) = Inr (b, rs, bs)"
    and "serves (env (calls d)) b pre v" "imm_data v = imm_data w" "(off AND 0xff) OR of_nat b = of_nat b"
    and "e_rws (env (calls d)) (wr_id v) = Some \<lparr>remote_addr = a, rkey = key\<rparr>"
  shows "\<exists>d'. ib_rpc_open env n off d = Inr (0, d') \<and> flag (drv_binders d') b = 0
    \<and> rdma_info (ctrls d' n) ! unat (get_num_memblock off)
        = \<lparr>remote_addr = mmap_ret (benv (unat (get_num_memblock off))), rkey = key\<rparr>
    \<and> server_ok benv W bufs s'"
proof -
  let ?nr = "unat (get_num_memblock off)"
  have b: "(of_nat b :: u32) < 256"
    using get_binder_result [OF assms(9)] by (simp add: NR_BINDERS_def word_less_nat_alt unat_of_nat)
  have nr: "open_block (imm_data w) = ?nr"
    using open_fields(2) [OF b assms(8)] by (simp add: assms(3) open_block_def)
  from process_rpc_open_ok [OF assms(1,2)] have o: "server_ok benv W bufs s'" "?nr < MAX_MEMBLOCK"
      "a = mmap_ret (benv ?nr)" using assms(4) by (auto simp: nr)
  have len: "?nr < length (rdma_info (ctrls d n))" "?nr < MAX_BLOCKS"
    using o(2) assms(6) by (simp_all add: MAX_MEMBLOCK_def MAX_BLOCKS_def)
  have im: "imm_data v = rpc_imm (open_opcode off) (of_nat b)" using assms(3,11) by simp
  from open_served [where env = env and d = d and w = v, OF assms(5) len(1) assms(7,8) len(2) assms(9,10) im assms(12,13)]
  obtain d' where d': "ib_rpc_open env n off d = Inr (0, d')" "flag (drv_binders d') b = 0"
      "rdma_info (ctrls d' n) = (rdma_info (ctrls d n))[?nr := \<lparr>remote_addr = a, rkey = key\<rparr>]" by auto
  have "rdma_info (ctrls d' n) ! ?nr = \<lparr>remote_addr = mmap_ret (benv ?nr), rkey = key\<rparr>"
    unfolding d'(3) using len(1) o(3) by simp
  with d'(1,2) o(1) show ?thesis by blast
qed

theorem open_brings_agreement_witness:
  "\<exists>s' d'. process_rpc_open ex_env \<lparr>wr_id = 1, imm_data = rpc_imm (open_opcode 0x40000) 0, wc_ok = True\<rparr>
       (ex_server 0) = Inr s'
    \<and> ib_rpc_open (\<lambda>i. (ex_call (open_opcode 0x40000) i)\<lparr>e_rws := [77 \<mapsto> \<lparr>remote_addr = 0x80000000, rkey = 2\<rparr>]\<rparr>)
        0 0x40000 (ex_driver 3) = Inr (0, d')
    \<and> remote_addr (rdma_info (ctrls d' 0) ! 1) = mmap_ret (ex_env 1)"
proof -
  let ?w = "\<lparr>wr_id = 1, imm_data = rpc_imm (open_opcode 0x40000) 0, wc_ok = True\<rparr>"
  let ?v = "\<lparr>wr_id = 77, imm_data = rpc_imm (open_opcode 0x40000) (of_nat (0 mod 256)), wc_ok = True\<rparr>"
  let ?env = "\<lambda>i. (ex_call (open_opcode 0x40000) i)\<lparr>e_rws := [77 \<mapsto> \<lparr>remote_addr = 0x80000000, rkey = 2\<rparr>]\<rparr>"
  have nr: "unat (get_num_memblock 0x40000) = 1" by (simp add: get_num_memblock_def)
  have ob: "open_block (imm_data ?w) = 1"
    by (simp add: open_block_def rpc_imm_def open_opcode_def RDMA_OPCODE_OPEN_def)
  have "\<exists>s'. process_rpc_open ex_env ?w (ex_server 0) = Inr s'
      \<and> replies s' = replies (ex_server 0) @ [(imm_data ?w, Open_Info 0x80000000 2)]"
    unfolding process_rpc_open_eq Let_def ob
    by (simp add: ex_server_def add_memblock_def alloc_memblock_def set_memblock_def ibv_reg_mr_def
        ex_env_def lock_defs MAX_MEMBLOCK_def send_reply_def)
  then obtain s' where s': "process_rpc_open ex_env ?w (ex_server 0) = Inr s'"
      "replies s' = replies (ex_server 0) @ [(imm_data ?w, Open_Info 0x80000000 2)]" by blast
  have c: "calls (ex_driver 3) = 0" by (simp add: ex_driver_def)
  have g: "get_binder (e_draws (?env (calls (ex_driver 3)))) (drv_binders (ex_driver 3)) =
      Inr (0, [], (drv_binders (ex_driver 3))[0 := set_flag 1 (drv_binders (ex_driver 3) ! 0)])"
    using ex_all_free [of 3] by (simp add: ex_call_def c all_free_def NR_BINDERS_def)
  have sv: "serves (?env (calls (ex_driver 3))) 0 [Poll_Empty] ?v"
    using ex_call_serves [of "open_opcode 0x40000" 0] by (simp add: serves_def c)
  have "\<exists>d'. ib_rpc_open ?env 0 0x40000 (ex_driver 3) = Inr (0, d') \<and> flag (drv_binders d') 0 = 0
    \<and> rdma_info (ctrls d' 0) ! unat (get_num_memblock 0x40000)
        = \<lparr>remote_addr = mmap_ret (ex_env (unat (get_num_memblock 0x40000))), rkey = 2\<rparr>
    \<and> server_ok ex_env ex_works ex_bufs s'"
    by (rule open_brings_agreement [where env = ?env and d = "ex_driver 3", OF s'(1) ex_server_ok _ s'(2) _ _ _ _ g sv])
      (simp_all add: nr ex_ctrl_def ex_call_def c no_info_def MAX_BLOCKS_def)
  then show ?thesis using s'(1) by (auto simp: nr)
qed

section \<open>Where it fails\<close>

text \<open>
  C36: The word of an open request carries the whole page number, whose low byte overlaps the reply slot.
  When the page number has a bit there that the slot number lacks, the reply the server echoes
  is filed under another slot, and the call, whose request was sent and answered, never
  returns: the store that needed the block hangs with the driver's lock held.
\<close>

theorem open_of_odd_page_hangs:
  assumes "length (drv_binders d) = NR_BINDERS" "length (rdma_info (ctrls d n)) = MAX_BLOCKS"
    and "unat (get_num_memblock off) < MAX_BLOCKS" "off < 2 ^ 28"
    and "rkey (rdma_info (ctrls d n) ! unat (get_num_memblock off)) = 0"
    and "get_binder (e_draws (env (calls d))) (drv_binders d) = Inr (b, rs, bs)"
    and "send_completes (env (calls d))"
    and "\<forall>p \<in> set (e_recv_polls (env (calls d))). echoes (rpc_imm (open_opcode off) (of_nat b)) p"
    and "(off AND 0xff) OR of_nat b \<noteq> of_nat b"
    and "get_sub_rdma_ctrl d = Ctrl n" "alive (ctrls d n)" "main_ctrl d = Ctrl mn"
    and "io_dma io = Some dma" "check_rdma_info (unat (get_num_memblock off)) d = Inr True"
  shows "ib_rpc_open env n off d = Inl Spinning
    \<and> maruswap_multicast_write env io page off d = Inl Spinning"
proof -
  let ?l = "drv_lock d"
  have stuck: "ib_rpc_open env n off d' = Inl Spinning"
    if "drv_binders d' = drv_binders d" "ctrls d' = ctrls d" "calls d' = calls d" for d'
    using open_stuck [of d' off n env b rs bs] assms(1-9) that by simp
  have l: "ctrls ?l = ctrls d" "calls ?l = calls d" "get_sub_rdma_ctrl ?l = Ctrl n"
    using assms(10)
    by (auto simp: get_sub_rdma_ctrl_def get_main_rdma_ctrl_def drv_lock_def split: if_splits)
  have "check_infos ?l nr ns c = check_infos d nr ns c" for nr ns c
    by (induction ns arbitrary: c) simp_all
  then have "check_rdma_info (unat (get_num_memblock off)) ?l = Inr True"
    using assms(14) by (simp add: check_rdma_info_def)
  moreover have "ib_rpc_open_all env off ?l = Inl Spinning"
    using stuck [of ?l] l assms(11) by (simp add: ib_rpc_open_all_def deref_def ib_rpc_open_def)
  ultimately have "maruswap_multicast_write env io page off d = Inl Spinning"
    using assms(12,13)
    by (simp add: maruswap_multicast_write_def deref_def get_main_rdma_ctrl_def get_req_for_page_def)
  then show ?thesis using stuck [of d] by simp
qed

theorem open_of_odd_page_hangs_witness:
  "maruswap_multicast_write (ex_call (open_opcode 0x40001)) ex_io 0x5000 0x40001 (ex_driver 3) = Inl Spinning"
proof -
  have c: "calls (ex_driver 3) = 0" by (simp add: ex_driver_def)
  have g: "get_binder (e_draws (ex_call (open_opcode 0x40001) (calls (ex_driver 3)))) (drv_binders (ex_driver 3)) =
      Inr (0, [], (drv_binders (ex_driver 3))[0 := set_flag 1 (drv_binders (ex_driver 3) ! 0)])"
    using ex_all_free [of 3] by (simp add: ex_call_def c all_free_def NR_BINDERS_def)
  have "send_completes (ex_call (open_opcode 0x40001) (calls (ex_driver 3)))"
    by (auto simp: send_completes_def ex_call_def intro!: exI [of _ "[]"])
  moreover have "\<forall>p \<in> set (e_recv_polls (ex_call (open_opcode 0x40001) (calls (ex_driver 3)))).
      echoes (rpc_imm (open_opcode 0x40001) (of_nat 0)) p"
    by (simp add: ex_call_def echoes_def c)
  moreover have "get_sub_rdma_ctrl (ex_driver 3) = Ctrl 1" by (rule ex_targets)
  ultimately show ?thesis
    by (intro open_of_odd_page_hangs [where env = "ex_call (open_opcode 0x40001)" and d = "ex_driver 3", THEN conjunct2, OF _ _ _ _ _ g])
      (simp_all add: get_num_memblock_def ex_ctrl_def MAX_BLOCKS_def no_info_def check_rdma_info_def ex_io_def)
qed

text \<open>
  C37: A commit that fails still forgets the batch: the store that needed it reports failure, but the
  batch counter is reset and every staged page is dropped, although no server has answered for
  them.
\<close>

theorem failed_commit_drops_staged_pages:
  assumes "driver_ok base d" "main_ctrl d = Ctrl mn"
    and "block_open (unat (get_num_memblock (ucast pageid))) d" "io_dma io = Some dma"
    and "uint (atomic_read (drv_batch d)) = CONFIG_BATCH"
    and "ib_rpc_commit_all env (drv_lock d) = Inr (r, d3)" "r \<noteq> 0"
  shows "\<exists>d'. maruswap_store env io pageid page d = Inr (- 1, d')
    \<and> staged (stage_buffer d') (kmem d') = Map.empty \<and> atomic_read (drv_batch d') = 0
    \<and> mc_sent d' = mc_sent d"
proof -
  have full: "CONFIG_BATCH \<le> sint (atomic_read (drv_batch (drv_lock d)))"
    using assms(5) batch_sint [of "atomic_read (drv_batch d)"] by simp
  have w: "maruswap_multicast_write env io page (ucast pageid) d = Inr (1, drv_unlock d3)"
    using assms(2,4,6,7) full check_rdma_info_open [OF assms(3)]
    by (simp add: maruswap_multicast_write_def deref_def get_main_rdma_ctrl_def get_req_for_page_def)
  have "mc_sent (drv_unlock d3) = mc_sent d \<and> atomic_read (drv_batch (drv_unlock d3)) = 0
      \<and> staged (stage_buffer (drv_unlock d3)) m = Map.empty" for m
    using write_commit_failed [OF w assms(1-4) _ assms(6,7)] assms(5) by simp
  then show ?thesis using w by (simp add: maruswap_store_def)
qed

theorem failed_commit_drops_staged_pages_witness:
  "\<exists>d'. maruswap_store (\<lambda>i. (ex_call commit_opcode i)\<lparr>e_post_ok := False\<rparr>) ex_io 5 0x5000 (ex_driver 1024) = Inr (- 1, d')
    \<and> atomic_read (drv_batch d') = 0"
proof -
  let ?env = "\<lambda>i. (ex_call commit_opcode i)\<lparr>e_post_ok := False\<rparr>"
  have ok: "driver_ok ex_base (ex_driver 1024)" by (rule ex_driver_ok) (simp add: CONFIG_BATCH_def)
  have "\<exists>d3. ib_rpc_commit_all ?env (drv_lock (ex_driver 1024)) = Inr (1, d3)"
    by (simp add: ib_rpc_commit_all_def ib_rpc_commit_unlocked_def commit_call_def ctrl_rpc_def drv_rpc_def
        ex_driver_def drv_lock_def ex_call_def ex_ctrl_def upd_ctrl_def restart_batch_def deref_def
        get_main_rdma_ctrl_def Let_def ex_binders_def NR_BINDERS_def flag_def atomic_defs set_flag_def)
  then obtain d3 where "ib_rpc_commit_all ?env (drv_lock (ex_driver 1024)) = Inr (1, d3)" by blast
  from failed_commit_drops_staged_pages [OF ok _ _ _ _ this, of 0 5 ex_io "0x10000" "0x5000"]
  show ?thesis by (auto simp: ex_io_def CONFIG_BATCH_def)
qed

text \<open>
  C38: A commit does not wait for the whole batch: a server answers as soon as 512 of the driver's 1024
  pages are copied, or at once when none is. A page of the batch that is still on its way then is
  gone from the driver's staging buffer, and a load of it returns the page that was stored before.
\<close>

theorem page_in_flight_is_lost:
  assumes "servers_ok envs W bufs (d, srv)" "driver_ok base d" "main_ctrl d = Ctrl mn"
    and "block_open (unat (get_num_memblock (ucast pageid))) d"
    and "uint (atomic_read (drv_batch d)) < CONFIG_BATCH" "io_good io dma"
    and "all_free d" "answers env'" "ready_to_commit d srv"
    and "read_target io' d = Ctrl n" "n \<in> set (ctrl_list d)" "io_good io' dma'"
    and "far (srv n) (ucast pageid) = Some old"
  shows "\<exists>d1 d2 srv2 d3. maruswap_store env io pageid page d = Inr (0, d1)
    \<and> system_commit env' envs rid (d1, srv) = Some (d2, srv2)
    \<and> system_load io' pageid page' (d2, srv2) = Some (old, d3)"
proof -
  obtain d1 where d1: "maruswap_multicast_write env io page (ucast pageid) d = Inr (0, d1)" "driver_ok base d1"
      "ctrls d1 = ctrls d" "ctrl_list d1 = ctrl_list d" "main_ctrl d1 = main_ctrl d"
      "drv_binders d1 = drv_binders d"
      "block_open (unat (get_num_memblock (ucast pageid))) d1" "read_target io' d1 = read_target io' d"
    using write_keeps_agreement [OF assms(2-6), of env page io'] by blast
  have "all_free d1" "main_ctrl d1 = Ctrl mn" using assms(3,7) d1(5,6) by (simp_all add: all_free_def)
  then obtain d2 where cm: "ib_rpc_commit_all env' d1 = Inr (0, d2)"
    using commit_all_answers [OF _ assms(8)] by blast
  have "servers_ok envs W bufs (d1, srv)" "ready_to_commit d1 srv"
    using assms(1,9) d1(3,4) by (simp_all add: servers_ok_def ready_to_commit_def)
  from commit_then_load [OF this(1) d1(2) cm this(2) _ _ assms(12,13) d1(7), where rid = rid and page' = page']
  show ?thesis using assms(10,11) d1 by (auto simp: maruswap_store_def)
qed

theorem page_in_flight_is_lost_witness:
  "\<exists>srv d1 d2 srv2 d3.
     (\<forall>n. atomic_read (batch (srv n)) = 512)
   \<and> maruswap_store (ex_call commit_opcode) ex_io 5 0x5000 (ex_driver 3) = Inr (0, d1)
   \<and> system_commit (ex_call commit_opcode) (\<lambda>_. ex_env) (\<lambda>_. 0) (d1, srv) = Some (d2, srv2)
   \<and> system_load ex_io 5 0x6000 (d2, srv2) = Some (\<lambda>_. 3, d3) \<and> (\<lambda>_. 3) \<noteq> page_at (kmem (ex_driver 3)) 0x5000"
proof -
  obtain s where s: "serve_page ex_env 5 (\<lambda>_. 3) (ex_server 511) = Some s" "atomic_read (batch s) = 512"
    using ex_serve [of "\<lambda>_. 3" 511] by auto
  have sv: "serving ex_env ex_works ex_bufs s" "far s 5 = Some (\<lambda>_. 3)"
    using far_memory.write_inv [OF ex_serving s(1)] far_memory.write_same [OF ex_serving s(1)] by blast+
  have ok: "servers_ok (\<lambda>_. ex_env) (\<lambda>_. ex_works) (\<lambda>_. ex_bufs) (ex_driver 3, \<lambda>_. s)"
    using ex_servers_ok [of 3] sv(1) by (simp add: servers_ok_def)
  have rd: "ready_to_commit (ex_driver 3) (\<lambda>_. s)"
    using s(2) by (simp add: ready_to_commit_def ex_ctrl_def SERVER_BATCH_def)
  have d: "driver_ok ex_base (ex_driver 3)" "main_ctrl (ex_driver 3) = Ctrl 0"
    "block_open (unat (get_num_memblock (ucast (5 :: u64)))) (ex_driver 3)"
    "uint (atomic_read (drv_batch (ex_driver 3))) < CONFIG_BATCH"
    "read_target ex_io (ex_driver 3) = Ctrl 1" "1 \<in> set (ctrl_list (ex_driver 3))"
    "far s (ucast (5 :: u64)) = Some (\<lambda>_. 3)"
    using sv(2) by (simp_all add: ex_driver_ok ex_driver_facts)
  have "(\<lambda>_. 3) \<noteq> page_at (kmem (ex_driver 3)) 0x5000"
    by (simp add: ex_page_stored ex_page_def fun_eq_iff)
  with page_in_flight_is_lost [OF ok d(1-4) ex_io_good ex_all_free ex_answers rd d(5,6) ex_io_good,
      where env = "ex_call commit_opcode" and page = "0x5000" and rid = "\<lambda>_. 0" and page' = "0x6000",
      OF d(7)] s(2)
  show ?thesis by (intro exI [of _ "\<lambda>_. s"]) auto
qed

text \<open>
  A store whose entry the kernel has no memory for reports success, and the page that was staged
  before under the same number is what a load then returns: the new page is lost.
\<close>

theorem store_without_entry_leaves_old_page:
  assumes "driver_ok base d" "main_ctrl d = Ctrl mn"
    and "block_open (unat (get_num_memblock (ucast pageid))) d"
    and "uint (atomic_read (drv_batch d)) < CONFIG_BATCH"
    and "io_good (io\<lparr>io_xa_ok := True\<rparr>) dma" "\<not> io_xa_ok io"
    and "staged (stage_buffer d) (kmem d) (ucast pageid) = Some old" "read_target io' d = Ctrl n"
  shows "\<exists>d' d''. maruswap_store env io pageid page d = Inr (0, d')
    \<and> system_load io' pageid page' (d', srv) = Some (old, d'')"
proof -
  obtain d' where d': "maruswap_multicast_write env io page (ucast pageid) d = Inr (0, d')"
      "staged (stage_buffer d') (kmem d') = staged (stage_buffer d) (kmem d)"
      "ctrl_list d' = ctrl_list d" "main_ctrl d' = main_ctrl d"
    using write_stale [OF assms(1-6), of env page] by blast
  have "read_target io' d' = Ctrl n" using d'(3,4) assms(8) read_target_cong by metis
  with load_staged [of d' pageid old io' n page' srv] assms(7) d'(1,2)
  show ?thesis by (simp add: maruswap_store_def)
qed

theorem store_without_entry_leaves_old_page_witness:
  "\<exists>d d' d''. maruswap_store (ex_call commit_opcode) (ex_io\<lparr>io_xa_ok := False\<rparr>) 5 0x5000 d = Inr (0, d')
    \<and> system_load ex_io 5 0x6000 (d', ex_servers 0) = Some (ex_page, d'')"
proof -
  have ok: "driver_ok ex_base (ex_driver 3)" by (simp add: ex_driver_ok)
  obtain d where d: "maruswap_multicast_write (ex_call commit_opcode) ex_io 0x5000 5 (ex_driver 3) = Inr (0, d)"
      "staged (stage_buffer d) (kmem d) 5 = Some ex_page" "uint (atomic_read (drv_batch d)) = 4"
      "ctrls d = ctrls (ex_driver 3)" "ctrl_list d = [1, 0]" "main_ctrl d = Ctrl 0"
    using write_common [OF ok _ _ _ ex_io_good, of 0 5 "ex_call commit_opcode" "0x5000"] ex_page_stored
    by auto
  have op: "block_open (unat (get_num_memblock (ucast (5 :: u64)))) d"
    using ex_block_open [of 3] d(4,5) by (simp add: block_open_def)
  have io: "io_good ((ex_io\<lparr>io_xa_ok := False\<rparr>)\<lparr>io_xa_ok := True\<rparr>) 0x10000"
    using ex_io_good by (simp add: ex_io_def)
  have rt: "read_target ex_io d = Ctrl 1"
    using read_target_cong [of d "ex_driver 3" ex_io] d(5,6) by simp
  have "\<exists>d' d''. maruswap_store (ex_call commit_opcode) (ex_io\<lparr>io_xa_ok := False\<rparr>) 5 0x5000 d = Inr (0, d')
    \<and> system_load ex_io 5 0x6000 (d', ex_servers 0) = Some (ex_page, d'')"
    by (rule store_without_entry_leaves_old_page [OF write_driver_ok [OF d(1) ok] d(6) op _ io _ _ rt])
      (simp_all add: d CONFIG_BATCH_def)
  then show ?thesis by blast
qed

section \<open>The server\<close>






definition ex_poor_env :: "nat \<Rightarrow> block_env" where
  "ex_poor_env n = (ex_env n)\<lparr>malloc_ok := False\<rparr>"

definition ex_pending :: server where
  "ex_pending = (ex_server 512)\<lparr>commit_list := [1], multicast_rq := [2],
     works := (works (ex_server 512))(1 := (works (ex_server 512) 1)
       \<lparr>rw_wc := \<lparr>wr_id = 1, imm_data = flow_header 5, wc_ok = True\<rparr>\<rparr>)\<rparr>"


text \<open>
  The multicast commit gives the receives back without clearing their mark, so the next page that
  arrives in one of them is taken for copied: it is listed for the next commit and acknowledged
  with it, but never stored.
\<close>

theorem multicast_commit_loses_next_page:
  assumes "server_ok env W bufs s" "all_copied s" "commit_list s = rw # rest"
    and "process_multicast_commit env w s = Inr s'" "imm_data v = flow_header off" "wr_id v = rw"
  shows "\<exists>s2. process_multicast_completion env v s' = Inr s2 \<and> rw \<in> set (commit_list s2)
    \<and> far s2 = far s' \<and> smem s2 = smem s'"
proof -
  have "commit_list s \<noteq> []" using assms(3) by simp
  from process_multicast_commit_marked [OF assms(4,1) this assms(2)]
  have "rw_convey (works s' rw)" using assms(3) by simp
  then have "rw_convey (works s' (wr_id v))" using assms(6) by simp
  note skip = marked_page_skipped [OF this, of env]
  then show ?thesis using flow_completion [OF assms(5), of env s'] assms(6) by (auto simp: lock_defs)
qed

theorem multicast_commit_loses_next_page_witness:
  "\<exists>s s' s2. process_multicast_commit ex_env \<lparr>wr_id = 9, imm_data = 0x30000000, wc_ok = True\<rparr> s = Inr s'
    \<and> process_multicast_completion ex_env \<lparr>wr_id = 1, imm_data = flow_header 7, wc_ok = True\<rparr> s' = Inr s2
    \<and> smem s2 = smem s' \<and> commit_list s = [1]"
proof -
  let ?w = "\<lparr>wr_id = 9, imm_data = 0x30000000, wc_ok = True\<rparr>"
  obtain s where s: "serve_page ex_env 5 ex_page (ex_server 0) = Some s" "commit_list s = [1]"
      "multicast_rq s = [2]" "imm_data (rw_wc (works s 1)) = flow_header 5"
    using ex_serve [where k = 0 and p = ex_page] by auto
  have sv: "serving ex_env ex_works ex_bufs s" using far_memory.write_inv [OF ex_serving s(1)] .
  then have ok: "server_ok ex_env ex_works ex_bufs s" "all_copied s" by (simp_all add: serving_def)
  have "\<exists>s'. process_multicast_commit ex_env ?w s = Inr s'"
  proof -
    have "grants ex_env 0" using ex_grants by (simp add: MAX_MEMBLOCK_def)
    then have "\<exists>s1. convey_all ex_env [1] s = Inr s1"
      using s(2,4) by (intro conveyed_again [OF ok(1)]) (auto simp: MAX_MEMBLOCK_def intro!: exI [of _ 5])
    then show ?thesis using s(2) by (auto simp: process_multicast_commit_def Let_def)
  qed
  then obtain s' where s': "process_multicast_commit ex_env ?w s = Inr s'" by blast
  from multicast_commit_loses_next_page [OF ok s(2) s', of "\<lparr>wr_id = 1, imm_data = flow_header 7, wc_ok = True\<rparr>" 7]
  show ?thesis using s' s(2) by auto
qed

text \<open>
  The request for a single page compares the page number within the block with whole page numbers:
  pages outside block 0 are never found, and the server waits for ever.
\<close>

theorem get_page_never_found:
  assumes "\<forall>rw \<in> set (commit_list s). \<exists>off. imm_data (rw_wc (works s rw)) = flow_header off
      \<and> get_num_memblock off \<noteq> 0"
  shows "process_rpc_get_page env [] w s = Inl Spinning"
  using get_page_spins [of s env w] assms flow_block_nonzero by metis

theorem get_page_never_found_witness:
  "process_rpc_get_page ex_env [] \<lparr>wr_id = 9, imm_data = 0x60040005, wc_ok = True\<rparr>
     ((ex_pending)\<lparr>works := (\<lambda>rw. (works ex_pending rw)\<lparr>rw_wc := \<lparr>wr_id = rw, imm_data = flow_header 0x40005, wc_ok = True\<rparr>\<rparr>)\<rparr>)
   = Inl Spinning"
  by (rule get_page_never_found) (auto simp: get_num_memblock_def intro!: exI [of _ "0x40005"])

text \<open>
  C9: A store that finds the batch full is a commit followed by a store with room: it leaves the driver in
  the same state and returns the same, with the same packets sent; and when the commit fails, it
  is the commit alone, and reports failure.
\<close>

theorem full_store_is_commit_then_store:
  assumes "driver_ok base d" "main_ctrl d = Ctrl mn"
    and "block_open (unat (get_num_memblock (ucast pageid))) d" "io_dma io = Some dma"
    and "uint (atomic_read (drv_batch d)) = CONFIG_BATCH" "ib_rpc_commit_all env d = Inr (r, d1)"
  shows "maruswap_store env io pageid page d =
    (if r = 0 then maruswap_store env io pageid page d1 else Inr (- 1, d1))"
  using write_full [OF assms] by (simp add: maruswap_store_def)

theorem full_store_is_commit_then_store_witness:
  "\<exists>d1. ib_rpc_commit_all (ex_call commit_opcode) (ex_driver 1024) = Inr (0, d1)
    \<and> maruswap_store (ex_call commit_opcode) ex_io 5 0x5000 (ex_driver 1024)
        = maruswap_store (ex_call commit_opcode) ex_io 5 0x5000 d1"
proof -
  have ok: "driver_ok ex_base (ex_driver 1024)" by (rule ex_driver_ok) (simp add: CONFIG_BATCH_def)
  obtain d1 where "ib_rpc_commit_all (ex_call commit_opcode) (ex_driver 1024) = Inr (0, d1)"
    using commit_all_answers [OF ex_all_free ex_answers ex_driver_facts(1), of 1024] by blast
  from full_store_is_commit_then_store [OF ok _ _ _ _ this, of 0 5 ex_io "0x10000" "0x5000"] this
  show ?thesis by (simp add: ex_io_def CONFIG_BATCH_def)
qed

section \<open>The network\<close>



end
